(* ===== verification/Prelude.thy ===== *)
theory Prelude
  imports Main "HOL-Library.Word"
begin

text \<open>
  Shared vocabulary of the development: the machine integer types, the panics of the Rust
  sources as values of a sum type, sequencing of fallible operations, \<open>for\<close> loops over lists,
  and little-endian views of byte blocks. A byte block (a disk block of 512 bytes, a physical
  page of 4096 bytes) is a list of bytes; the sources reinterpret it as an array of \<open>u32\<close> or
  \<open>u64\<close> by a pointer cast, which is \<open>read_u\<close>/\<open>write_u\<close> here.
\<close>

section \<open>Machine integers and panics\<close>

type_synonym u8 = "8 word"
type_synonym usize = "64 word"

text \<open>Each constructor is one way a Rust function of the sources does not return.\<close>

datatype panic =
    Assertion_Failed    \<comment> \<open>\<open>assert!\<close>, \<open>assert_eq!\<close>\<close>
  | Unwrap_None         \<comment> \<open>\<open>unwrap\<close>/\<open>expect\<close> on \<open>None\<close> or \<open>Err\<close>\<close>
  | Index_Out_Of_Range  \<comment> \<open>slice or array index\<close>
  | Explicit_Panic      \<comment> \<open>\<open>panic!\<close>\<close>
  | Lock_Held           \<comment> \<open>a spin lock taken twice by the same control flow: it spins forever\<close>
  | Already_Borrowed    \<comment> \<open>\<open>RefCell::borrow_mut\<close> while a borrow is alive\<close>
  | Device_Error        \<comment> \<open>the block device rejects the request\<close>
  | Out_Of_Fuel         \<comment> \<open>a loop that has not ended within its bound\<close>

type_synonym 'a res = "panic + 'a"

section \<open>Collections of facts\<close>

named_theorems res_simps \<open>equations of fallible sequencing\<close>
named_theorems frame_simps \<open>what an operation leaves unchanged\<close>

section \<open>Sequencing\<close>

definition rbind :: "'a res \<Rightarrow> ('a \<Rightarrow> 'b res) \<Rightarrow> 'b res" where
  "rbind m f = (case m of Inl e \<Rightarrow> Inl e | Inr x \<Rightarrow> f x)"

definition runwrap :: "'a option \<Rightarrow> 'a res" where
  "runwrap x = (case x of None \<Rightarrow> Inl Unwrap_None | Some y \<Rightarrow> Inr y)"

definition rassert :: "bool \<Rightarrow> unit res" where
  "rassert b = (if b then Inr () else Inl Assertion_Failed)"

lemma rbind_simps [simp, res_simps]:
  "rbind (Inl e) f = Inl e"
  "rbind (Inr x) f = f x"
  by (simp_all add: rbind_def)

lemma rbind_eq_Inr [res_simps]: "rbind m f = Inr y \<longleftrightarrow> (\<exists>x. m = Inr x \<and> f x = Inr y)"
  by (cases m) auto

lemma rbind_eq_InrE:
  assumes "rbind m f = Inr y"
  obtains x where "m = Inr x" and "f x = Inr y"
  using assms by (cases m) auto

lemma rbind_eq_InlE:
  assumes "rbind m f = Inl e"
  obtains "m = Inl e" | x where "m = Inr x" "f x = Inl e"
  using assms by (cases m) auto

lemma rbind_cong [fundef_cong]:
  "m = m' \<Longrightarrow> (\<And>x. m' = Inr x \<Longrightarrow> f x = f' x) \<Longrightarrow> rbind m f = rbind m' f'"
  by (cases m') auto

lemma rbind_assoc: "rbind (rbind m f) g = rbind m (\<lambda>x. rbind (f x) g)"
  by (cases m) auto

lemma runwrap_simps [simp, res_simps]:
  "runwrap None = Inl Unwrap_None"
  "runwrap (Some x) = Inr x"
  by (simp_all add: runwrap_def)

lemma runwrap_eq_Inr [simp]: "runwrap x = Inr y \<longleftrightarrow> x = Some y"
  by (cases x) auto

lemma rassert_simps [simp, res_simps]:
  "rassert True = Inr ()"
  "rassert False = Inl Assertion_Failed"
  by (simp_all add: rassert_def)

lemma rassert_eq_Inr [simp]: "rassert b = Inr u \<longleftrightarrow> b"
  by (cases b) auto

text \<open>A \<open>for x in xs\<close> loop that threads a state and may panic.\<close>

fun rfold :: "('a \<Rightarrow> 's \<Rightarrow> 's res) \<Rightarrow> 'a list \<Rightarrow> 's \<Rightarrow> 's res" where
  "rfold f [] s = Inr s"
| "rfold f (x # xs) s = rbind (f x s) (rfold f xs)"

lemma rfold_append: "rfold f (xs @ ys) s = rbind (rfold f xs s) (rfold f ys)"
  by (induction xs arbitrary: s) (simp_all add: rbind_assoc cong: rbind_cong)

lemma rfold_invariant:
  assumes "rfold f xs s = Inr s'" and "I s"
    and "\<And>x s s'. x \<in> set xs \<Longrightarrow> I s \<Longrightarrow> f x s = Inr s' \<Longrightarrow> I s'"
  shows "I s'"
  using assms
proof (induction xs arbitrary: s)
  case Nil
  then show ?case by simp
next
  case (Cons x xs)
  from Cons.prems(1) obtain t where t: "f x s = Inr t" "rfold f xs t = Inr s'"
    by (auto elim: rbind_eq_InrE)
  with Cons.prems(2) Cons.prems(3) [of x s t] have "I t" by simp
  with t(2) Cons.prems(3) show ?case by (auto intro: Cons.IH)
qed

text \<open>Under an invariant each step of which succeeds, the loop succeeds.\<close>

lemma rfold_total:
  assumes "I s"
    and "\<And>x s. x \<in> set xs \<Longrightarrow> I s \<Longrightarrow> \<exists>s'. f x s = Inr s' \<and> I s'"
  shows "\<exists>s'. rfold f xs s = Inr s' \<and> I s'"
  using assms
proof (induction xs arbitrary: s)
  case Nil
  then show ?case by simp
next
  case (Cons x xs)
  then obtain t where t: "f x s = Inr t" "I t" by (meson list.set_intros(1))
  moreover have "\<exists>s'. rfold f xs t = Inr s' \<and> I s'"
    using t Cons.prems(2) by (intro Cons.IH) auto
  ultimately show ?case by simp
qed

lemma word_unat_eqI: "unat a = unat b \<Longrightarrow> a = b"
  by (rule unsigned_word_eqI)

section \<open>Vectors\<close>

text \<open>\<open>Vec::pop\<close> takes the last element, \<open>Vec::push\<close> appends.\<close>

definition vec_pop :: "'a list \<Rightarrow> ('a \<times> 'a list) option" where
  "vec_pop xs = (if xs = [] then None else Some (last xs, butlast xs))"

definition vec_push :: "'a list \<Rightarrow> 'a \<Rightarrow> 'a list" where
  "vec_push xs x = xs @ [x]"

lemma vec_pop_None [simp]: "vec_pop xs = None \<longleftrightarrow> xs = []"
  by (simp add: vec_pop_def)

lemma vec_pop_Some: "vec_pop xs = Some (x, ys) \<longleftrightarrow> xs = ys @ [x]"
  by (auto simp: vec_pop_def)

lemma vec_pop_push [simp]: "vec_pop (vec_push xs x) = Some (x, xs)"
  by (simp add: vec_pop_def vec_push_def)

lemma set_vec_push [simp]: "set (vec_push xs x) = insert x (set xs)"
  by (simp add: vec_push_def)

lemma distinct_vec_push [simp]: "distinct (vec_push xs x) \<longleftrightarrow> x \<notin> set xs \<and> distinct xs"
  by (auto simp: vec_push_def)

lemma length_vec_push [simp]: "length (vec_push xs x) = Suc (length xs)"
  by (simp add: vec_push_def)

text \<open>Indexing a slice.\<close>

definition vec_at :: "'a list \<Rightarrow> nat \<Rightarrow> 'a res" where
  "vec_at xs i = (if i < length xs then Inr (xs ! i) else Inl Index_Out_Of_Range)"

lemma nth_update_at: "xs[i := x] ! j = (if i = j \<and> j < length xs then x else xs ! j)"
  by (cases "i = j") (auto simp: list_update_beyond)

text \<open>\<open>iter().enumerate().find(p)\<close>: the first index whose element satisfies \<open>p\<close>.\<close>

fun find_index :: "('a \<Rightarrow> bool) \<Rightarrow> 'a list \<Rightarrow> nat option" where
  "find_index p [] = None"
| "find_index p (x # xs) = (if p x then Some 0 else map_option Suc (find_index p xs))"

lemma find_index_None: "find_index p xs = None \<longleftrightarrow> (\<forall>x \<in> set xs. \<not> p x)"
  by (induction xs) auto

lemma find_index_Some:
  "find_index p xs = Some i \<longleftrightarrow> i < length xs \<and> p (xs ! i) \<and> (\<forall>j < i. \<not> p (xs ! j))"
proof (induction xs arbitrary: i)
  case Nil
  then show ?case by simp
next
  case (Cons x xs)
  then show ?case by (cases i) (auto simp: nth_Cons split: nat.splits)
qed

text \<open>\<open>Vec::remove(i)\<close> and \<open>drain(i..=i)\<close>.\<close>

definition vec_remove :: "nat \<Rightarrow> 'a list \<Rightarrow> 'a list" where
  "vec_remove i xs = take i xs @ drop (Suc i) xs"

lemma length_vec_remove [simp]: "i < length xs \<Longrightarrow> length (vec_remove i xs) = length xs - 1"
  by (simp add: vec_remove_def)

lemma vec_remove_split: "i < length xs \<Longrightarrow> \<exists>ys zs. xs = ys @ xs ! i # zs \<and> vec_remove i xs = ys @ zs \<and> length ys = i"
  by (rule exI [of _ "take i xs"], rule exI [of _ "drop (Suc i) xs"])
    (simp add: vec_remove_def id_take_nth_drop [symmetric])

lemma set_vec_remove_subset: "set (vec_remove i xs) \<subseteq> set xs"
  by (auto simp: vec_remove_def dest: in_set_takeD in_set_dropD)

section \<open>Little-endian views of byte blocks\<close>

fun le_bytes :: "nat \<Rightarrow> nat \<Rightarrow> u8 list" where
  "le_bytes 0 n = []"
| "le_bytes (Suc k) n = of_nat (n mod 256) # le_bytes k (n div 256)"

fun le_val :: "u8 list \<Rightarrow> nat" where
  "le_val [] = 0"
| "le_val (b # bs) = unat b + 256 * le_val bs"

lemma length_le_bytes [simp]: "length (le_bytes k n) = k"
  by (induction k arbitrary: n) auto

lemma unat_u8_less [simp]: "unat (b :: u8) < 256"
  using unsigned_less [of b] by simp

lemma unat_of_nat_u8 [simp]: "unat (of_nat (n mod 256) :: u8) = n mod 256"
  by (simp add: unat_of_nat)

lemma le_val_le_bytes [simp]: "le_val (le_bytes k n) = n mod 256 ^ k"
proof (induction k arbitrary: n)
  case 0
  then show ?case by simp
next
  case (Suc k)
  then show ?case by (simp add: mod_mult2_eq)
qed

lemma byte_digit_less: "x < 256 \<Longrightarrow> n < m \<Longrightarrow> x + 256 * n < 256 * (m :: nat)"
  by linarith

lemma le_val_less: "le_val bs < 256 ^ length bs"
proof (induction bs)
  case Nil
  then show ?case by simp
next
  case (Cons b bs)
  have "unat b + 256 * le_val bs < 256 * 256 ^ length bs"
    by (rule byte_digit_less) (simp_all add: Cons)
  then show ?case by simp
qed

lemma le_bytes_le_val [simp]: "length bs = k \<Longrightarrow> le_bytes k (le_val bs) = bs"
  by (induction bs arbitrary: k) auto

lemma le_val_replicate_0 [simp]: "le_val (replicate k 0) = 0"
  by (induction k) auto

lemma le_bytes_0 [simp]: "le_bytes k 0 = replicate k 0"
  by (induction k) auto

text \<open>
  Slices: \<open>buf[i..i+n]\<close> read, and \<open>copy_from_slice\<close> into \<open>buf[i..i+n]\<close>.
\<close>

definition slice :: "nat \<Rightarrow> nat \<Rightarrow> 'a list \<Rightarrow> 'a list" where
  "slice i n bs = take n (drop i bs)"

definition splice :: "nat \<Rightarrow> 'a list \<Rightarrow> 'a list \<Rightarrow> 'a list" where
  "splice i xs bs = take i bs @ xs @ drop (i + length xs) bs"

lemma length_slice [simp]: "length (slice i n bs) = min n (length bs - i)"
  by (simp add: slice_def)

lemma length_splice [simp]: "i + length xs \<le> length bs \<Longrightarrow> length (splice i xs bs) = length bs"
  by (simp add: splice_def)

lemma nth_splice:
  "i + length xs \<le> length bs \<Longrightarrow> j < length bs \<Longrightarrow>
   splice i xs bs ! j = (if i \<le> j \<and> j < i + length xs then xs ! (j - i) else bs ! j)"
  by (auto simp: splice_def nth_append)

lemma nth_slice: "j < n \<Longrightarrow> i + j < length bs \<Longrightarrow> slice i n bs ! j = bs ! (i + j)"
  by (simp add: slice_def)

lemma slice_splice_same [simp]:
  "i + length xs \<le> length bs \<Longrightarrow> n = length xs \<Longrightarrow> slice i n (splice i xs bs) = xs"
  by (simp add: slice_def splice_def)

lemma slice_splice_disjoint:
  assumes "i + length xs \<le> length bs" and "j + n \<le> length bs"
    and "i + length xs \<le> j \<or> j + n \<le> i"
  shows "slice j n (splice i xs bs) = slice j n bs"
  using assms by (intro nth_equalityI) (auto simp: nth_slice nth_splice)

lemma splice_slice_same [simp]: "i + n \<le> length bs \<Longrightarrow> splice i (slice i n bs) bs = bs"
  by (intro nth_equalityI) (auto simp: nth_splice nth_slice)

lemma slice_replicate [simp]: "slice i n (replicate m x) = replicate (min n (m - i)) x"
  by (simp add: slice_def min.commute)

lemma slice_full [simp]: "length bs = n \<Longrightarrow> slice 0 n bs = bs"
  by (simp add: slice_def)

lemma splice_full [simp]: "length bs = length xs \<Longrightarrow> splice 0 xs bs = xs"
  by (simp add: splice_def)

text \<open>Element \<open>i\<close> of a block seen as an array of \<open>k\<close>-byte unsigned integers.\<close>

definition read_u :: "nat \<Rightarrow> u8 list \<Rightarrow> nat \<Rightarrow> nat" where
  "read_u k bs i = le_val (slice (k * i) k bs)"

definition write_u :: "nat \<Rightarrow> u8 list \<Rightarrow> nat \<Rightarrow> nat \<Rightarrow> u8 list" where
  "write_u k bs i v = splice (k * i) (le_bytes k v) bs"

lemma length_write_u [simp]:
  "k * Suc i \<le> length bs \<Longrightarrow> length (write_u k bs i v) = length bs"
  by (simp add: write_u_def)

lemma read_u_less: "read_u k bs i < 256 ^ k"
proof -
  have "read_u k bs i < 256 ^ length (slice (k * i) k bs)"
    unfolding read_u_def by (rule le_val_less)
  also have "\<dots> \<le> 256 ^ k"
    by (rule power_increasing) (simp_all add: slice_def)
  finally show ?thesis .
qed

lemma read_write_u_same [simp]:
  "k * Suc i \<le> length bs \<Longrightarrow> read_u k (write_u k bs i v) i = v mod 256 ^ k"
  by (simp add: read_u_def write_u_def)

lemma read_write_u_other:
  assumes "k * Suc i \<le> length bs" and "k * Suc j \<le> length bs" and "i \<noteq> j"
  shows "read_u k (write_u k bs i v) j = read_u k bs j"
proof -
  from assms(3) have "Suc i \<le> j \<or> Suc j \<le> i" by auto
  then have "k * Suc i \<le> k * j \<or> k * Suc j \<le> k * i"
    using mult_le_mono2 by blast
  with assms show ?thesis
    unfolding read_u_def write_u_def by (subst slice_splice_disjoint) auto
qed

lemma read_write_u:
  "k * Suc i \<le> length bs \<Longrightarrow> k * Suc j \<le> length bs \<Longrightarrow>
   read_u k (write_u k bs i v) j = (if i = j then v mod 256 ^ k else read_u k bs j)"
  by (simp add: read_write_u_other)

lemma write_read_u_same [simp]:
  "k * Suc i \<le> length bs \<Longrightarrow> write_u k bs i (read_u k bs i) = bs"
  by (simp add: read_u_def write_u_def)

lemma read_u_zeros [simp]: "read_u k (replicate n 0) i = 0"
  by (simp add: read_u_def)

section \<open>Arrays of unsigned integers\<close>

lemma read_u_concat:
  assumes "i < length vs"
  shows "read_u k (concat (map (le_bytes k) vs) @ rest) i = vs ! i mod 256 ^ k"
  using assms
proof (induction vs arbitrary: i)
  case (Cons v vs)
  show ?case
  proof (cases i)
    case 0
    then show ?thesis by (simp add: read_u_def slice_def)
  next
    case (Suc j)
    then have "read_u k (concat (map (le_bytes k) (v # vs)) @ rest) i =
        read_u k (concat (map (le_bytes k) vs) @ rest) j"
      by (simp add: read_u_def slice_def)
    with Cons Suc show ?thesis by simp
  qed
qed simp

lemma concat_read_u:
  assumes "k * m \<le> length bs"
  shows "concat (map (\<lambda>i. le_bytes k (read_u k bs i)) [0..<m]) = take (k * m) bs"
  using assms
proof (induction m)
  case (Suc m)
  have "le_bytes k (read_u k bs m) = slice (k * m) k bs"
    using Suc.prems by (simp add: read_u_def)
  moreover have "take (k * m) bs @ slice (k * m) k bs = take (k * Suc m) bs"
    by (simp add: slice_def flip: take_add) (simp add: add.commute)
  ultimately show ?case using Suc by simp
qed simp

lemma length_concat_le_bytes [simp]: "length (concat (map (le_bytes k) vs)) = k * length vs"
  by (induction vs) auto

end
