(* ===== verification/Addresses.thy ===== *)
theory Addresses
  imports Prelude
begin

text \<open>
  Physical and virtual addresses and page numbers (\<open>os/src/memory/address.rs\<close>) with the
  constants of \<open>os/src/config.rs\<close>. A \<open>usize\<close> is a 64-bit word; the four tuple structs are
  one-constructor datatypes, ordered as the derived \<open>Ord\<close> orders them.
\<close>

unbundle bit_operations_syntax

section \<open>Constants\<close>

definition USER_STACK_SIZE :: usize where "USER_STACK_SIZE = 4096 * 2"
definition KERNEL_STACK_SIZE :: usize where "KERNEL_STACK_SIZE = 4096 * 2"
definition KERNEL_HEAP_SIZE :: usize where "KERNEL_HEAP_SIZE = 0x200000"
definition MEMORY_END :: usize where "MEMORY_END = 0x80800000"
definition PAGE_SIZE :: usize where "PAGE_SIZE = 0x1000"
definition PAGE_SIZE_BITS :: nat where "PAGE_SIZE_BITS = 0xc"
definition usize_MAX :: usize where "usize_MAX = - 1"
definition TRAMPOLINE :: usize where "TRAMPOLINE = usize_MAX - PAGE_SIZE + 1"
definition TRAP_CONTEXT :: usize where "TRAP_CONTEXT = TRAMPOLINE - PAGE_SIZE"

definition PA_WIDTH_SV39 :: nat where "PA_WIDTH_SV39 = 56"
definition PPN_WIDTH_SV39 :: nat where "PPN_WIDTH_SV39 = PA_WIDTH_SV39 - PAGE_SIZE_BITS"
definition VA_WIDTH_SV39 :: nat where "VA_WIDTH_SV39 = 39"
definition VPN_WIDTH_SV39 :: nat where "VPN_WIDTH_SV39 = VA_WIDTH_SV39 - PAGE_SIZE_BITS"

lemmas config_defs =
  USER_STACK_SIZE_def KERNEL_STACK_SIZE_def KERNEL_HEAP_SIZE_def MEMORY_END_def PAGE_SIZE_def
  PAGE_SIZE_BITS_def usize_MAX_def TRAMPOLINE_def TRAP_CONTEXT_def
  PA_WIDTH_SV39_def PPN_WIDTH_SV39_def VA_WIDTH_SV39_def VPN_WIDTH_SV39_def

section \<open>Address types\<close>

datatype PhysAddr = PhysAddr (pa_0: usize)
datatype VirtAddr = VirtAddr (va_0: usize)
datatype PhysPageNum = PhysPageNum (ppn_0: usize)
datatype VirtPageNum = VirtPageNum (vpn_0: usize)

text \<open>The derived \<open>Ord\<close> of the two virtual types compares the wrapped integer.\<close>

instantiation VirtAddr :: linorder
begin

definition less_eq_VirtAddr :: "VirtAddr \<Rightarrow> VirtAddr \<Rightarrow> bool" where
  "less_eq_VirtAddr a b \<longleftrightarrow> va_0 a \<le> va_0 b"

definition less_VirtAddr :: "VirtAddr \<Rightarrow> VirtAddr \<Rightarrow> bool" where
  "less_VirtAddr a b \<longleftrightarrow> va_0 a < va_0 b"

instance
  by standard (auto simp: less_eq_VirtAddr_def less_VirtAddr_def VirtAddr.expand)

end

instantiation VirtPageNum :: linorder
begin

definition less_eq_VirtPageNum :: "VirtPageNum \<Rightarrow> VirtPageNum \<Rightarrow> bool" where
  "less_eq_VirtPageNum a b \<longleftrightarrow> vpn_0 a \<le> vpn_0 b"

definition less_VirtPageNum :: "VirtPageNum \<Rightarrow> VirtPageNum \<Rightarrow> bool" where
  "less_VirtPageNum a b \<longleftrightarrow> vpn_0 a < vpn_0 b"

instance
  by standard (auto simp: less_eq_VirtPageNum_def less_VirtPageNum_def VirtPageNum.expand)

end

section \<open>Conversions\<close>

definition low_bits :: "nat \<Rightarrow> usize" where
  "low_bits w = push_bit w 1 - 1"

definition PhysAddr_from :: "usize \<Rightarrow> PhysAddr" where
  "PhysAddr_from v = PhysAddr (v AND low_bits PA_WIDTH_SV39)"

definition PhysPageNum_from :: "usize \<Rightarrow> PhysPageNum" where
  "PhysPageNum_from v = PhysPageNum (v AND low_bits PPN_WIDTH_SV39)"

definition VirtAddr_from :: "usize \<Rightarrow> VirtAddr" where
  "VirtAddr_from v = VirtAddr (v AND low_bits VA_WIDTH_SV39)"

definition VirtPageNum_from :: "usize \<Rightarrow> VirtPageNum" where
  "VirtPageNum_from v = VirtPageNum (v AND low_bits VPN_WIDTH_SV39)"

definition pa_page_offset :: "PhysAddr \<Rightarrow> usize" where
  "pa_page_offset a = pa_0 a AND (PAGE_SIZE - 1)"

definition pa_floor :: "PhysAddr \<Rightarrow> PhysPageNum" where
  "pa_floor a = PhysPageNum (pa_0 a div PAGE_SIZE)"

definition pa_ceil :: "PhysAddr \<Rightarrow> PhysPageNum" where
  "pa_ceil a = PhysPageNum ((pa_0 a - 1 + PAGE_SIZE) div PAGE_SIZE)"

definition pa_aligned :: "PhysAddr \<Rightarrow> bool" where
  "pa_aligned a \<longleftrightarrow> pa_page_offset a = 0"

definition va_floor :: "VirtAddr \<Rightarrow> VirtPageNum" where
  "va_floor a = VirtPageNum (va_0 a div PAGE_SIZE)"

definition va_ceil :: "VirtAddr \<Rightarrow> VirtPageNum" where
  "va_ceil a = VirtPageNum ((va_0 a - 1 + PAGE_SIZE) div PAGE_SIZE)"

definition va_page_offset :: "VirtAddr \<Rightarrow> usize" where
  "va_page_offset a = va_0 a AND (PAGE_SIZE - 1)"

definition va_aligned :: "VirtAddr \<Rightarrow> bool" where
  "va_aligned a \<longleftrightarrow> va_page_offset a = 0"

definition ppn_of_pa :: "PhysAddr \<Rightarrow> PhysPageNum res" where
  "ppn_of_pa v = rbind (rassert (pa_page_offset v = 0)) (\<lambda>_. Inr (pa_floor v))"

definition pa_of_ppn :: "PhysPageNum \<Rightarrow> PhysAddr" where
  "pa_of_ppn v = PhysAddr (push_bit PAGE_SIZE_BITS (ppn_0 v))"

definition vpn_of_va :: "VirtAddr \<Rightarrow> VirtPageNum res" where
  "vpn_of_va v = rbind (rassert (va_page_offset v = 0)) (\<lambda>_. Inr (va_floor v))"

definition va_of_vpn :: "VirtPageNum \<Rightarrow> VirtAddr" where
  "va_of_vpn v = VirtAddr (push_bit PAGE_SIZE_BITS (vpn_0 v))"

text \<open>\<open>for i in (0..3).rev() { idx[i] = vpn & 511; vpn >>= 9; }\<close>\<close>

definition indexes :: "VirtPageNum \<Rightarrow> usize list" where
  "indexes v =
     snd (fold (\<lambda>i (vpn, idx). (drop_bit 9 vpn, idx[i := vpn AND 511])) (rev [0..<3])
       (vpn_0 v, replicate 3 0))"

section \<open>Page ranges\<close>

definition vpn_step :: "VirtPageNum \<Rightarrow> VirtPageNum" where
  "vpn_step v = VirtPageNum (vpn_0 v + 1)"

definition ppn_step :: "PhysPageNum \<Rightarrow> PhysPageNum" where
  "ppn_step v = PhysPageNum (ppn_0 v + 1)"

record VPNRange =
  l_vpn :: VirtPageNum
  r_vpn :: VirtPageNum

definition VPNRange_new :: "VirtPageNum \<Rightarrow> VirtPageNum \<Rightarrow> VPNRange res" where
  "VPNRange_new start stop =
     rbind (rassert (start \<le> stop)) (\<lambda>_. Inr \<lparr>l_vpn = start, r_vpn = stop\<rparr>)"

definition get_start :: "VPNRange \<Rightarrow> VirtPageNum" where "get_start r = l_vpn r"
definition get_end :: "VPNRange \<Rightarrow> VirtPageNum" where "get_end r = r_vpn r"

record SimpleRangeIterator =
  it_current :: VirtPageNum
  it_end :: VirtPageNum

definition into_iter :: "VPNRange \<Rightarrow> SimpleRangeIterator" where
  "into_iter r = \<lparr>it_current = l_vpn r, it_end = r_vpn r\<rparr>"

definition iter_next :: "SimpleRangeIterator \<Rightarrow> (VirtPageNum \<times> SimpleRangeIterator) option" where
  "iter_next it =
     (if it_current it = it_end it then None
      else Some (it_current it, it\<lparr>it_current := vpn_step (it_current it)\<rparr>))"

text \<open>A \<open>for\<close> loop calls \<open>next\<close> until it returns \<open>None\<close>; the distance to \<open>end\<close> shrinks.\<close>

lemma unat_dist_step:
  assumes "(a :: usize) \<noteq> b"
  shows "unat (b - (a + 1)) < unat (b - a)"
proof -
  from assms have "b - a \<noteq> 0" by simp
  then have "unat (b - a - 1) = unat (b - a) - 1" and "0 < unat (b - a)"
    by (simp_all add: unat_minus_one unat_gt_0)
  then show ?thesis by (simp add: diff_diff_eq)
qed

function iter_items :: "SimpleRangeIterator \<Rightarrow> VirtPageNum list" where
  "iter_items it = (case iter_next it of None \<Rightarrow> [] | Some (v, it') \<Rightarrow> v # iter_items it')"
  by pat_completeness auto
termination
  by (relation "measure (\<lambda>it. unat (vpn_0 (it_end it) - vpn_0 (it_current it)))")
    (auto simp: iter_next_def vpn_step_def intro!: unat_dist_step dest: VirtPageNum.expand
      split: if_splits)

declare iter_items.simps [simp del]

definition range_vpns :: "VPNRange \<Rightarrow> VirtPageNum list" where
  "range_vpns r = iter_items (into_iter r)"


section \<open>Reading the operations as arithmetic\<close>

lemma low_bits_and [simp]: "v AND low_bits w = take_bit w v"
  by (simp add: low_bits_def take_bit_eq_mask mask_eq_exp_minus_1 push_bit_of_1)

lemma page_mask: "PAGE_SIZE - 1 = (mask 12 :: usize)"
  by (simp add: PAGE_SIZE_def mask_eq_exp_minus_1)

lemma unat_usize_less: "unat (v :: usize) < 2 ^ 64"
  using unsigned_less [of v] by simp

lemma unat_take_bit: "unat (take_bit n (v :: usize)) = unat v mod 2 ^ n"
  by (subst unsigned_take_bit_eq) (simp add: take_bit_eq_mod)

lemma unat_drop_bit: "unat (drop_bit n (v :: usize)) = unat v div 2 ^ n"
  using unat_usize_less [of v]
  by (subst unsigned_drop_bit_eq) (simp add: drop_bit_eq_div take_bit_eq_mod)

lemma unat_push_bit:
  "unat v * 2 ^ n < 2 ^ 64 \<Longrightarrow> unat (push_bit n (v :: usize)) = unat v * 2 ^ n"
  by (subst unsigned_push_bit_eq) (simp add: push_bit_eq_mult take_bit_eq_mod)

lemma unat_conversions [simp]:
  "unat (pa_0 (PhysAddr_from v)) = unat v mod 2 ^ 56"
  "unat (ppn_0 (PhysPageNum_from v)) = unat v mod 2 ^ 44"
  "unat (va_0 (VirtAddr_from v)) = unat v mod 2 ^ 39"
  "unat (vpn_0 (VirtPageNum_from v)) = unat v mod 2 ^ 27"
  by (simp_all add: PhysAddr_from_def PhysPageNum_from_def VirtAddr_from_def VirtPageNum_from_def
      config_defs unat_take_bit)

lemma unat_va_floor [simp]: "unat (vpn_0 (va_floor a)) = unat (va_0 a) div 4096"
  and unat_pa_floor [simp]: "unat (ppn_0 (pa_floor p)) = unat (pa_0 p) div 4096"
  by (simp_all add: va_floor_def pa_floor_def PAGE_SIZE_def unat_div)

lemma unat_va_page_offset [simp]: "unat (va_page_offset a) = unat (va_0 a) mod 4096"
  and unat_pa_page_offset [simp]: "unat (pa_page_offset p) = unat (pa_0 p) mod 4096"
  by (simp_all add: va_page_offset_def pa_page_offset_def page_mask unat_take_bit
      flip: take_bit_eq_mask)

lemma unat_ceil_sum:
  assumes "unat (a :: usize) + 4095 < 2 ^ 64"
  shows "unat (a - 1 + PAGE_SIZE) = unat a + 4095"
proof -
  have "a - 1 + PAGE_SIZE = a + 4095" by (simp add: PAGE_SIZE_def)
  also have "unat \<dots> = unat a + 4095"
    using assms by (subst unat_add_lem [THEN iffD1]) (auto simp: )
  finally show ?thesis .
qed

lemma unat_va_ceil [simp]:
  "unat (va_0 a) + 4095 < 2 ^ 64 \<Longrightarrow> unat (vpn_0 (va_ceil a)) = (unat (va_0 a) + 4095) div 4096"
  and unat_pa_ceil [simp]:
  "unat (pa_0 p) + 4095 < 2 ^ 64 \<Longrightarrow> unat (ppn_0 (pa_ceil p)) = (unat (pa_0 p) + 4095) div 4096"
  by (simp_all add: va_ceil_def pa_ceil_def unat_div unat_ceil_sum) (simp_all add: PAGE_SIZE_def)

lemma unat_pa_of_ppn [simp]:
  "unat (ppn_0 p) < 2 ^ 52 \<Longrightarrow> unat (pa_0 (pa_of_ppn p)) = unat (ppn_0 p) * 4096"
  and unat_va_of_vpn [simp]:
  "unat (vpn_0 v) < 2 ^ 52 \<Longrightarrow> unat (va_0 (va_of_vpn v)) = unat (vpn_0 v) * 4096"
  by (simp_all add: pa_of_ppn_def va_of_vpn_def PAGE_SIZE_BITS_def unat_push_bit)

lemma indexes_eq:
  "indexes v = [drop_bit 18 (vpn_0 v) AND 511, drop_bit 9 (vpn_0 v) AND 511, vpn_0 v AND 511]"
  by (simp add: indexes_def numeral_3_eq_3 drop_bit_drop_bit)

lemma unat_indexes:
  "map unat (indexes v) =
     [unat (vpn_0 v) div 2 ^ 18 mod 512, unat (vpn_0 v) div 512 mod 512, unat (vpn_0 v) mod 512]"
proof -
  have m: "(x AND 511) = take_bit 9 x" for x :: usize
    by (simp add: take_bit_eq_mask mask_eq_exp_minus_1)
  show ?thesis by (simp add: indexes_eq m unat_take_bit unat_drop_bit)
qed

lemma length_indexes [simp]: "length (indexes v) = 3"
  by (simp add: indexes_eq)

lemma iter_items_unfold:
  "iter_items it =
     (if it_current it = it_end it then []
      else it_current it # iter_items (it\<lparr>it_current := vpn_step (it_current it)\<rparr>))"
  by (subst iter_items.simps) (simp add: iter_next_def)


section \<open>Index decomposition and page ranges\<close>

lemma split_vpn: "(n :: nat) < 2 ^ 27 \<Longrightarrow>
  (n div 2 ^ 18 mod 512) * 2 ^ 18 + (n div 512 mod 512) * 512 + n mod 512 = n"
proof -
  assume "n < 2 ^ 27"
  then have "n div 2 ^ 18 mod 512 = n div 512 div 512"
    by (simp add: div_mult2_eq [symmetric] less_mult_imp_div_less)
  then have "(n div 2 ^ 18 mod 512) * 2 ^ 18 + (n div 512 mod 512) * 512 + n mod 512 =
      (n div 512 div 512 * 512 + n div 512 mod 512) * 512 + n mod 512"
    by (simp only: add_mult_distrib) simp
  also have "\<dots> = n" by (simp only: div_mult_mod_eq)
  finally show ?thesis .
qed

lemma indexes_inj:
  assumes "unat (vpn_0 v) < 2 ^ 27" and "unat (vpn_0 w) < 2 ^ 27" and "indexes v = indexes w"
  shows "v = w"
proof -
  from assms(3) have "map unat (indexes v) = map unat (indexes w)" by simp
  then have "unat (vpn_0 v) = unat (vpn_0 w)"
    using split_vpn [OF assms(1)] split_vpn [OF assms(2)] by (simp only: unat_indexes) simp
  then show ?thesis by (intro VirtPageNum.expand) (simp add: unsigned_word_eqI)
qed

lemma unat_step:
  assumes "(a :: usize) < b"
  shows "unat (a + 1) = Suc (unat a)"
proof -
  from assms have "unat a + unat (1 :: usize) < 2 ^ LENGTH(64)"
    using unat_usize_less [of b] by (simp add: word_less_nat_alt)
  then show ?thesis by (simp add: unat_add_lem [THEN iffD1])
qed

lemma range_vpns_from:
  assumes "unat (vpn_0 (it_current it)) \<le> unat (vpn_0 (it_end it))"
  shows "map (\<lambda>v. unat (vpn_0 v)) (iter_items it) =
           [unat (vpn_0 (it_current it)) ..< unat (vpn_0 (it_end it))]"
  using assms
proof (induction it rule: iter_items.induct)
  case (1 it)
  show ?case
  proof (cases "it_current it = it_end it")
    case True
    then show ?thesis by (simp add: iter_items_unfold [of it])
  next
    case False
    let ?it = "it\<lparr>it_current := vpn_step (it_current it)\<rparr>"
    from False "1.prems" have lt: "unat (vpn_0 (it_current it)) < unat (vpn_0 (it_end it))"
      by (metis VirtPageNum.expand le_neq_implies_less unsigned_word_eqI)
    then have "vpn_0 (it_current it) < vpn_0 (it_end it)"
      by (simp add: word_less_nat_alt)
    then have step: "unat (vpn_0 (it_current it) + 1) = Suc (unat (vpn_0 (it_current it)))"
      by (rule unat_step)
    have "map (\<lambda>v. unat (vpn_0 v)) (iter_items ?it) =
        [unat (vpn_0 (it_current ?it)) ..< unat (vpn_0 (it_end ?it))]"
      by (rule "1.IH" [of "(it_current it, ?it)"])
        (use False lt step in \<open>simp_all add: iter_next_def vpn_step_def\<close>)
    with False lt step show ?thesis
      by (simp add: iter_items_unfold [of it] vpn_step_def upt_conv_Cons)
  qed
qed

lemma range_vpns_unat:
  "l_vpn r \<le> r_vpn r \<Longrightarrow>
   map (\<lambda>v. unat (vpn_0 v)) (range_vpns r) = [unat (vpn_0 (l_vpn r)) ..< unat (vpn_0 (r_vpn r))]"
  unfolding range_vpns_def
  by (subst range_vpns_from) (simp_all add: into_iter_def less_eq_VirtPageNum_def word_le_nat_alt)

lemma distinct_range_vpns: "l_vpn r \<le> r_vpn r \<Longrightarrow> distinct (range_vpns r)"
  using range_vpns_unat [of r] by (metis distinct_map distinct_upt)

lemma set_range_vpns:
  assumes "l_vpn r \<le> r_vpn r"
  shows "set (range_vpns r) = {v. l_vpn r \<le> v \<and> v < r_vpn r}"
proof -
  let ?f = "\<lambda>v. unat (vpn_0 v)"
  have inj: "inj ?f" by (auto intro!: injI VirtPageNum.expand intro: unsigned_word_eqI)
  have "?f ` set (range_vpns r) = {?f (l_vpn r) ..< ?f (r_vpn r)}"
    using arg_cong [OF range_vpns_unat [OF assms], of set] by simp
  then have "v \<in> set (range_vpns r) \<longleftrightarrow> ?f v \<in> {?f (l_vpn r) ..< ?f (r_vpn r)}" for v
    using inj by (metis inj_image_mem_iff)
  then show ?thesis
    by (auto simp: less_eq_VirtPageNum_def less_VirtPageNum_def word_le_nat_alt word_less_nat_alt)
qed

end
