(* ===== verification/Id_Allocator.thy ===== *)
theory Id_Allocator
  imports Prelude
begin

text \<open>
  The contract shared by the kernel's recycling allocators (physical frames, process
  identifiers): \<open>alloc\<close> hands out an identifier that is not in use, \<open>dealloc\<close> takes back
  exactly the identifiers in use. \<open>live s\<close> is the set in use, \<open>inv\<close> the allocator's
  invariant, \<open>room s\<close> the condition under which \<open>alloc\<close> is specified, and \<open>managed\<close> the
  identifiers that \<open>dealloc\<close> is able to check. The client lemmas about whole sequences of
  allocations and releases are proved here once.
\<close>

section \<open>Sequences of allocations and releases\<close>

text \<open>\<open>alloc().unwrap()\<close>, \<open>n\<close> times in a row.\<close>

fun alloc_many :: "('s \<Rightarrow> 'i option \<times> 's) \<Rightarrow> nat \<Rightarrow> 's \<Rightarrow> ('i list \<times> 's) res" where
  "alloc_many al 0 s = Inr ([], s)"
| "alloc_many al (Suc n) s =
     (case al s of
        (None, s') \<Rightarrow> Inl Unwrap_None
      | (Some i, s') \<Rightarrow> rbind (alloc_many al n s') (\<lambda>(is, s''). Inr (i # is, s'')))"

text \<open>Dropping a vector of handles releases them front to back.\<close>

definition drop_all :: "('i \<Rightarrow> 's \<Rightarrow> 's res) \<Rightarrow> 'i list \<Rightarrow> 's \<Rightarrow> 's res" where
  "drop_all de is s = rfold de is s"

lemma drop_all_simps [simp]:
  "drop_all de [] s = Inr s"
  "drop_all de (i # is) s = rbind (de i s) (drop_all de is)"
  by (simp_all add: drop_all_def fun_eq_iff cong: rbind_cong)

section \<open>The contract\<close>

locale id_allocator =
  fixes alloc :: "'s \<Rightarrow> 'i option \<times> 's"
    and dealloc :: "'i \<Rightarrow> 's \<Rightarrow> 's res"
    and live :: "'s \<Rightarrow> 'i set"
    and inv :: "'s \<Rightarrow> bool"
    and room :: "'s \<Rightarrow> bool"
    and managed :: "'i set"
  assumes alloc_Some:
      "inv s \<Longrightarrow> room s \<Longrightarrow> alloc s = (Some i, s') \<Longrightarrow>
       i \<notin> live s \<and> i \<in> managed \<and> live s' = insert i (live s) \<and> inv s'"
    and dealloc_live:
      "inv s \<Longrightarrow> i \<in> live s \<Longrightarrow> \<exists>s'. dealloc i s = Inr s' \<and> live s' = live s - {i} \<and> inv s'"
    and dealloc_dead:
      "inv s \<Longrightarrow> i \<in> managed \<Longrightarrow> i \<notin> live s \<Longrightarrow> \<exists>e. dealloc i s = Inl e"
begin

lemma dealloc_Inr:
  "inv s \<Longrightarrow> i \<in> managed \<Longrightarrow> dealloc i s = Inr s' \<Longrightarrow>
   i \<in> live s \<and> live s' = live s - {i} \<and> inv s'"
  by (metis Inl_Inr_False Inr_inject dealloc_dead dealloc_live)

lemma alloc_then_dealloc:
  "inv s \<Longrightarrow> room s \<Longrightarrow> alloc s = (Some i, s') \<Longrightarrow>
   \<exists>s''. dealloc i s' = Inr s'' \<and> live s'' = live s \<and> inv s''"
  using alloc_Some [of s i s'] dealloc_live [of s' i] by fastforce

lemma no_double_dealloc:
  assumes "inv s" and "i \<in> managed" and "dealloc i s = Inr s'"
  shows "\<exists>e. dealloc i s' = Inl e"
  using dealloc_Inr [OF assms] dealloc_dead [of s' i] assms(2) by simp

lemma drop_all_live:
  assumes "inv s" and "distinct is" and "set is \<subseteq> live s"
  shows "\<exists>s'. drop_all dealloc is s = Inr s' \<and> live s' = live s - set is \<and> inv s'"
  using assms
proof (induction "is" arbitrary: s)
  case Nil
  then show ?case by simp
next
  case (Cons i "is")
  then obtain t where t: "dealloc i s = Inr t" "live t = live s - {i}" "inv t"
    using dealloc_live [of s i] by auto
  with Cons.prems have "\<exists>s'. drop_all dealloc is t = Inr s' \<and> live s' = live t - set is \<and> inv s'"
    by (intro Cons.IH) auto
  with t show ?case by auto
qed

lemma alloc_many_Inr:
  assumes "alloc_many alloc n s = Inr (is, s')" and "inv s"
    and "\<And>t. inv t \<Longrightarrow> room t"
  shows "length is = n \<and> distinct is \<and> set is \<inter> live s = {} \<and> set is \<subseteq> managed \<and>
    live s' = live s \<union> set is \<and> inv s'"
  using assms(1,2)
proof (induction n arbitrary: s "is")
  case 0
  then show ?case by simp
next
  case (Suc n)
  from Suc.prems(1) obtain i t js where al: "alloc s = (Some i, t)"
    and rest: "alloc_many alloc n t = Inr (js, s')" and "is": "is = i # js"
    by (auto split: option.splits prod.splits elim!: rbind_eq_InrE)
  from alloc_Some [OF Suc.prems(2) assms(3) [OF Suc.prems(2)] al]
  have i: "i \<notin> live s" "i \<in> managed" "live t = insert i (live s)" "inv t" by auto
  from Suc.IH [OF rest i(4)] i "is" show ?case by auto
qed

text \<open>Allocating a batch and dropping it restores the set in use.\<close>

lemma alloc_many_drop_all:
  assumes "alloc_many alloc n s = Inr (is, s')" and "inv s" and "\<And>t. inv t \<Longrightarrow> room t"
  shows "\<exists>s''. drop_all dealloc is s' = Inr s'' \<and> live s'' = live s \<and> inv s''"
proof -
  from alloc_many_Inr [OF assms] have "length is = n" "distinct is" "set is \<inter> live s = {}"
    "live s' = live s \<union> set is" "inv s'" by auto
  with drop_all_live [of s' "is"] show ?thesis by auto
qed

end

section \<open>Bounded allocators\<close>

text \<open>An allocator over a finite pool fails only when the whole pool is in use.\<close>

locale bounded_id_allocator = id_allocator +
  fixes pool :: "'i set"
  assumes finite_pool: "finite pool"
    and live_pool: "inv s \<Longrightarrow> live s \<subseteq> pool"
    and alloc_None: "inv s \<Longrightarrow> alloc s = (None, s') \<Longrightarrow> live s = pool"
    and always_room: "inv s \<Longrightarrow> room s"
begin

lemma alloc_total:
  assumes "inv s" and "live s \<noteq> pool"
  shows "\<exists>i s'. alloc s = (Some i, s')"
  using alloc_None [OF assms(1)] assms(2) by (metis not_None_eq prod.exhaust)

lemma alloc_many_total:
  assumes "inv s" and "n \<le> card (pool - live s)"
  shows "\<exists>is s'. alloc_many alloc n s = Inr (is, s')"
  using assms
proof (induction n arbitrary: s)
  case 0
  then show ?case by simp
next
  case (Suc n)
  then have "live s \<noteq> pool" by auto
  with Suc.prems(1) obtain i t where al: "alloc s = (Some i, t)"
    using alloc_total by blast
  from alloc_Some [OF Suc.prems(1) always_room [OF Suc.prems(1)] al]
  have t: "i \<notin> live s" "live t = insert i (live s)" "inv t" by auto
  have "i \<in> pool" using t live_pool [of t] by blast
  then have "card (pool - live s) = Suc (card (pool - live t))"
    using t finite_pool
    by (metis (no_types, lifting) DiffI Diff_insert card.remove finite_Diff)
  with Suc.prems(2) have "n \<le> card (pool - live t)" by simp
  then obtain js u where "alloc_many alloc n t = Inr (js, u)"
    using Suc.IH [OF t(3)] by blast
  with al show ?case by simp
qed

end

end
