(* ===== verification/Frame_Allocator.thy ===== *)
theory Frame_Allocator
  imports Addresses Id_Allocator
begin

text \<open>
  The physical frame allocator (\<open>os/src/memory/frame_allocator.rs\<close>) and the physical memory
  it hands out. \<open>machine\<close> is the state the memory subsystem mutates: the contents of every
  physical page, as a list of 4096 bytes indexed by page number, and \<open>FRAME_ALLOCATOR\<close>. A
  \<open>FrameTracker\<close> is the page number it owns; dropping it is \<open>frame_dealloc\<close>.
\<close>

section \<open>StackFrameAllocator\<close>

record StackFrameAllocator =
  fa_current :: usize
  fa_end :: usize
  fa_recycled :: "usize list"

definition sfa_new :: StackFrameAllocator where
  "sfa_new = \<lparr>fa_current = 0, fa_end = 0, fa_recycled = []\<rparr>"

definition sfa_init :: "PhysPageNum \<Rightarrow> PhysPageNum \<Rightarrow> StackFrameAllocator \<Rightarrow> StackFrameAllocator" where
  "sfa_init l r st = st\<lparr>fa_current := ppn_0 l, fa_end := ppn_0 r\<rparr>"

definition sfa_alloc :: "StackFrameAllocator \<Rightarrow> PhysPageNum option \<times> StackFrameAllocator" where
  "sfa_alloc st =
     (case vec_pop (fa_recycled st) of
        Some (ppn, rest) \<Rightarrow> (Some (PhysPageNum_from ppn), st\<lparr>fa_recycled := rest\<rparr>)
      | None \<Rightarrow>
          if fa_current st = fa_end st then (None, st)
          else (let st' = st\<lparr>fa_current := fa_current st + 1\<rparr>
                in (Some (PhysPageNum_from (fa_current st' - 1)), st')))"

definition sfa_dealloc :: "PhysPageNum \<Rightarrow> StackFrameAllocator \<Rightarrow> StackFrameAllocator res" where
  "sfa_dealloc p st =
     (let ppn = ppn_0 p
      in if ppn \<ge> fa_current st \<or> find (\<lambda>v. v = ppn) (fa_recycled st) \<noteq> None
         then Inl Explicit_Panic
         else Inr (st\<lparr>fa_recycled := vec_push (fa_recycled st) ppn\<rparr>))"

definition init_frame_allocator :: "usize \<Rightarrow> StackFrameAllocator \<Rightarrow> StackFrameAllocator" where
  "init_frame_allocator ekernel st =
     sfa_init (pa_ceil (PhysAddr_from ekernel)) (pa_floor (PhysAddr_from MEMORY_END)) st"

section \<open>Physical memory\<close>

type_synonym page = "u8 list"

record machine =
  pmem :: "usize \<Rightarrow> page"
  falloc :: StackFrameAllocator

text \<open>The page at which the pointer built from \<open>PhysAddr::from(ppn)\<close> points.\<close>

definition phys_page :: "PhysPageNum \<Rightarrow> usize" where
  "phys_page p = pa_0 (pa_of_ppn p) div PAGE_SIZE"

definition get_bytes_array :: "machine \<Rightarrow> PhysPageNum \<Rightarrow> page" where
  "get_bytes_array m p = pmem m (phys_page p)"

definition set_bytes_array :: "PhysPageNum \<Rightarrow> page \<Rightarrow> machine \<Rightarrow> machine" where
  "set_bytes_array p bs m = m\<lparr>pmem := (pmem m)(phys_page p := bs)\<rparr>"

definition zero_page :: page where
  "zero_page = replicate 4096 0"

definition FrameTracker_new :: "PhysPageNum \<Rightarrow> machine \<Rightarrow> machine" where
  "FrameTracker_new p m = set_bytes_array p (map (\<lambda>_. 0) (get_bytes_array m p)) m"

definition frame_alloc :: "machine \<Rightarrow> PhysPageNum option \<times> machine" where
  "frame_alloc m =
     (case sfa_alloc (falloc m) of
        (None, fa) \<Rightarrow> (None, m\<lparr>falloc := fa\<rparr>)
      | (Some p, fa) \<Rightarrow> (Some p, FrameTracker_new p (m\<lparr>falloc := fa\<rparr>)))"

definition frame_dealloc :: "PhysPageNum \<Rightarrow> machine \<Rightarrow> machine res" where
  "frame_dealloc p m = rbind (sfa_dealloc p (falloc m)) (\<lambda>fa. Inr (m\<lparr>falloc := fa\<rparr>))"

definition frame_allocator_test :: "machine \<Rightarrow> machine res" where
  "frame_allocator_test m =
     rbind (alloc_many frame_alloc 5 m) (\<lambda>(v, m).
     rbind (drop_all frame_dealloc v m) (\<lambda>m.
     rbind (alloc_many frame_alloc 5 m) (\<lambda>(v, m).
     drop_all frame_dealloc v m)))"

section \<open>Invariant and frames in use\<close>

text \<open>
  \<open>l\<close> is the first page number given to \<open>init\<close>. Page numbers are 44 bits wide, so the
  mask of \<open>PhysPageNum::from\<close> loses nothing below \<open>2 ^ 44\<close>.
\<close>

definition fa_inv :: "usize \<Rightarrow> StackFrameAllocator \<Rightarrow> bool" where
  "fa_inv l st \<longleftrightarrow>
     l \<le> fa_current st \<and> fa_current st \<le> fa_end st \<and> unat (fa_end st) \<le> 2 ^ 44 \<and>
     distinct (fa_recycled st) \<and> (\<forall>p \<in> set (fa_recycled st). l \<le> p \<and> p < fa_current st)"

definition fa_live :: "usize \<Rightarrow> StackFrameAllocator \<Rightarrow> PhysPageNum set" where
  "fa_live l st =
     {p. l \<le> ppn_0 p \<and> ppn_0 p < fa_current st \<and> ppn_0 p \<notin> set (fa_recycled st)}"

definition fa_pool :: "usize \<Rightarrow> StackFrameAllocator \<Rightarrow> PhysPageNum set" where
  "fa_pool l st = {p. l \<le> ppn_0 p \<and> ppn_0 p < fa_end st}"

definition pages_ok :: "machine \<Rightarrow> bool" where
  "pages_ok m \<longleftrightarrow> (\<forall>p. length (pmem m p) = 4096)"

definition mach_inv :: "usize \<Rightarrow> machine \<Rightarrow> bool" where
  "mach_inv l m \<longleftrightarrow> fa_inv l (falloc m) \<and> pages_ok m"

definition mach_live :: "usize \<Rightarrow> machine \<Rightarrow> PhysPageNum set" where
  "mach_live l m = fa_live l (falloc m)"

section \<open>Correctness\<close>

lemma PhysPageNum_from_small [simp]:
  "unat v < 2 ^ 44 \<Longrightarrow> PhysPageNum_from v = PhysPageNum v"
  by (intro PhysPageNum.expand word_unat_eqI) simp

lemma fa_live_less: "fa_inv l st \<Longrightarrow> p \<in> fa_live l st \<Longrightarrow> unat (ppn_0 p) < 2 ^ 44"
  by (auto simp: fa_inv_def fa_live_def word_le_nat_alt word_less_nat_alt)

lemma sfa_alloc_cases:
  assumes "fa_inv l st"
  shows "sfa_alloc st = (None, st) \<and> fa_recycled st = [] \<and> fa_current st = fa_end st \<or>
    (\<exists>ps p. fa_recycled st = ps @ [p] \<and>
       sfa_alloc st = (Some (PhysPageNum p), st\<lparr>fa_recycled := ps\<rparr>)) \<or>
    fa_recycled st = [] \<and> fa_current st < fa_end st \<and>
       sfa_alloc st = (Some (PhysPageNum (fa_current st)), st\<lparr>fa_current := fa_current st + 1\<rparr>)"
proof (cases "fa_recycled st" rule: rev_cases)
  case Nil
  show ?thesis
  proof (cases "fa_current st = fa_end st")
    case True
    with Nil show ?thesis by (simp add: sfa_alloc_def vec_pop_def)
  next
    case False
    with assms have lt: "fa_current st < fa_end st"
      by (simp add: fa_inv_def order.not_eq_order_implies_strict)
    with assms have "unat (fa_current st) < 2 ^ 44" by (simp add: fa_inv_def word_less_nat_alt)
    with Nil False lt show ?thesis by (simp add: sfa_alloc_def vec_pop_def Let_def)
  qed
next
  case (snoc ps p)
  with assms have "unat p < 2 ^ 44"
    by (auto simp: fa_inv_def word_le_nat_alt word_less_nat_alt)
  with snoc show ?thesis by (auto simp: sfa_alloc_def vec_pop_def)
qed

lemma word_less_step: "(c :: usize) < e \<Longrightarrow> p < c + 1 \<longleftrightarrow> p < c \<or> p = c"
  by (auto simp: word_less_nat_alt unat_step less_Suc_eq dest: word_unat_eqI)

lemma sfa_alloc_Some:
  assumes inv: "fa_inv l st" and al: "sfa_alloc st = (Some p, st')"
  shows "p \<notin> fa_live l st" "l \<le> ppn_0 p" "fa_live l st' = insert p (fa_live l st)" "fa_inv l st'"
    "fa_end st' = fa_end st"
proof -
  consider ps q where "fa_recycled st = ps @ [q]" "p = PhysPageNum q" "st' = st\<lparr>fa_recycled := ps\<rparr>"
    | "fa_recycled st = []" "fa_current st < fa_end st" "p = PhysPageNum (fa_current st)"
      "st' = st\<lparr>fa_current := fa_current st + 1\<rparr>"
    using sfa_alloc_cases [OF inv] al by auto
  then have "p \<notin> fa_live l st \<and> l \<le> ppn_0 p \<and> fa_live l st' = insert p (fa_live l st) \<and>
    fa_inv l st' \<and> fa_end st' = fa_end st"
  proof cases
    case 1
    then have "fa_inv l st'" using inv by (auto simp: fa_inv_def)
    moreover have "fa_live l st' = insert p (fa_live l st)"
      using 1 inv by (auto simp: fa_inv_def fa_live_def PhysPageNum.expand)
    moreover have "l \<le> q" using 1 inv by (auto simp: fa_inv_def)
    ultimately show ?thesis using 1 by (auto simp: fa_live_def)
  next
    case 2
    from 2(2) have lt: "q < fa_current st + 1 \<longleftrightarrow> q < fa_current st \<or> q = fa_current st" for q
      by (rule word_less_step)
    have "l \<le> fa_current st" using inv by (simp add: fa_inv_def)
    have live: "fa_live l st' = insert p (fa_live l st)"
      unfolding fa_live_def using 2(1,3,4) \<open>l \<le> fa_current st\<close>
      by (auto simp: lt intro: PhysPageNum.expand)
    have "fa_current st \<le> fa_current st + 1" using lt [of "fa_current st"] by simp
    with \<open>l \<le> fa_current st\<close> have "l \<le> fa_current st + 1" by simp
    moreover have "fa_current st + 1 \<le> fa_end st" using 2(2) by (rule inc_le)
    ultimately have "fa_inv l st'" using 2(1,4) inv by (simp add: fa_inv_def)
    with live \<open>l \<le> fa_current st\<close> show ?thesis using 2 by (simp add: fa_live_def)
  qed
  then show "p \<notin> fa_live l st" "l \<le> ppn_0 p" "fa_live l st' = insert p (fa_live l st)" "fa_inv l st'"
    "fa_end st' = fa_end st" by auto
qed

lemma sfa_dealloc_eq:
  "sfa_dealloc p st =
     (if ppn_0 p < fa_current st \<and> ppn_0 p \<notin> set (fa_recycled st)
      then Inr (st\<lparr>fa_recycled := vec_push (fa_recycled st) (ppn_0 p)\<rparr>) else Inl Explicit_Panic)"
  by (auto simp: sfa_dealloc_def Let_def find_None_iff find_Some_iff in_set_conv_nth)

lemma sfa_dealloc_live:
  assumes "fa_inv l st" and "p \<in> fa_live l st"
  shows "\<exists>st'. sfa_dealloc p st = Inr st' \<and> fa_live l st' = fa_live l st - {p} \<and> fa_inv l st' \<and>
    fa_end st' = fa_end st"
proof -
  let ?st = "st\<lparr>fa_recycled := vec_push (fa_recycled st) (ppn_0 p)\<rparr>"
  from assms have "sfa_dealloc p st = Inr ?st" by (simp add: sfa_dealloc_eq fa_live_def)
  moreover have "fa_inv l ?st" using assms by (auto simp: fa_inv_def fa_live_def)
  moreover have "fa_live l ?st = fa_live l st - {p}"
    by (auto simp: fa_live_def intro: PhysPageNum.expand)
  ultimately show ?thesis by simp
qed

lemma finite_ppns: "finite (A :: PhysPageNum set)"
proof -
  have "finite (range PhysPageNum)" by simp
  moreover have "A \<subseteq> range PhysPageNum"
    by (auto simp: image_iff) (metis PhysPageNum.collapse)
  ultimately show ?thesis by (rule finite_subset [rotated])
qed

lemma fa_live_pool: "fa_inv l st \<Longrightarrow> fa_live l st \<subseteq> fa_pool l st"
  by (auto simp: fa_inv_def fa_live_def fa_pool_def)

lemma sfa_alloc_None_iff:
  assumes "fa_inv l st"
  shows "fst (sfa_alloc st) = None \<longleftrightarrow> fa_live l st = fa_pool l st"
proof
  assume "fst (sfa_alloc st) = None"
  with sfa_alloc_cases [OF assms] have "fa_recycled st = []" "fa_current st = fa_end st" by auto
  then show "fa_live l st = fa_pool l st" by (simp add: fa_live_def fa_pool_def)
next
  assume eq: "fa_live l st = fa_pool l st"
  show "fst (sfa_alloc st) = None"
  proof (cases "sfa_alloc st")
    case (Pair r st')
    show ?thesis
    proof (cases r)
      case (Some p)
      with Pair have al: "sfa_alloc st = (Some p, st')" by simp
      have "p \<in> fa_pool l st'"
        using sfa_alloc_Some(3,4) [OF assms al] fa_live_pool [of l st'] by auto
      then have "p \<in> fa_pool l st"
        using sfa_alloc_Some(5) [OF assms al] by (simp add: fa_pool_def)
      with eq sfa_alloc_Some(1) [OF assms al] show ?thesis by simp
    qed (simp add: Pair)
  qed
qed

section \<open>Memory-level operations\<close>

lemma phys_page_small [simp]: "unat (ppn_0 p) < 2 ^ 52 \<Longrightarrow> phys_page p = ppn_0 p"
  by (intro word_unat_eqI) (simp add: phys_page_def unat_div, simp add: PAGE_SIZE_def)

lemma pages_ok_set [simp]:
  "pages_ok m \<Longrightarrow> length bs = 4096 \<Longrightarrow> pages_ok (set_bytes_array p bs m)"
  by (simp add: pages_ok_def set_bytes_array_def)

lemma length_get_bytes_array [simp]: "pages_ok m \<Longrightarrow> length (get_bytes_array m p) = 4096"
  by (simp add: pages_ok_def get_bytes_array_def)

lemma falloc_set_bytes_array [simp, frame_simps]: "falloc (set_bytes_array p bs m) = falloc m"
  by (simp add: set_bytes_array_def)

lemma FrameTracker_new_eq: "pages_ok m \<Longrightarrow> FrameTracker_new p m = set_bytes_array p zero_page m"
  by (simp add: FrameTracker_new_def zero_page_def map_replicate_const)

lemma length_zero_page [simp]: "length zero_page = 4096"
  by (simp add: zero_page_def)

lemma frame_alloc_Some:
  assumes inv: "mach_inv l m" and al: "frame_alloc m = (Some p, m')"
  shows "p \<notin> mach_live l m" "l \<le> ppn_0 p" "mach_live l m' = insert p (mach_live l m)"
    "mach_inv l m'" "fa_end (falloc m') = fa_end (falloc m)"
    "pmem m' = (pmem m)(ppn_0 p := zero_page)" "unat (ppn_0 p) < 2 ^ 44"
proof -
  from al obtain fa where sfa: "sfa_alloc (falloc m) = (Some p, fa)"
    and m': "m' = FrameTracker_new p (m\<lparr>falloc := fa\<rparr>)"
    by (auto simp: frame_alloc_def split: prod.splits option.splits)
  have ok: "pages_ok m" and fai: "fa_inv l (falloc m)" using inv by (simp_all add: mach_inv_def)
  have "pages_ok (m\<lparr>falloc := fa\<rparr>)" using ok by (simp add: pages_ok_def)
  then have m'': "m' = set_bytes_array p zero_page (m\<lparr>falloc := fa\<rparr>)"
    and ok': "pages_ok m'" by (simp_all add: m' FrameTracker_new_eq)
  note fa = sfa_alloc_Some [OF fai sfa]
  then show "p \<notin> mach_live l m" "l \<le> ppn_0 p" "mach_live l m' = insert p (mach_live l m)"
    "mach_inv l m'" "fa_end (falloc m') = fa_end (falloc m)"
    using ok' by (simp_all add: mach_live_def mach_inv_def m'')
  show small: "unat (ppn_0 p) < 2 ^ 44"
    using fa_live_less [OF fa(4), of p] fa(3) by simp
  then show "pmem m' = (pmem m)(ppn_0 p := zero_page)"
    by (simp add: m'' set_bytes_array_def)
qed

lemma frame_alloc_None: "mach_inv l m \<Longrightarrow> frame_alloc m = (None, m') \<Longrightarrow> m' = m"
  using sfa_alloc_cases [of l "falloc m"]
  by (auto simp: frame_alloc_def mach_inv_def split: prod.splits option.splits)

lemma frame_dealloc_live:
  assumes "mach_inv l m" and "p \<in> mach_live l m"
  shows "\<exists>m'. frame_dealloc p m = Inr m' \<and> mach_live l m' = mach_live l m - {p} \<and> mach_inv l m' \<and>
    fa_end (falloc m') = fa_end (falloc m) \<and> pmem m' = pmem m"
  using sfa_dealloc_live [of l "falloc m" p] assms
  by (auto simp: frame_dealloc_def mach_inv_def mach_live_def pages_ok_def)

lemma frame_dealloc_dead:
  assumes "mach_inv l m" and "l \<le> ppn_0 p" and "p \<notin> mach_live l m"
  shows "frame_dealloc p m = Inl Explicit_Panic"
  using assms by (auto simp: frame_dealloc_def mach_live_def fa_live_def sfa_dealloc_eq)

lemma frame_alloc_fst: "fst (frame_alloc m) = fst (sfa_alloc (falloc m))"
  by (simp add: frame_alloc_def split: prod.splits option.splits)

interpretation frames: bounded_id_allocator frame_alloc frame_dealloc "mach_live l"
  "\<lambda>m. mach_inv l m \<and> fa_end (falloc m) = e" "\<lambda>m. True" "{p. l \<le> ppn_0 p}"
  "{p. l \<le> ppn_0 p \<and> ppn_0 p < e}" for l e
proof unfold_locales
  fix m p m'
  assume inv: "mach_inv l m \<and> fa_end (falloc m) = e"
  then have fai: "fa_inv l (falloc m)" by (simp add: mach_inv_def)
  show "frame_alloc m = (Some p, m') \<Longrightarrow>
      p \<notin> mach_live l m \<and> p \<in> {p. l \<le> ppn_0 p} \<and> mach_live l m' = insert p (mach_live l m) \<and>
      mach_inv l m' \<and> fa_end (falloc m') = e"
    using inv frame_alloc_Some [of l m p m'] by simp
  show "p \<in> mach_live l m \<Longrightarrow> \<exists>s'. frame_dealloc p m = Inr s' \<and>
      mach_live l s' = mach_live l m - {p} \<and> mach_inv l s' \<and> fa_end (falloc s') = e"
    using inv frame_dealloc_live [of l m p] by auto
  show "p \<in> {p. l \<le> ppn_0 p} \<Longrightarrow> p \<notin> mach_live l m \<Longrightarrow> \<exists>e. frame_dealloc p m = Inl e"
    using inv frame_dealloc_dead [of l m p] by auto
  show "mach_live l m \<subseteq> {p. l \<le> ppn_0 p \<and> ppn_0 p < e}"
    using inv fa_live_pool [OF fai] by (simp add: mach_live_def fa_pool_def)
  show "frame_alloc m = (None, m') \<Longrightarrow> mach_live l m = {p. l \<le> ppn_0 p \<and> ppn_0 p < e}"
    using inv sfa_alloc_None_iff [OF fai] frame_alloc_fst [of m]
    by (simp add: mach_live_def fa_pool_def)
qed (simp_all add: finite_ppns)

section \<open>Properties of the frame allocator\<close>

text \<open>
  C10: \<open>frame_alloc\<close> hands out a frame that is not in use, marks exactly that frame as in use,
  clears its 4096 bytes, changes no other physical page and keeps the allocator invariant.
\<close>

theorem frame_alloc_fresh_and_zeroed:
  assumes "mach_inv l m" and "frame_alloc m = (Some p, m')"
  shows "p \<notin> mach_live l m \<and> mach_live l m' = insert p (mach_live l m) \<and> mach_inv l m' \<and>
    get_bytes_array m' p = replicate 4096 0 \<and> (\<forall>q. q \<noteq> ppn_0 p \<longrightarrow> pmem m' q = pmem m q)"
  using frame_alloc_Some [OF assms] by (simp add: get_bytes_array_def zero_page_def)

definition sample_machine :: machine where
  "sample_machine =
     \<lparr>pmem = (\<lambda>_. replicate 4096 7), falloc = \<lparr>fa_current = 2, fa_end = 9, fa_recycled = [1]\<rparr>\<rparr>"

lemma sample_machine_inv: "mach_inv 1 sample_machine"
  by (simp add: mach_inv_def sample_machine_def fa_inv_def pages_ok_def)

theorem frame_alloc_fresh_and_zeroed_witness:
  "mach_inv 1 sample_machine \<and> fst (frame_alloc sample_machine) = Some (PhysPageNum 1) \<and>
   PhysPageNum 1 \<notin> mach_live 1 sample_machine \<and>
   get_bytes_array (snd (frame_alloc sample_machine)) (PhysPageNum 1) = replicate 4096 0"
proof -
  have al: "fst (frame_alloc sample_machine) = Some (PhysPageNum 1)"
    by (simp add: frame_alloc_fst sample_machine_def sfa_alloc_def vec_pop_def)
  then have "frame_alloc sample_machine = (Some (PhysPageNum 1), snd (frame_alloc sample_machine))"
    by (metis prod.collapse)
  from frame_alloc_fresh_and_zeroed [OF sample_machine_inv this] al sample_machine_inv
  show ?thesis by simp
qed

text \<open>
  C11: \<open>frame_dealloc\<close> accepts a frame of the managed range exactly when it is in use; it then
  releases that frame only, and releasing it a second time panics.
\<close>

theorem frame_dealloc_exact:
  assumes "mach_inv l m" and "l \<le> ppn_0 p"
  shows "(p \<in> mach_live l m \<longrightarrow>
      (\<exists>m'. frame_dealloc p m = Inr m' \<and> mach_live l m' = mach_live l m - {p} \<and> mach_inv l m' \<and>
        pmem m' = pmem m \<and> frame_dealloc p m' = Inl Explicit_Panic)) \<and>
    (p \<notin> mach_live l m \<longrightarrow> frame_dealloc p m = Inl Explicit_Panic)"
  using frame_dealloc_live [OF assms(1)] frame_dealloc_dead [OF assms] frame_dealloc_dead [OF _ assms(2)]
  by fastforce

theorem frame_dealloc_exact_witness:
  "mach_inv 1 sample_machine \<and>
   frame_dealloc (PhysPageNum 1) sample_machine = Inl Explicit_Panic"
proof -
  have "PhysPageNum 1 \<notin> mach_live 1 sample_machine"
    by (simp add: mach_live_def fa_live_def sample_machine_def)
  with frame_dealloc_exact [OF sample_machine_inv, of "PhysPageNum 1"] sample_machine_inv
  show ?thesis by simp
qed

text \<open>
  After \<open>init_frame_allocator\<close> on a fresh allocator, the frames that can be handed out
  are exactly the whole pages between the end of the kernel image and \<open>MEMORY_END\<close>: the
  invariant holds, none is in use, and \<open>frame_alloc\<close> returns \<open>None\<close> only when all are.
\<close>

definition boot_frames :: "usize \<Rightarrow> PhysPageNum set" where
  "boot_frames ekernel =
     {p. unat ekernel \<le> unat (ppn_0 p) * 4096 \<and> unat (ppn_0 p) * 4096 + 4096 \<le> unat MEMORY_END}"

theorem init_frame_allocator_pool:
  assumes "ekernel \<le> MEMORY_END"
  shows "\<exists>l. fa_inv l (init_frame_allocator ekernel sfa_new) \<and>
    fa_live l (init_frame_allocator ekernel sfa_new) = {} \<and>
    fa_pool l (init_frame_allocator ekernel sfa_new) = boot_frames ekernel \<and>
    (\<forall>st. fa_inv l st \<longrightarrow> fa_end st = fa_end (init_frame_allocator ekernel sfa_new) \<longrightarrow>
      (fst (sfa_alloc st) = None \<longleftrightarrow> fa_live l st = boot_frames ekernel))"
proof -
  let ?st = "init_frame_allocator ekernel sfa_new"
  let ?l = "ppn_0 (pa_ceil (PhysAddr_from ekernel))"
  have e: "unat ekernel \<le> 0x80800000"
    using assms by (simp add: word_le_nat_alt MEMORY_END_def)
  then have l: "unat ?l = (unat ekernel + 4095) div 4096" by simp
  have end_eq: "fa_end ?st = 0x80800"
    by (simp add: init_frame_allocator_def sfa_init_def pa_floor_def PhysAddr_from_def config_defs
        take_bit_eq_mod)
  have cur: "fa_current ?st = ?l" by (simp add: init_frame_allocator_def sfa_init_def)
  have rec: "fa_recycled ?st = []" by (simp add: init_frame_allocator_def sfa_init_def sfa_new_def)
  have "fa_inv ?l ?st" using e by (simp add: fa_inv_def cur rec end_eq word_le_nat_alt l)
  moreover have "fa_live ?l ?st = {}" by (auto simp: fa_live_def cur)
  moreover have pool: "fa_pool ?l st = boot_frames ekernel" if "fa_end st = fa_end ?st" for st
    unfolding fa_pool_def boot_frames_def MEMORY_END_def
    by (auto simp: that end_eq word_le_nat_alt word_less_nat_alt l)
  ultimately show ?thesis using sfa_alloc_None_iff by metis
qed

theorem init_frame_allocator_pool_witness:
  "\<exists>l. fa_inv l (init_frame_allocator 0x80400000 sfa_new) \<and>
     fa_live l (init_frame_allocator 0x80400000 sfa_new) = {} \<and>
     PhysPageNum 0x80400 \<in> fa_pool l (init_frame_allocator 0x80400000 sfa_new)"
proof -
  have h: "(0x80400000 :: usize) \<le> MEMORY_END" by (simp add: MEMORY_END_def)
  have "PhysPageNum 0x80400 \<in> boot_frames 0x80400000"
    by (simp add: boot_frames_def MEMORY_END_def)
  with init_frame_allocator_pool [OF h] show ?thesis by auto
qed

text \<open>
  the boot-time self test \<open>frame_allocator_test\<close> passes whenever five frames are free, and
  leaves the set of frames in use as it was.
\<close>

theorem frame_allocator_test_passes:
  assumes "mach_inv l m"
    and "5 \<le> card ({p. l \<le> ppn_0 p \<and> ppn_0 p < fa_end (falloc m)} - mach_live l m)"
  shows "\<exists>m'. frame_allocator_test m = Inr m' \<and> mach_live l m' = mach_live l m \<and> mach_inv l m'"
proof -
  let ?e = "fa_end (falloc m)"
  have round: "\<exists>v s' s''. alloc_many frame_alloc 5 s = Inr (v, s') \<and>
      drop_all frame_dealloc v s' = Inr s'' \<and> mach_live l s'' = mach_live l s \<and>
      mach_inv l s'' \<and> fa_end (falloc s'') = ?e"
    if "mach_inv l s \<and> fa_end (falloc s) = ?e" and "mach_live l s = mach_live l m" for s
    using frames.alloc_many_total [OF that(1), of 5] frames.alloc_many_drop_all [OF _ that(1), of 5]
      assms(2) that(2) by fastforce
  from round [of m] assms(1) obtain v a b where 1: "alloc_many frame_alloc 5 m = Inr (v, a)"
    "drop_all frame_dealloc v a = Inr b" "mach_live l b = mach_live l m" "mach_inv l b"
    "fa_end (falloc b) = ?e" by auto
  from round [of b] 1 obtain w c d where 2: "alloc_many frame_alloc 5 b = Inr (w, c)"
    "drop_all frame_dealloc w c = Inr d" "mach_live l d = mach_live l b" "mach_inv l d" by auto
  from 1 2 show ?thesis unfolding frame_allocator_test_def by simp
qed

theorem frame_allocator_test_passes_witness:
  "\<exists>m'. frame_allocator_test sample_machine = Inr m' \<and> mach_inv 1 m' \<and>
     mach_live 1 m' = mach_live 1 sample_machine"
proof -
  let ?A = "{p. (1 :: usize) \<le> ppn_0 p \<and> ppn_0 p < fa_end (falloc sample_machine)} -
    mach_live 1 sample_machine"
  have "PhysPageNum ` {3, 4, 5, 6, 7} \<subseteq> ?A"
    by (auto simp: sample_machine_def mach_live_def fa_live_def)
  then have "card (PhysPageNum ` {3, 4, 5, 6, 7}) \<le> card ?A"
    by (rule card_mono [OF finite_ppns])
  then have "5 \<le> card ?A" by (simp add: card_image inj_on_def)
  from frame_allocator_test_passes [OF sample_machine_inv this] show ?thesis by auto
qed

end
