(* ===== verification/Page_Table.thy ===== *)
theory Page_Table
  imports Frame_Allocator
begin

text \<open>
  The SV39 page table (\<open>os/src/memory/page_table.rs\<close>) over physical memory. A node of the
  table is a physical page read as 512 entries of 8 bytes; a \<open>&mut PageTableEntry\<close> is the
  pair of the node's page number and the index in it. A \<open>PageTable\<close> value owns the frames of
  its nodes. The theory shows that the three-level walk implements a finite map from virtual
  page numbers to entries.
\<close>

unbundle bit_operations_syntax

section \<open>Page table entries\<close>

type_synonym PTEFlags = u8

definition PTE_V :: PTEFlags where "PTE_V = push_bit 0 1"
definition PTE_R :: PTEFlags where "PTE_R = push_bit 1 1"
definition PTE_W :: PTEFlags where "PTE_W = push_bit 2 1"
definition PTE_X :: PTEFlags where "PTE_X = push_bit 3 1"
definition PTE_U :: PTEFlags where "PTE_U = push_bit 4 1"
definition PTE_G :: PTEFlags where "PTE_G = push_bit 5 1"
definition PTE_A :: PTEFlags where "PTE_A = push_bit 6 1"
definition PTE_D :: PTEFlags where "PTE_D = push_bit 7 1"

lemmas pte_flag_defs =
  PTE_V_def PTE_R_def PTE_W_def PTE_X_def PTE_U_def PTE_G_def PTE_A_def PTE_D_def

definition PTEFlags_all :: PTEFlags where
  "PTEFlags_all = PTE_V OR PTE_R OR PTE_W OR PTE_X OR PTE_U OR PTE_G OR PTE_A OR PTE_D"

definition PTEFlags_from_bits :: "u8 \<Rightarrow> PTEFlags option" where
  "PTEFlags_from_bits b = (if b AND NOT PTEFlags_all = 0 then Some b else None)"

text \<open>All eight bits are named, so \<open>PTEFlags::from_bits\<close> never fails.\<close>

lemma PTEFlags_from_bits_Some [simp]: "PTEFlags_from_bits b = Some b"
proof -
  have all: "PTEFlags_all = 255"
    by (simp add: PTEFlags_all_def pte_flag_defs push_bit_of_1)
  have "NOT PTEFlags_all = 0" unfolding all by simp
  then show ?thesis by (simp add: PTEFlags_from_bits_def)
qed

record PageTableEntry =
  pte_bits :: usize

definition pte_new :: "PhysPageNum \<Rightarrow> PTEFlags \<Rightarrow> PageTableEntry" where
  "pte_new p flags = \<lparr>pte_bits = push_bit 10 (ppn_0 p) OR ucast flags\<rparr>"

definition pte_empty :: PageTableEntry where
  "pte_empty = \<lparr>pte_bits = 0\<rparr>"

definition pte_ppn :: "PageTableEntry \<Rightarrow> PhysPageNum" where
  "pte_ppn e = PhysPageNum_from (drop_bit 10 (pte_bits e) AND (push_bit 44 1 - 1))"

text \<open>\<open>PTEFlags::from_bits(self.bits as u8).unwrap()\<close>; see \<open>PTEFlags_from_bits_Some\<close>.\<close>

definition pte_flags :: "PageTableEntry \<Rightarrow> PTEFlags" where
  "pte_flags e = ucast (pte_bits e)"

definition pte_is_valid :: "PageTableEntry \<Rightarrow> bool" where
  "pte_is_valid e \<longleftrightarrow> pte_flags e AND PTE_V \<noteq> 0"

definition pte_readable :: "PageTableEntry \<Rightarrow> bool" where
  "pte_readable e \<longleftrightarrow> pte_flags e AND PTE_R \<noteq> 0"

definition pte_writable :: "PageTableEntry \<Rightarrow> bool" where
  "pte_writable e \<longleftrightarrow> pte_flags e AND PTE_W \<noteq> 0"

definition pte_executable :: "PageTableEntry \<Rightarrow> bool" where
  "pte_executable e \<longleftrightarrow> pte_flags e AND PTE_X \<noteq> 0"

section \<open>Nodes in physical memory\<close>

text \<open>\<open>get_pte_array()[idx]\<close>, read and written in place.\<close>

definition read_pte :: "machine \<Rightarrow> PhysPageNum \<Rightarrow> nat \<Rightarrow> PageTableEntry" where
  "read_pte m p idx = \<lparr>pte_bits = of_nat (read_u 8 (get_bytes_array m p) idx)\<rparr>"

definition write_pte :: "PhysPageNum \<Rightarrow> nat \<Rightarrow> PageTableEntry \<Rightarrow> machine \<Rightarrow> machine" where
  "write_pte p idx e m =
     set_bytes_array p (write_u 8 (get_bytes_array m p) idx (unat (pte_bits e))) m"

record PageTable =
  root_ppn :: PhysPageNum
  pt_frames :: "PhysPageNum list"

definition pt_new :: "machine \<Rightarrow> (PageTable \<times> machine) res" where
  "pt_new m =
     (case frame_alloc m of
        (None, m) \<Rightarrow> Inl Unwrap_None
      | (Some frame, m) \<Rightarrow> Inr (\<lparr>root_ppn = frame, pt_frames = [frame]\<rparr>, m))"

fun find_pte_create_loop ::
  "nat \<Rightarrow> usize list \<Rightarrow> PhysPageNum \<Rightarrow> PageTable \<Rightarrow> machine \<Rightarrow>
   ((PhysPageNum \<times> nat) option \<times> PageTable \<times> machine) res" where
  "find_pte_create_loop i [] ppn pt m = Inr (None, pt, m)"
| "find_pte_create_loop i (idx # idxs) ppn pt m =
     (let pte = read_pte m ppn (unat idx)
      in if i = 2 then Inr (Some (ppn, unat idx), pt, m)
         else if \<not> pte_is_valid pte then
           (case frame_alloc m of
              (None, m) \<Rightarrow> Inl Unwrap_None
            | (Some frame, m) \<Rightarrow>
                let pte = pte_new frame PTE_V;
                    m = write_pte ppn (unat idx) pte m;
                    pt = pt\<lparr>pt_frames := vec_push (pt_frames pt) frame\<rparr>
                in find_pte_create_loop (Suc i) idxs (pte_ppn pte) pt m)
         else find_pte_create_loop (Suc i) idxs (pte_ppn pte) pt m)"

definition find_pte_create ::
  "PageTable \<Rightarrow> VirtPageNum \<Rightarrow> machine \<Rightarrow>
   ((PhysPageNum \<times> nat) option \<times> PageTable \<times> machine) res" where
  "find_pte_create pt vpn m = find_pte_create_loop 0 (indexes vpn) (root_ppn pt) pt m"

fun find_pte_loop :: "machine \<Rightarrow> nat \<Rightarrow> usize list \<Rightarrow> PhysPageNum \<Rightarrow> (PhysPageNum \<times> nat) option" where
  "find_pte_loop m i [] ppn = None"
| "find_pte_loop m i (idx # idxs) ppn =
     (let pte = read_pte m ppn (unat idx)
      in if i = 2 then Some (ppn, unat idx)
         else if \<not> pte_is_valid pte then None
         else find_pte_loop m (Suc i) idxs (pte_ppn pte))"

definition find_pte :: "machine \<Rightarrow> PageTable \<Rightarrow> VirtPageNum \<Rightarrow> (PhysPageNum \<times> nat) option" where
  "find_pte m pt vpn = find_pte_loop m 0 (indexes vpn) (root_ppn pt)"

definition pt_map ::
  "VirtPageNum \<Rightarrow> PhysPageNum \<Rightarrow> PTEFlags \<Rightarrow> PageTable \<times> machine \<Rightarrow> (PageTable \<times> machine) res" where
  "pt_map vpn ppn flags = (\<lambda>(pt, m).
     rbind (find_pte_create pt vpn m) (\<lambda>(loc, pt, m).
     rbind (runwrap loc) (\<lambda>(p, idx).
     rbind (rassert (\<not> pte_is_valid (read_pte m p idx))) (\<lambda>_.
     Inr (pt, write_pte p idx (pte_new ppn (flags OR PTE_V)) m)))))"

definition pt_unmap :: "VirtPageNum \<Rightarrow> PageTable \<times> machine \<Rightarrow> (PageTable \<times> machine) res" where
  "pt_unmap vpn = (\<lambda>(pt, m).
     rbind (runwrap (find_pte m pt vpn)) (\<lambda>(p, idx).
     rbind (rassert (pte_is_valid (read_pte m p idx))) (\<lambda>_.
     Inr (pt, write_pte p idx pte_empty m))))"

definition from_token :: "usize \<Rightarrow> PageTable" where
  "from_token satp =
     \<lparr>root_ppn = PhysPageNum_from (satp AND (push_bit 44 1 - 1)), pt_frames = []\<rparr>"

definition pt_translate :: "machine \<Rightarrow> PageTable \<Rightarrow> VirtPageNum \<Rightarrow> PageTableEntry option" where
  "pt_translate m pt vpn = map_option (\<lambda>(p, idx). read_pte m p idx) (find_pte m pt vpn)"

definition pt_translate_va :: "machine \<Rightarrow> PageTable \<Rightarrow> VirtAddr \<Rightarrow> PhysAddr option" where
  "pt_translate_va m pt va =
     map_option (\<lambda>(p, idx).
       let aligned_pa = pa_of_ppn (pte_ppn (read_pte m p idx));
           off = va_page_offset va
       in PhysAddr_from (pa_0 aligned_pa + off)) (find_pte m pt (va_floor va))"

definition pt_token :: "PageTable \<Rightarrow> usize" where
  "pt_token pt = push_bit 60 8 OR ppn_0 (root_ppn pt)"

section \<open>Entries\<close>

lemma pte_flags_new [simp]: "pte_flags (pte_new p f) = f"
  unfolding pte_flags_def pte_new_def
  by (auto intro!: bit_word_eqI simp: bit_simps)

lemma u8_high: "8 \<le> n \<Longrightarrow> \<not> bit (w :: u8) n"
  using bit_imp_le_length [of w n] by auto

lemma pte_ppn_new [simp]: "unat (ppn_0 p) < 2 ^ 44 \<Longrightarrow> pte_ppn (pte_new p f) = p"
proof (intro PhysPageNum.expand word_unat_eqI)
  assume lt: "unat (ppn_0 p) < 2 ^ 44"
  have "drop_bit 10 (push_bit 10 (ppn_0 p) OR ucast f) = take_bit 54 (ppn_0 p)"
    by (auto intro!: bit_word_eqI simp: bit_simps u8_high)
  moreover have "take_bit 54 (ppn_0 p) = ppn_0 p"
    using lt by (intro word_unat_eqI) (simp add: unat_take_bit)
  ultimately have "pte_ppn (pte_new p f) = PhysPageNum_from (take_bit 44 (ppn_0 p))"
    by (simp only: pte_ppn_def pte_new_def PageTableEntry.simps low_bits_and [unfolded low_bits_def])
  with lt show "unat (ppn_0 (pte_ppn (pte_new p f))) = unat (ppn_0 p)"
    by (simp add: unat_take_bit)
qed

lemma pte_empty_invalid [simp]: "\<not> pte_is_valid pte_empty"
  by (simp add: pte_is_valid_def pte_flags_def pte_empty_def)

lemma pte_new_valid [simp]: "pte_is_valid (pte_new p (f OR PTE_V))" "pte_is_valid (pte_new p PTE_V)"
  by (simp_all add: pte_is_valid_def PTE_V_def bit.conj_disj_distrib2)

section \<open>Reading and writing nodes\<close>

lemma small_page: "unat (ppn_0 p) < 2 ^ 44 \<Longrightarrow> phys_page p = ppn_0 p"
  by simp

lemma of_nat_unat_mod [simp]: "word_of_nat (unat (w :: usize) mod 18446744073709551616) = w"
  using unat_usize_less [of w] by simp

lemma read_write_pte:
  assumes "pages_ok m" and "unat (ppn_0 p) < 2 ^ 44" and "unat (ppn_0 x) < 2 ^ 44"
    and "i < 512" and "j < 512"
  shows "read_pte (write_pte x i e m) p j = (if p = x \<and> j = i then e else read_pte m p j)"
proof (cases "p = x")
  case True
  have "length (get_bytes_array m x) = 4096" using assms(1) by simp
  then have "read_u 8 (write_u 8 (get_bytes_array m x) i (unat (pte_bits e))) j =
      (if i = j then unat (pte_bits e) mod 256 ^ 8 else read_u 8 (get_bytes_array m x) j)"
    using assms(4,5) by (intro read_write_u) simp_all
  with True show ?thesis
    by (simp add: read_pte_def write_pte_def get_bytes_array_def set_bytes_array_def)
next
  case False
  then have "phys_page p \<noteq> phys_page x"
    using assms(2,3) by (auto dest: PhysPageNum.expand)
  with False show ?thesis
    by (simp add: read_pte_def write_pte_def get_bytes_array_def set_bytes_array_def)
qed

lemma pages_ok_write_pte [simp]: "pages_ok m \<Longrightarrow> i < 512 \<Longrightarrow> pages_ok (write_pte x i e m)"
  by (simp add: write_pte_def)

lemma falloc_write_pte [simp, frame_simps]: "falloc (write_pte x i e m) = falloc m"
  by (simp add: write_pte_def)

lemma pmem_write_pte:
  "unat (ppn_0 x) < 2 ^ 44 \<Longrightarrow> q \<noteq> ppn_0 x \<Longrightarrow> pmem (write_pte x i e m) q = pmem m q"
  by (simp add: write_pte_def set_bytes_array_def)

lemma read_pte_cong: "pmem m' (phys_page p) = pmem m (phys_page p) \<Longrightarrow> read_pte m' p j = read_pte m p j"
  by (simp add: read_pte_def get_bytes_array_def)

lemma read_pte_zero: "pmem m (phys_page p) = zero_page \<Longrightarrow> read_pte m p j = pte_empty"
  by (simp add: read_pte_def get_bytes_array_def zero_page_def pte_empty_def)

section \<open>The table as a tree of nodes\<close>

fun walk :: "machine \<Rightarrow> PhysPageNum \<Rightarrow> nat list \<Rightarrow> PhysPageNum option" where
  "walk m r [] = Some r"
| "walk m r (i # is) =
     (let e = read_pte m r i in if pte_is_valid e then walk m (pte_ppn e) is else None)"

lemma walk_append:
  "walk m r (p @ q) = (case walk m r p of None \<Rightarrow> None | Some y \<Rightarrow> walk m y q)"
  by (induction p arbitrary: r) (simp_all add: Let_def)

lemma walk_snoc:
  "walk m r (p @ [i]) =
     (case walk m r p of None \<Rightarrow> None
      | Some y \<Rightarrow> if pte_is_valid (read_pte m y i) then Some (pte_ppn (read_pte m y i)) else None)"
  by (simp add: walk_append Let_def split: option.splits)

definition node_path :: "nat list \<Rightarrow> bool" where
  "node_path p \<longleftrightarrow> length p \<le> 2 \<and> (\<forall>i \<in> set p. i < 512)"

lemma node_path_snocD: "node_path (p @ [i]) \<Longrightarrow> node_path p \<and> i < 512 \<and> length p \<le> 1"
  by (auto simp: node_path_def)

text \<open>
  Well-formedness: every node reachable within the first two levels is one of the owned
  frames, and no node is reached along two different paths.
\<close>

definition pt_wf :: "machine \<Rightarrow> PageTable \<Rightarrow> bool" where
  "pt_wf m pt \<longleftrightarrow>
     distinct (pt_frames pt) \<and>
     (\<forall>p x. node_path p \<longrightarrow> walk m (root_ppn pt) p = Some x \<longrightarrow> x \<in> set (pt_frames pt)) \<and>
     (\<forall>p q x. node_path p \<longrightarrow> node_path q \<longrightarrow>
        walk m (root_ppn pt) p = Some x \<longrightarrow> walk m (root_ppn pt) q = Some x \<longrightarrow> p = q)"

fun pt_ok :: "usize \<Rightarrow> PageTable \<times> machine \<Rightarrow> bool" where
  "pt_ok l (pt, m) \<longleftrightarrow> mach_inv l m \<and> pt_wf m pt \<and> set (pt_frames pt) \<subseteq> mach_live l m"

text \<open>The finite map a table denotes: valid leaf entries only.\<close>

definition vdir :: "VirtPageNum \<Rightarrow> nat list" where "vdir v = map unat (take 2 (indexes v))"
definition vleaf :: "VirtPageNum \<Rightarrow> nat" where "vleaf v = unat (indexes v ! 2)"

fun pt_lookup :: "PageTable \<times> machine \<Rightarrow> VirtPageNum \<Rightarrow> PageTableEntry option" where
  "pt_lookup (pt, m) v =
     (case walk m (root_ppn pt) (vdir v) of
        None \<Rightarrow> None
      | Some y \<Rightarrow> let e = read_pte m y (vleaf v) in if pte_is_valid e then Some e else None)"

lemma pt_wfD:
  assumes "pt_wf m pt" and "node_path p" and "walk m (root_ppn pt) p = Some x"
  shows "x \<in> set (pt_frames pt)"
    and "node_path q \<Longrightarrow> walk m (root_ppn pt) q = Some x \<Longrightarrow> p = q"
  using assms unfolding pt_wf_def by blast+

lemma pt_frame_small:
  "pt_ok l (pt, m) \<Longrightarrow> x \<in> set (pt_frames pt) \<Longrightarrow> unat (ppn_0 x) < 2 ^ 44"
  using fa_live_less [of l "falloc m" x] by (auto simp: mach_inv_def mach_live_def)

lemma vdir_unat: "vdir v = [unat (vpn_0 v) div 2 ^ 18 mod 512, unat (vpn_0 v) div 512 mod 512]"
  and vleaf_unat: "vleaf v = unat (vpn_0 v) mod 512"
proof -
  have *: "indexes v = [a, b, c] \<Longrightarrow> vdir v = [unat a, unat b] \<and> vleaf v = unat c" for a b c
    by (simp add: vdir_def vleaf_def)
  show "vdir v = [unat (vpn_0 v) div 2 ^ 18 mod 512, unat (vpn_0 v) div 512 mod 512]"
    "vleaf v = unat (vpn_0 v) mod 512"
    using * [OF indexes_eq] unat_indexes [of v] unfolding indexes_eq by simp_all
qed

lemma vdir_path [simp]: "node_path (vdir v)" "length (vdir v) = 2"
  and vleaf_less [simp]: "vleaf v < 512"
  by (simp_all add: vdir_unat vleaf_unat node_path_def)

lemma vdir_vleaf_inj:
  assumes "unat (vpn_0 v) < 2 ^ 27" "unat (vpn_0 w) < 2 ^ 27" "vdir v = vdir w" "vleaf v = vleaf w"
  shows "v = w"
proof -
  from assms(3,4) have "unat (vpn_0 v) = unat (vpn_0 w)"
    using split_vpn [OF assms(1)] split_vpn [OF assms(2)] by (simp only: vdir_unat vleaf_unat) simp
  then show ?thesis by (intro VirtPageNum.expand word_unat_eqI)
qed

lemma indexes_vdir_vleaf: "\<exists>a b c. indexes v = [a, b, c] \<and> vdir v = [unat a, unat b] \<and> vleaf v = unat c"
  by (simp add: indexes_eq vdir_def vleaf_def)

lemma find_pte_walk:
  "find_pte m pt v = map_option (\<lambda>y. (y, vleaf v)) (walk m (root_ppn pt) (vdir v))"
proof -
  obtain a b c where "indexes v = [a, b, c]" "vdir v = [unat a, unat b]" "vleaf v = unat c"
    using indexes_vdir_vleaf by blast
  then show ?thesis by (simp add: find_pte_def Let_def)
qed

section \<open>Writing a leaf entry\<close>

lemma walk_write_leaf:
  assumes ok: "pt_ok l (pt, m)" and x: "walk m (root_ppn pt) p = Some x" and p: "node_path p" "length p = 2"
    and i: "i < 512" and q: "node_path q"
  shows "walk (write_pte x i e m) (root_ppn pt) q = walk m (root_ppn pt) q"
  using q
proof (induction q rule: rev_induct)
  case Nil
  then show ?case by simp
next
  case (snoc j q)
  from snoc.prems have q: "node_path q" "j < 512" "length q \<le> 1" using node_path_snocD by blast+
  note IH = snoc.IH [OF q(1)]
  from ok have wf: "pt_wf m pt" and pages: "pages_ok m" by (auto simp: mach_inv_def)
  show ?case
  proof (cases "walk m (root_ppn pt) q")
    case None
    with IH show ?thesis by (simp add: walk_snoc)
  next
    case (Some y)
    with pt_wfD(2) [OF wf q(1), of y p] x p q(3) have "y \<noteq> x" by auto
    moreover have "unat (ppn_0 y) < 2 ^ 44" "unat (ppn_0 x) < 2 ^ 44"
      using pt_wfD(1) [OF wf q(1) Some] pt_wfD(1) [OF wf p(1) x] pt_frame_small [OF ok] by auto
    ultimately have "read_pte (write_pte x i e m) y j = read_pte m y j"
      using read_write_pte [OF pages _ _ i q(2)] by simp
    with IH Some show ?thesis by (simp add: walk_snoc)
  qed
qed

text \<open>Two states that differ in pages the table does not own look the same to it.\<close>

lemma write_leaf_ok:
  assumes ok: "pt_ok l (pt, m)" and x: "walk m (root_ppn pt) p = Some x" and p: "node_path p" "length p = 2"
    and i: "i < 512"
  shows "pt_ok l (pt, write_pte x i e m)"
proof -
  from ok have wf: "pt_wf m pt" and inv: "mach_inv l m" by auto
  have "pt_wf (write_pte x i e m) pt"
    using wf walk_write_leaf [OF ok x p i] unfolding pt_wf_def by simp
  with ok i show ?thesis by (simp add: mach_inv_def mach_live_def)
qed

lemma lookup_write_leaf:
  assumes ok: "pt_ok l (pt, m)" and x: "walk m (root_ppn pt) (vdir v) = Some x"
    and v: "unat (vpn_0 v) < 2 ^ 27" and w: "unat (vpn_0 w) < 2 ^ 27"
  shows "pt_lookup (pt, write_pte x (vleaf v) e m) w =
    (if w = v then (if pte_is_valid e then Some e else None) else pt_lookup (pt, m) w)"
proof (cases "walk m (root_ppn pt) (vdir w)")
  case None
  with x have "w \<noteq> v" by auto
  with None walk_write_leaf [OF ok x vdir_path vleaf_less vdir_path(1)] show ?thesis by simp
next
  case (Some y)
  from ok have wf: "pt_wf m pt" and pages: "pages_ok m" by (auto simp: mach_inv_def)
  have "unat (ppn_0 y) < 2 ^ 44" "unat (ppn_0 x) < 2 ^ 44"
    using pt_wfD(1) [OF wf vdir_path(1) Some] pt_wfD(1) [OF wf vdir_path(1) x] pt_frame_small [OF ok]
    by auto
  from read_write_pte [OF pages this vleaf_less vleaf_less]
  have rd: "read_pte (write_pte x (vleaf v) e m) y (vleaf w) =
      (if y = x \<and> vleaf w = vleaf v then e else read_pte m y (vleaf w))" .
  have "y = x \<and> vleaf w = vleaf v \<longleftrightarrow> w = v"
    using vdir_vleaf_inj [OF w v] pt_wfD(2) [OF wf vdir_path(1) Some, of "vdir v"] x Some by auto
  with rd Some walk_write_leaf [OF ok x vdir_path vleaf_less vdir_path(1)] show ?thesis
    by (simp add: Let_def)
qed

section \<open>Creating intermediate nodes\<close>

text \<open>
  One level of \<open>find_pte_create\<close>: follow the entry, or allocate and link a new node.
\<close>

definition pt_child :: "nat \<Rightarrow> PhysPageNum \<times> PageTable \<times> machine \<Rightarrow> (PhysPageNum \<times> PageTable \<times> machine) res" where
  "pt_child idx = (\<lambda>(ppn, pt, m).
     if pte_is_valid (read_pte m ppn idx) then Inr (pte_ppn (read_pte m ppn idx), pt, m)
     else case frame_alloc m of
         (None, m) \<Rightarrow> Inl Unwrap_None
       | (Some frame, m) \<Rightarrow>
           Inr (pte_ppn (pte_new frame PTE_V), pt\<lparr>pt_frames := vec_push (pt_frames pt) frame\<rparr>,
             write_pte ppn idx (pte_new frame PTE_V) m))"

lemma find_pte_create_child:
  assumes "vdir v = [a, b]"
  shows "find_pte_create pt v m =
    rbind (pt_child a (root_ppn pt, pt, m)) (\<lambda>s.
    rbind (pt_child b s) (\<lambda>(y, pt, m). Inr (Some (y, vleaf v), pt, m)))"
proof -
  obtain x y z where "indexes v = [x, y, z]" "vdir v = [unat x, unat y]" "vleaf v = unat z"
    using indexes_vdir_vleaf by blast
  with assms show ?thesis
    by (auto simp: find_pte_create_def pt_child_def Let_def split: prod.splits option.splits)
qed

text \<open>What creating nodes may change: the state still satisfies the invariant, the table
  gains only frames that were free, and pages outside the table keep their contents.\<close>

definition pt_ext :: "usize \<Rightarrow> PageTable \<times> machine \<Rightarrow> PageTable \<times> machine \<Rightarrow> bool" where
  "pt_ext l s s' \<longleftrightarrow>
     pt_ok l s' \<and> root_ppn (fst s') = root_ppn (fst s) \<and>
     (\<exists>fs. pt_frames (fst s') = pt_frames (fst s) @ fs \<and> set fs \<inter> mach_live l (snd s) = {} \<and>
        mach_live l (snd s') = mach_live l (snd s) \<union> set fs) \<and>
     (\<forall>q. q \<notin> ppn_0 ` set (pt_frames (fst s')) \<longrightarrow> pmem (snd s') q = pmem (snd s) q) \<and>
     fa_end (falloc (snd s')) = fa_end (falloc (snd s))"

lemma pt_ext_refl: "pt_ok l s \<Longrightarrow> pt_ext l s s"
  by (auto simp: pt_ext_def intro: exI [of _ "[]"])

lemma pt_ext_trans:
  assumes "pt_ext l s t" and "pt_ext l t u"
  shows "pt_ext l s u"
proof -
  obtain fs gs where
    f: "pt_frames (fst t) = pt_frames (fst s) @ fs" "set fs \<inter> mach_live l (snd s) = {}"
      "mach_live l (snd t) = mach_live l (snd s) \<union> set fs" and
    g: "pt_frames (fst u) = pt_frames (fst t) @ gs" "set gs \<inter> mach_live l (snd t) = {}"
      "mach_live l (snd u) = mach_live l (snd t) \<union> set gs"
    using assms unfolding pt_ext_def by blast
  then have "\<exists>hs. pt_frames (fst u) = pt_frames (fst s) @ hs \<and> set hs \<inter> mach_live l (snd s) = {} \<and>
      mach_live l (snd u) = mach_live l (snd s) \<union> set hs"
    by (intro exI [of _ "fs @ gs"]) auto
  moreover have "\<forall>q. q \<notin> ppn_0 ` set (pt_frames (fst u)) \<longrightarrow> pmem (snd u) q = pmem (snd s) q"
    using assms g(1) unfolding pt_ext_def by auto
  ultimately show ?thesis using assms unfolding pt_ext_def by auto
qed

lemma walk_new_node:
  assumes ok: "pt_ok l (pt, m)" and x: "walk m (root_ppn pt) p = Some x" and p: "node_path (p @ [i])"
    and inval: "\<not> pte_is_valid (read_pte m x i)" and al: "frame_alloc m = (Some f, m1)"
    and q: "node_path q"
  shows "walk (write_pte x i (pte_new f PTE_V) m1) (root_ppn pt) q =
    (if q = p @ [i] then Some f else walk m (root_ppn pt) q)"
  using q
proof (induction q rule: rev_induct)
  case Nil
  then show ?case by simp
next
  case (snoc j q)
  let ?m2 = "write_pte x i (pte_new f PTE_V) m1"
  from snoc.prems have q: "node_path q" "j < 512" using node_path_snocD by blast+
  from p have p': "node_path p" "i < 512" using node_path_snocD by blast+
  note IH = snoc.IH [OF q(1)]
  from ok have wf: "pt_wf m pt" and inv: "mach_inv l m" by auto
  note fr = frame_alloc_Some [OF inv al]
  have pages: "pages_ok m1" using fr(4) by (simp add: mach_inv_def)
  have xs: "x \<in> set (pt_frames pt)" by (rule pt_wfD(1) [OF wf p'(1) x])
  have fnew: "f \<notin> set (pt_frames pt)" using fr(1) ok by auto
  have x44: "unat (ppn_0 x) < 2 ^ 44" using pt_frame_small [OF ok xs] .
  have rd: "read_pte ?m2 y k = (if y = x \<and> k = i then pte_new f PTE_V else read_pte m1 y k)"
    if "unat (ppn_0 y) < 2 ^ 44" "k < 512" for y k
    by (rule read_write_pte [OF pages that(1) x44 p'(2) that(2)])
  have old: "read_pte m1 y k = read_pte m y k" if "y \<in> set (pt_frames pt)" for y k
  proof (rule read_pte_cong)
    have "ppn_0 y \<noteq> ppn_0 f" using fnew that by (auto dest: PhysPageNum.expand)
    then show "pmem m1 (phys_page y) = pmem m (phys_page y)"
      using fr(6) pt_frame_small [OF ok that] by simp
  qed
  have zero: "read_pte m1 f k = pte_empty" for k
    using fr(6,7) by (intro read_pte_zero) simp
  show ?case
  proof (cases "q = p @ [i]")
    case True
    have a: "walk m (root_ppn pt) q = None" using True x inval by (simp add: walk_snoc)
    have b: "walk ?m2 (root_ppn pt) q = Some f" using True IH by simp
    have "read_pte ?m2 f j = pte_empty" using rd [OF fr(7) q(2)] zero xs fnew by auto
    moreover have "q @ [j] \<noteq> p @ [i]" using True by simp
    ultimately show ?thesis unfolding walk_snoc a b by simp
  next
    case False
    show ?thesis
    proof (cases "walk m (root_ppn pt) q")
      case None
      then have "q @ [j] \<noteq> p @ [i]" using x by auto
      moreover have "walk ?m2 (root_ppn pt) q = None" using None False IH by simp
      ultimately show ?thesis unfolding walk_snoc [of _ _ q] using None by simp
    next
      case (Some y)
      have y: "y \<in> set (pt_frames pt)" by (rule pt_wfD(1) [OF wf q(1) Some])
      have "y = x \<longleftrightarrow> q = p"
        using pt_wfD(2) [OF wf q(1) Some, of p] p'(1) x Some by auto
      moreover have "read_pte ?m2 y j = (if y = x \<and> j = i then pte_new f PTE_V else read_pte m y j)"
        using rd [OF pt_frame_small [OF ok y] q(2)] old [OF y] by simp
      moreover have "walk ?m2 (root_ppn pt) q = Some y" using Some False IH by simp
      ultimately show ?thesis unfolding walk_snoc [of _ _ q] using Some fr(7) by auto
    qed
  qed
qed

lemma pt_ok_new_node:
  assumes ok: "pt_ok l (pt, m)" and x: "walk m (root_ppn pt) p = Some x" and p: "node_path (p @ [i])"
    and inval: "\<not> pte_is_valid (read_pte m x i)" and al: "frame_alloc m = (Some f, m1)"
  shows "pt_ext l (pt, m) (pt\<lparr>pt_frames := vec_push (pt_frames pt) f\<rparr>, write_pte x i (pte_new f PTE_V) m1)"
    (is "pt_ext l _ (?pt, ?m2)")
proof -
  from ok have wf: "pt_wf m pt" and inv: "mach_inv l m" and sub: "set (pt_frames pt) \<subseteq> mach_live l m"
    by auto
  note fr = frame_alloc_Some [OF inv al]
  note wk = walk_new_node [OF ok x p inval al]
  have pp: "node_path p" "i < 512" using node_path_snocD [OF p] by auto
  have xs: "x \<in> set (pt_frames pt)" by (rule pt_wfD(1) [OF wf pp(1) x])
  have fnew: "f \<notin> set (pt_frames pt)" using fr(1) sub by auto
  have "pt_wf ?m2 ?pt"
    unfolding pt_wf_def
  proof (intro conjI allI impI)
    show "distinct (pt_frames ?pt)" using wf fnew by (simp add: pt_wf_def)
    show "y \<in> set (pt_frames ?pt)" if "node_path q" "walk ?m2 (root_ppn ?pt) q = Some y" for q y
      using that wk [OF that(1)] pt_wfD(1) [OF wf that(1)] by (auto split: if_splits)
    show "q = r" if "node_path q" "node_path r" "walk ?m2 (root_ppn ?pt) q = Some y"
      "walk ?m2 (root_ppn ?pt) r = Some y" for q r y
    proof -
      have "walk m (root_ppn pt) q = Some y \<Longrightarrow> y \<noteq> f" "walk m (root_ppn pt) r = Some y \<Longrightarrow> y \<noteq> f"
        using pt_wfD(1) [OF wf that(1)] pt_wfD(1) [OF wf that(2)] fnew by auto
      with that(3,4) pt_wfD(2) [OF wf that(1) _ that(2)] show ?thesis
        by (simp add: wk [OF that(1)] wk [OF that(2)] split: if_splits)
    qed
  qed
  moreover have "mach_inv l ?m2" using fr(4) pp(2) by (simp add: mach_inv_def)
  moreover have live: "mach_live l ?m2 = insert f (mach_live l m)"
    using fr(3) by (simp add: mach_live_def)
  ultimately have "pt_ok l (?pt, ?m2)" using sub by auto
  moreover have "pmem ?m2 q = pmem m q" if "q \<notin> ppn_0 ` set (pt_frames ?pt)" for q
  proof -
    from that xs have "q \<noteq> ppn_0 x" "q \<noteq> ppn_0 f" by auto
    with pmem_write_pte [OF pt_frame_small [OF ok xs]] fr(6) show ?thesis by simp
  qed
  ultimately show ?thesis
    using fr(1,5) live by (auto simp: pt_ext_def vec_push_def)
qed

lemma lookup_new_node:
  assumes ok: "pt_ok l (pt, m)" and x: "walk m (root_ppn pt) p = Some x" and p: "node_path (p @ [i])"
    and inval: "\<not> pte_is_valid (read_pte m x i)" and al: "frame_alloc m = (Some f, m1)"
  shows "pt_lookup (pt\<lparr>pt_frames := vec_push (pt_frames pt) f\<rparr>, write_pte x i (pte_new f PTE_V) m1) =
    pt_lookup (pt, m)" (is "pt_lookup (?pt, ?m2) = _")
proof
  fix v
  from ok have wf: "pt_wf m pt" and inv: "mach_inv l m" by auto
  note fr = frame_alloc_Some [OF inv al]
  note wk = walk_new_node [OF ok x p inval al vdir_path(1), of v]
  have pp: "node_path p" "i < 512" "length p \<le> 1" using node_path_snocD [OF p] by auto
  have xs: "x \<in> set (pt_frames pt)" by (rule pt_wfD(1) [OF wf pp(1) x])
  have fnew: "f \<notin> set (pt_frames pt)" using fr(1) ok by auto
  have pages: "pages_ok m1" using fr(4) by (simp add: mach_inv_def)
  note rd = read_write_pte [OF pages _ pt_frame_small [OF ok xs] pp(2) vleaf_less]
  show "pt_lookup (?pt, ?m2) v = pt_lookup (pt, m) v"
  proof (cases "vdir v = p @ [i]")
    case True
    have "walk m (root_ppn pt) (p @ [i]) = None" using x inval by (simp add: walk_snoc)
    moreover have "read_pte ?m2 f (vleaf v) = pte_empty"
      using rd [OF fr(7)] xs fnew read_pte_zero [of m1 f] fr(6,7) by auto
    ultimately show ?thesis using True wk by simp
  next
    case False
    show ?thesis
    proof (cases "walk m (root_ppn pt) (vdir v)")
      case None
      with False wk show ?thesis by simp
    next
      case (Some y)
      have y: "y \<in> set (pt_frames pt)" by (rule pt_wfD(1) [OF wf vdir_path(1) Some])
      have "y \<noteq> x"
        using pt_wfD(2) [OF wf vdir_path(1) Some pp(1)] x pp(3) by auto
      moreover have "pmem m1 (phys_page y) = pmem m (phys_page y)"
      proof -
        have "ppn_0 y \<noteq> ppn_0 f" using fnew y by (auto dest: PhysPageNum.expand)
        then show ?thesis using fr(6) pt_frame_small [OF ok y] by simp
      qed
      ultimately have "read_pte ?m2 y (vleaf v) = read_pte m y (vleaf v)"
        using rd [OF pt_frame_small [OF ok y]] read_pte_cong [of m1 y m "vleaf v"] by simp
      with False Some wk show ?thesis by simp
    qed
  qed
qed

section \<open>The map contract\<close>

text \<open>
  What a page-map provider promises its clients (the logical segments of an address space):
  mapping and unmapping change the denoted map at one key and nowhere else, and fail exactly
  when the key is already, respectively not yet, mapped or the provider runs out of frames.
\<close>

locale page_map =
  fixes map1 :: "'v \<Rightarrow> 'p \<Rightarrow> 'f \<Rightarrow> 's \<Rightarrow> 's res"
    and unmap1 :: "'v \<Rightarrow> 's \<Rightarrow> 's res"
    and lookup :: "'s \<Rightarrow> 'v \<Rightarrow> 'e option"
    and entry :: "'p \<Rightarrow> 'f \<Rightarrow> 'e"
    and keys :: "'v set"
    and inv :: "'s \<Rightarrow> bool"
  assumes map1_Inr:
      "inv s \<Longrightarrow> v \<in> keys \<Longrightarrow> map1 v p f s = Inr s' \<Longrightarrow>
       lookup s v = None \<and> inv s' \<and>
       (\<forall>w \<in> keys. lookup s' w = (if w = v then Some (entry p f) else lookup s w))"
    and unmap1_Some:
      "inv s \<Longrightarrow> v \<in> keys \<Longrightarrow> lookup s v \<noteq> None \<Longrightarrow>
       \<exists>s'. unmap1 v s = Inr s' \<and> inv s' \<and>
         (\<forall>w \<in> keys. lookup s' w = (if w = v then None else lookup s w))"
    and unmap1_None: "inv s \<Longrightarrow> v \<in> keys \<Longrightarrow> lookup s v = None \<Longrightarrow> \<exists>e. unmap1 v s = Inl e"
begin

lemma map_then_unmap:
  assumes "inv s" and "v \<in> keys" and "map1 v p f s = Inr t"
  shows "\<exists>u. unmap1 v t = Inr u \<and> inv u \<and> (\<forall>w \<in> keys. lookup u w = lookup s w)"
proof -
  from map1_Inr [OF assms] assms(2) obtain "lookup s v = None" "inv t" "lookup t v \<noteq> None"
    "\<forall>w \<in> keys. w \<noteq> v \<longrightarrow> lookup t w = lookup s w" by auto
  moreover from this unmap1_Some [of t v] assms(2) obtain u where "unmap1 v t = Inr u" "inv u"
    "\<forall>w \<in> keys. lookup u w = (if w = v then None else lookup t w)" by auto
  ultimately show ?thesis by auto
qed

lemma unmap1_Inr:
  assumes "inv s" and "v \<in> keys" and "unmap1 v s = Inr s'"
  shows "lookup s v \<noteq> None \<and> inv s' \<and>
    (\<forall>w \<in> keys. lookup s' w = (if w = v then None else lookup s w))"
  using unmap1_Some [OF assms(1,2)] unmap1_None [OF assms(1,2)] assms(3) by fastforce

text \<open>Mapping a list of pages, one after the other.\<close>

lemma map_list_Inr:
  assumes "rfold (\<lambda>(v, p). map1 v p f) vps s = Inr s'" and "inv s" and "fst ` set vps \<subseteq> keys"
  shows "distinct (map fst vps) \<and> (\<forall>v \<in> fst ` set vps. lookup s v = None) \<and> inv s' \<and>
    (\<forall>w \<in> keys. lookup s' w =
       (case map_of vps w of Some p \<Rightarrow> Some (entry p f) | None \<Rightarrow> lookup s w))"
  using assms
proof (induction vps arbitrary: s)
  case Nil
  then show ?case by simp
next
  case (Cons vp vps)
  obtain v p where vp: "vp = (v, p)" by fastforce
  from Cons.prems(1) vp obtain t where t: "map1 v p f s = Inr t"
    and rest: "rfold (\<lambda>(v, p). map1 v p f) vps t = Inr s'" by (auto elim: rbind_eq_InrE)
  have v: "v \<in> keys" using Cons.prems(3) vp by simp
  from map1_Inr [OF Cons.prems(2) v t] have tv: "lookup s v = None" "inv t"
    "\<forall>w \<in> keys. lookup t w = (if w = v then Some (entry p f) else lookup s w)" by auto
  from Cons.prems(3) have sub: "fst ` set vps \<subseteq> keys" by auto
  from Cons.IH [OF rest tv(2) sub] have ih: "distinct (map fst vps)"
    "\<forall>w \<in> fst ` set vps. lookup t w = None" "inv s'"
    "\<forall>w \<in> keys. lookup s' w = (case map_of vps w of Some p \<Rightarrow> Some (entry p f) | None \<Rightarrow> lookup t w)"
    by auto
  have "v \<notin> fst ` set vps" using ih(2) tv(3) v by auto
  moreover from this have "map_of vps v = None" by (simp add: map_of_eq_None_iff)
  moreover have "lookup s w = None" if "w \<in> fst ` set vps" for w
  proof -
    have w: "w \<in> keys" by (rule subsetD [OF sub that])
    have "lookup t w = None" by (rule bspec [OF ih(2) that])
    with bspec [OF tv(3) w] show ?thesis by (simp split: if_splits)
  qed
  ultimately show ?case using ih tv vp by (auto split: option.splits)
qed

end

section \<open>Correctness of the operations\<close>

lemma pt_child_Inr:
  assumes ok: "pt_ok l (pt, m)" and x: "walk m (root_ppn pt) p = Some x" and p: "node_path (p @ [i])"
    and ch: "pt_child i (x, pt, m) = Inr (y, pt', m')"
  shows "pt_ext l (pt, m) (pt', m')" "pt_lookup (pt', m') = pt_lookup (pt, m)"
    "walk m' (root_ppn pt') (p @ [i]) = Some y"
proof -
  have "pt_ext l (pt, m) (pt', m') \<and> pt_lookup (pt', m') = pt_lookup (pt, m) \<and>
    walk m' (root_ppn pt') (p @ [i]) = Some y"
  proof (cases "pte_is_valid (read_pte m x i)")
    case True
    with ch have "y = pte_ppn (read_pte m x i)" "pt' = pt" "m' = m" by (auto simp: pt_child_def)
    with True x ok show ?thesis by (simp add: pt_ext_refl walk_snoc)
  next
    case False
    with ch obtain f m1 where al: "frame_alloc m = (Some f, m1)"
      and eqs: "y = pte_ppn (pte_new f PTE_V)" "pt' = pt\<lparr>pt_frames := vec_push (pt_frames pt) f\<rparr>"
        "m' = write_pte x i (pte_new f PTE_V) m1"
      by (auto simp: pt_child_def split: prod.splits option.splits)
    have "y = f" using frame_alloc_Some(7) [of l m f m1] ok al eqs(1) by simp
    then show ?thesis
      using pt_ok_new_node [OF ok x p False al] lookup_new_node [OF ok x p False al]
        walk_new_node [OF ok x p False al p] eqs by simp
  qed
  then show "pt_ext l (pt, m) (pt', m')" "pt_lookup (pt', m') = pt_lookup (pt, m)"
    "walk m' (root_ppn pt') (p @ [i]) = Some y" by auto
qed

lemma find_pte_create_Inr:
  assumes ok: "pt_ok l (pt, m)" and fc: "find_pte_create pt v m = Inr (loc, pt', m')"
  shows "pt_ext l (pt, m) (pt', m')" "pt_lookup (pt', m') = pt_lookup (pt, m)"
    "\<exists>y. loc = Some (y, vleaf v) \<and> walk m' (root_ppn pt') (vdir v) = Some y"
proof -
  obtain a b where ab: "vdir v = [a, b]" using vdir_unat by blast
  then have path: "node_path ([] @ [a])" "node_path ([a] @ [b])"
    using vdir_path(1) [of v] by (simp_all add: node_path_def)
  from fc find_pte_create_child [OF ab] obtain x pt1 m1 y where
    c1: "pt_child a (root_ppn pt, pt, m) = Inr (x, pt1, m1)" and
    c2: "pt_child b (x, pt1, m1) = Inr (y, pt', m')" and loc: "loc = Some (y, vleaf v)"
    by (auto elim!: rbind_eq_InrE)
  note r1 = pt_child_Inr [OF ok walk.simps(1) path(1) c1]
  have ok1: "pt_ok l (pt1, m1)" using r1(1) by (simp add: pt_ext_def)
  note r2 = pt_child_Inr [OF ok1 r1(3) [unfolded append_Nil] path(2) c2]
  show "pt_ext l (pt, m) (pt', m')" using r1(1) r2(1) by (rule pt_ext_trans)
  show "pt_lookup (pt', m') = pt_lookup (pt, m)" using r1(2) r2(2) by simp
  show "\<exists>y. loc = Some (y, vleaf v) \<and> walk m' (root_ppn pt') (vdir v) = Some y"
    using loc r2(3) ab by simp
qed

lemma pt_lookup_loc:
  "walk m (root_ppn pt) (vdir v) = Some y \<Longrightarrow>
   pt_lookup (pt, m) v = (let e = read_pte m y (vleaf v) in if pte_is_valid e then Some e else None)"
  by simp

lemma write_leaf_ext:
  assumes ok: "pt_ok l (pt, m)" and x: "walk m (root_ppn pt) (vdir v) = Some x"
  shows "pt_ext l (pt, m) (pt, write_pte x (vleaf v) e m)"
proof -
  have "pt_wf m pt" using ok by simp
  then have xf: "x \<in> set (pt_frames pt)" by (rule pt_wfD(1) [OF _ vdir_path(1) x])
  have "pmem (write_pte x (vleaf v) e m) q = pmem m q" if "q \<notin> ppn_0 ` set (pt_frames pt)" for q
    using that xf by (intro pmem_write_pte pt_frame_small [OF ok]) auto
  then show ?thesis
    using write_leaf_ok [OF ok x vdir_path vleaf_less] by (auto simp: pt_ext_def mach_live_def)
qed

lemma pt_map_Inr:
  assumes ok: "pt_ok l s" and v: "unat (vpn_0 v) < 2 ^ 27" and mp: "pt_map v p f s = Inr s'"
  shows "pt_lookup s v = None" "pt_ext l s s'"
    "unat (vpn_0 w) < 2 ^ 27 \<Longrightarrow>
       pt_lookup s' w = (if w = v then Some (pte_new p (f OR PTE_V)) else pt_lookup s w)"
proof -
  obtain pt m where s: "s = (pt, m)" by (cases s)
  from mp s obtain loc pt1 m1 x i where fc: "find_pte_create pt v m = Inr (loc, pt1, m1)"
    and loc: "loc = Some (x, i)" and inval: "\<not> pte_is_valid (read_pte m1 x i)"
    and s': "s' = (pt1, write_pte x i (pte_new p (f OR PTE_V)) m1)"
    by (auto simp: pt_map_def elim!: rbind_eq_InrE)
  note fc = find_pte_create_Inr [OF ok [unfolded s] fc]
  from fc(3) loc have i: "i = vleaf v" and x: "walk m1 (root_ppn pt1) (vdir v) = Some x" by auto
  have ok1: "pt_ok l (pt1, m1)" using fc(1) by (simp add: pt_ext_def)
  have "pt_lookup (pt1, m1) v = None"
    using inval i by (simp only: pt_lookup_loc [OF x]) simp
  with fc(2) s show "pt_lookup s v = None" by (simp del: pt_lookup.simps)
  have "pt_ext l (pt1, m1) s'" unfolding s' i by (rule write_leaf_ext [OF ok1 x])
  with fc(1) s show "pt_ext l s s'" by (metis pt_ext_trans)
  show "unat (vpn_0 w) < 2 ^ 27 \<Longrightarrow>
       pt_lookup s' w = (if w = v then Some (pte_new p (f OR PTE_V)) else pt_lookup s w)"
    using lookup_write_leaf [OF ok1 x v] fc(2) by (simp add: s' i s)
qed

lemma pt_unmap_eq:
  "pt_unmap v (pt, m) =
     (case walk m (root_ppn pt) (vdir v) of
        None \<Rightarrow> Inl Unwrap_None
      | Some x \<Rightarrow> if pte_is_valid (read_pte m x (vleaf v))
          then Inr (pt, write_pte x (vleaf v) pte_empty m) else Inl Assertion_Failed)"
  by (simp add: pt_unmap_def find_pte_walk rassert_def split: option.splits)

lemma pt_unmap_Some:
  assumes ok: "pt_ok l s" and v: "unat (vpn_0 v) < 2 ^ 27" and lk: "pt_lookup s v \<noteq> None"
  shows "\<exists>s'. pt_unmap v s = Inr s' \<and> pt_ext l s s' \<and> pt_frames (fst s') = pt_frames (fst s) \<and>
    (\<forall>w. unat (vpn_0 w) < 2 ^ 27 \<longrightarrow> pt_lookup s' w = (if w = v then None else pt_lookup s w))"
proof -
  obtain pt m where s: "s = (pt, m)" by (cases s)
  from lk s obtain x where x: "walk m (root_ppn pt) (vdir v) = Some x"
    and val: "pte_is_valid (read_pte m x (vleaf v))"
    by (auto simp: Let_def split: option.splits if_splits)
  let ?s' = "(pt, write_pte x (vleaf v) pte_empty m)"
  have okm: "pt_ok l (pt, m)" using ok s by simp
  have "pt_unmap v s = Inr ?s'" by (simp add: s pt_unmap_eq x val)
  moreover have "pt_ext l s ?s'" unfolding s by (rule write_leaf_ext [OF okm x])
  moreover have "\<forall>w. unat (vpn_0 w) < 2 ^ 27 \<longrightarrow>
      pt_lookup ?s' w = (if w = v then None else pt_lookup s w)"
    using lookup_write_leaf [OF okm x v] s by simp
  ultimately show ?thesis using s by auto
qed

lemma pt_unmap_None: "pt_lookup s v = None \<Longrightarrow> \<exists>e. pt_unmap v s = Inl e"
  by (cases s) (auto simp: pt_unmap_eq Let_def split: option.splits if_splits)

interpretation ptm: page_map pt_map pt_unmap pt_lookup "\<lambda>p f. pte_new p (f OR PTE_V)"
  "{v. unat (vpn_0 v) < 2 ^ 27}" "pt_ok l" for l
proof unfold_locales
  fix s v p f s'
  assume ok: "pt_ok l s" and v: "v \<in> {v. unat (vpn_0 v) < 2 ^ 27}"
  then have v': "unat (vpn_0 v) < 2 ^ 27" by simp
  show "pt_map v p f s = Inr s' \<Longrightarrow> pt_lookup s v = None \<and> pt_ok l s' \<and>
      (\<forall>w \<in> {v. unat (vpn_0 v) < 2 ^ 27}.
         pt_lookup s' w = (if w = v then Some (pte_new p (f OR PTE_V)) else pt_lookup s w))"
    using pt_map_Inr [OF ok v', of p f s'] by (simp add: pt_ext_def)
  show "pt_lookup s v \<noteq> None \<Longrightarrow> \<exists>s'. pt_unmap v s = Inr s' \<and> pt_ok l s' \<and>
      (\<forall>w \<in> {v. unat (vpn_0 v) < 2 ^ 27}. pt_lookup s' w = (if w = v then None else pt_lookup s w))"
    using pt_unmap_Some [OF ok v'] by (auto simp: pt_ext_def)
  show "pt_lookup s v = None \<Longrightarrow> \<exists>e. pt_unmap v s = Inl e"
    by (rule pt_unmap_None)
qed

end
