(* ===== verification/Translation.thy ===== *)
theory Translation
  imports Page_Table
begin

text \<open>
  What the rest of the kernel uses of the page table (\<open>os/src/memory/page_table.rs\<close>): when
  \<open>map\<close> succeeds, the state of a fresh table, address translation, the token written to
  \<open>satp\<close>, and the access to user memory through \<open>translated_byte_buffer\<close>, \<open>translated_str\<close>
  and \<open>translated_refmut\<close>.
\<close>

unbundle bit_operations_syntax

section \<open>Success of mapping\<close>

definition free_frames :: "usize \<Rightarrow> machine \<Rightarrow> PhysPageNum set" where
  "free_frames l m = {p. l \<le> ppn_0 p \<and> ppn_0 p < fa_end (falloc m)} - mach_live l m"

lemma frame_alloc_total:
  assumes "mach_inv l m" and "free_frames l m \<noteq> {}"
  shows "\<exists>f m'. frame_alloc m = (Some f, m')"
  using frames.alloc_total [of l m "fa_end (falloc m)"] assms by (auto simp: free_frames_def)

lemma card_free_alloc:
  assumes "mach_inv l m" and "frame_alloc m = (Some f, m')"
  shows "card (free_frames l m) = Suc (card (free_frames l m'))" "free_frames l m' \<subseteq> free_frames l m"
proof -
  note fr = frame_alloc_Some [OF assms]
  have "f \<in> {p. l \<le> ppn_0 p \<and> ppn_0 p < fa_end (falloc m')}"
    using frames.live_pool [of l m' "fa_end (falloc m')"] fr(3,4) by auto
  then have f: "f \<in> free_frames l m" and eq: "free_frames l m' = free_frames l m - {f}"
    using fr(1,3,5) by (auto simp: free_frames_def)
  show "card (free_frames l m) = Suc (card (free_frames l m'))" "free_frames l m' \<subseteq> free_frames l m"
    unfolding eq using card.remove [OF finite_ppns f] by auto
qed

lemma free_frames_write_pte [simp]: "free_frames l (write_pte x i e m) = free_frames l m"
  by (simp add: free_frames_def mach_live_def)

lemma pt_child_total:
  assumes inv: "mach_inv l m" and free: "n < card (free_frames l m)"
  shows "\<exists>y pt' m'. pt_child i (x, pt, m) = Inr (y, pt', m') \<and> n \<le> card (free_frames l m')"
proof (cases "pte_is_valid (read_pte m x i)")
  case True
  with free show ?thesis by (auto simp: pt_child_def)
next
  case False
  from free have "free_frames l m \<noteq> {}" by auto
  then obtain f m1 where al: "frame_alloc m = (Some f, m1)" using frame_alloc_total [OF inv] by blast
  then show ?thesis using False card_free_alloc(1) [OF inv al] free by (simp add: pt_child_def)
qed

lemma find_pte_create_total:
  assumes ok: "pt_ok l (pt, m)" and free: "2 \<le> card (free_frames l m)"
  shows "\<exists>y pt' m'. find_pte_create pt v m = Inr (Some (y, vleaf v), pt', m') \<and>
    walk m' (root_ppn pt') (vdir v) = Some y"
proof -
  obtain a b where ab: "vdir v = [a, b]" using vdir_unat by blast
  then have path: "node_path ([] @ [a])"
    using vdir_path(1) [of v] by (simp add: node_path_def)
  obtain x pt1 m1 where c1: "pt_child a (root_ppn pt, pt, m) = Inr (x, pt1, m1)"
    and free1: "1 \<le> card (free_frames l m1)"
    using pt_child_total [of l m 1 a "root_ppn pt" pt] ok free by auto
  have "pt_ok l (pt1, m1)"
    using pt_child_Inr(1) [OF ok walk.simps(1) path c1] by (simp add: pt_ext_def)
  then obtain y pt' m' where c2: "pt_child b (x, pt1, m1) = Inr (y, pt', m')"
    using pt_child_total [of l m1 0 b x pt1] free1 by auto
  have fc: "find_pte_create pt v m = Inr (Some (y, vleaf v), pt', m')"
    by (simp add: find_pte_create_child [OF ab] c1 c2)
  from find_pte_create_Inr(3) [OF ok fc] fc show ?thesis by auto
qed

lemma pt_map_total:
  assumes ok: "pt_ok l s" and free: "2 \<le> card (free_frames l (snd s))" and lk: "pt_lookup s v = None"
  shows "\<exists>s'. pt_map v p f s = Inr s'"
proof -
  obtain pt m where s: "s = (pt, m)" by (cases s)
  obtain y pt' m' where fc: "find_pte_create pt v m = Inr (Some (y, vleaf v), pt', m')"
    and w: "walk m' (root_ppn pt') (vdir v) = Some y"
    using find_pte_create_total [of l pt m v] ok free s by auto
  have "pt_lookup (pt', m') v = None"
    using find_pte_create_Inr(2) [OF ok [unfolded s] fc] lk s by (simp del: pt_lookup.simps)
  then have "\<not> pte_is_valid (read_pte m' y (vleaf v))"
    by (simp add: w Let_def split: if_splits)
  then show ?thesis by (simp add: pt_map_def s fc)
qed

lemma pt_map_mapped:
  assumes "pt_lookup s v \<noteq> None"
  shows "pt_map v p f s = Inl Assertion_Failed"
proof -
  obtain pt m where s: "s = (pt, m)" by (cases s)
  obtain a b where ab: "vdir v = [a, b]" using vdir_unat by blast
  from assms s obtain y where w: "walk m (root_ppn pt) [a, b] = Some y"
    and val: "pte_is_valid (read_pte m y (vleaf v))"
    by (auto simp: ab Let_def split: option.splits if_splits)
  then have "find_pte_create pt v m = Inr (Some (y, vleaf v), pt, m)"
    unfolding find_pte_create_child [OF ab]
    by (auto simp: pt_child_def Let_def split: if_splits)
  with val show ?thesis by (simp add: pt_map_def s)
qed

section \<open>Fresh tables, translation and tokens\<close>

lemma walk_fresh_root:
  assumes "mach_inv l m" and "frame_alloc m = (Some f, m')" and "p \<noteq> []"
  shows "walk m' f p = None"
proof -
  have "read_pte m' f i = pte_empty" for i
    using frame_alloc_Some(6,7) [OF assms(1,2)] by (intro read_pte_zero) simp
  with assms(3) show ?thesis by (cases p) simp_all
qed

lemma pt_new_Inr:
  assumes inv: "mach_inv l m" and nw: "pt_new m = Inr (pt, m')"
  shows "pt_ok l (pt, m')" "pt_lookup (pt, m') v = None"
    "\<exists>f. pt_frames pt = [f] \<and> f \<notin> mach_live l m \<and> mach_live l m' = insert f (mach_live l m)"
    "frame_alloc m = (Some (root_ppn pt), m')"
proof -
  from nw obtain f where al: "frame_alloc m = (Some f, m')"
    and pt: "pt = \<lparr>root_ppn = f, pt_frames = [f]\<rparr>"
    by (auto simp: pt_new_def split: prod.splits option.splits)
  note fr = frame_alloc_Some [OF inv al]
  have wk: "walk m' f p = (if p = [] then Some f else None)" for p
    using walk_fresh_root [OF inv al] by simp
  then have "pt_wf m' pt" unfolding pt_wf_def pt by (simp split: if_splits)
  with fr show "pt_ok l (pt, m')" by (simp add: pt)
  show "pt_lookup (pt, m') v = None"
    using wk [of "vdir v"] by (simp add: pt vdir_unat)
  show "\<exists>f. pt_frames pt = [f] \<and> f \<notin> mach_live l m \<and> mach_live l m' = insert f (mach_live l m)"
    using fr by (simp add: pt)
  show "frame_alloc m = (Some (root_ppn pt), m')" using al by (simp add: pt)
qed

lemma pt_lookup_translate:
  "pt_lookup (pt, m) v = Some e \<longleftrightarrow> pt_translate m pt v = Some e \<and> pte_is_valid e"
  by (auto simp: pt_translate_def find_pte_walk Let_def split: option.splits if_splits)

lemma pte_ppn_less: "unat (ppn_0 (pte_ppn e)) < 2 ^ 44"
  by (simp add: pte_ppn_def)

lemma pt_translate_va_Some:
  assumes "pt_translate m pt (va_floor va) = Some e"
  shows "\<exists>pa. pt_translate_va m pt va = Some pa \<and>
    unat (pa_0 pa) = unat (ppn_0 (pte_ppn e)) * 4096 + unat (va_0 va) mod 4096"
proof -
  from assms obtain loc where loc: "find_pte m pt (va_floor va) = Some loc"
    "e = read_pte m (fst loc) (snd loc)"
    by (auto simp: pt_translate_def split: prod.splits)
  let ?pa = "pa_0 (pa_of_ppn (pte_ppn e)) + va_page_offset va"
  have ppn: "unat (ppn_0 (pte_ppn e)) < 2 ^ 44" by (rule pte_ppn_less)
  then have "unat (pa_0 (pa_of_ppn (pte_ppn e))) = unat (ppn_0 (pte_ppn e)) * 4096" by simp
  moreover have "unat (ppn_0 (pte_ppn e)) * 4096 + unat (va_0 va) mod 4096 < 2 ^ 56"
  proof -
    have "unat (ppn_0 (pte_ppn e)) * 4096 + 4096 \<le> 2 ^ 44 * 4096" using ppn by simp
    moreover have "unat (va_0 va) mod 4096 < 4096" by simp
    ultimately show ?thesis by simp
  qed
  ultimately have "unat ?pa = unat (ppn_0 (pte_ppn e)) * 4096 + unat (va_0 va) mod 4096"
    by (subst unat_add_lem [THEN iffD1]) (simp_all)
  moreover note \<open>_ < 2 ^ 56\<close>
  ultimately have "unat (pa_0 (PhysAddr_from ?pa)) =
      unat (ppn_0 (pte_ppn e)) * 4096 + unat (va_0 va) mod 4096" by simp
  with loc show ?thesis by (auto simp: pt_translate_va_def Let_def split: prod.splits)
qed

lemma from_token_token:
  assumes "unat (ppn_0 (root_ppn pt)) < 2 ^ 44"
  shows "root_ppn (from_token (pt_token pt)) = root_ppn pt"
proof -
  have "take_bit 44 (push_bit 60 8 OR ppn_0 (root_ppn pt)) = take_bit 44 (ppn_0 (root_ppn pt))"
    by (auto intro!: bit_word_eqI simp: bit_simps)
  moreover have "take_bit 44 (ppn_0 (root_ppn pt)) = ppn_0 (root_ppn pt)"
    using assms by (intro word_unat_eqI) (simp add: unat_take_bit)
  ultimately have "root_ppn (from_token (pt_token pt)) = PhysPageNum_from (ppn_0 (root_ppn pt))"
    by (simp only: from_token_def pt_token_def PageTable.simps low_bits_and [unfolded low_bits_def])
  with assms show ?thesis by simp
qed

section \<open>User memory\<close>

text \<open>A \<open>&'static mut [u8]\<close> into a physical page: the page and the range of offsets in it.\<close>

type_synonym uslice = "PhysPageNum \<times> nat \<times> nat"

text \<open>\<open>get_bytes_array()[a..b]\<close>; a range that is not inside the page panics.\<close>

definition page_slice :: "PhysPageNum \<Rightarrow> nat \<Rightarrow> nat \<Rightarrow> uslice res" where
  "page_slice p a b = (if a \<le> b \<and> b \<le> 4096 then Inr (p, a, b) else Inl Index_Out_Of_Range)"

text \<open>\<open>None\<close> is a loop that does not end: an end at or above \<open>2 ^ 39\<close> is masked by \<open>VirtAddr::from\<close>.\<close>

partial_function (option) translated_byte_buffer_loop ::
  "machine \<Rightarrow> PageTable \<Rightarrow> usize \<Rightarrow> usize \<Rightarrow> uslice list \<Rightarrow> uslice list res option" where
  "translated_byte_buffer_loop m page_table stop start v =
     (if start < stop then
        let start_va = VirtAddr_from start;
            vpn = va_floor start_va
        in case pt_translate m page_table vpn of
             None \<Rightarrow> Some (Inl Unwrap_None)
           | Some pte \<Rightarrow>
               let ppn = pte_ppn pte;
                   end_va = min (va_of_vpn (vpn_step vpn)) (VirtAddr_from stop);
                   sl = (if va_page_offset end_va = 0
                         then page_slice ppn (unat (va_page_offset start_va)) 4096
                         else page_slice ppn (unat (va_page_offset start_va)) (unat (va_page_offset end_va)))
               in case sl of
                    Inl e \<Rightarrow> Some (Inl e)
                  | Inr b \<Rightarrow> translated_byte_buffer_loop m page_table stop (va_0 end_va) (vec_push v b)
      else Some (Inr v))"

definition translated_byte_buffer :: "machine \<Rightarrow> usize \<Rightarrow> usize \<Rightarrow> usize \<Rightarrow> uslice list res option" where
  "translated_byte_buffer m token ptr len =
     translated_byte_buffer_loop m (from_token token) (ptr + len) ptr []"

text \<open>\<open>PhysAddr::get_mut\<close>: a reference, unless the address is the null pointer.\<close>

definition pa_get_mut :: "PhysAddr \<Rightarrow> PhysAddr res" where
  "pa_get_mut pa = (if pa_0 pa = 0 then Inl Unwrap_None else Inr pa)"

definition phys_read_byte :: "machine \<Rightarrow> PhysAddr \<Rightarrow> u8" where
  "phys_read_byte m pa = pmem m (pa_0 pa div 4096) ! unat (pa_0 pa mod 4096)"

definition phys_write_byte :: "PhysAddr \<Rightarrow> u8 \<Rightarrow> machine \<Rightarrow> machine" where
  "phys_write_byte pa b m =
     m\<lparr>pmem := (pmem m)(pa_0 pa div 4096 := (pmem m (pa_0 pa div 4096))[unat (pa_0 pa mod 4096) := b])\<rparr>"

definition translated_refmut :: "machine \<Rightarrow> usize \<Rightarrow> usize \<Rightarrow> PhysAddr res" where
  "translated_refmut m token ptr =
     rbind (runwrap (pt_translate_va m (from_token token) (VirtAddr_from ptr))) pa_get_mut"

text \<open>The string is the list of the byte values pushed as characters.\<close>

partial_function (option) translated_str_loop ::
  "machine \<Rightarrow> PageTable \<Rightarrow> usize \<Rightarrow> u8 list \<Rightarrow> u8 list res option" where
  "translated_str_loop m page_table va string =
     (case rbind (runwrap (pt_translate_va m page_table (VirtAddr_from va))) pa_get_mut of
        Inl e \<Rightarrow> Some (Inl e)
      | Inr pa \<Rightarrow>
          let ch = phys_read_byte m pa
          in if ch = 0 then Some (Inr string)
             else translated_str_loop m page_table (va + 1) (vec_push string ch))"

definition translated_str :: "machine \<Rightarrow> usize \<Rightarrow> usize \<Rightarrow> u8 list res option" where
  "translated_str m token ptr = translated_str_loop m (from_token token) ptr []"

record UserBuffer =
  buffers :: "uslice list"

definition slice_len :: "uslice \<Rightarrow> nat" where
  "slice_len = (\<lambda>(p, a, b). b - a)"

definition UserBuffer_len :: "UserBuffer \<Rightarrow> usize" where
  "UserBuffer_len ub = fold (\<lambda>b total. total + of_nat (slice_len b)) (buffers ub) 0"

record UserBufferIterator =
  ubi_buffers :: "uslice list"
  current_buffer :: nat
  current_idx :: nat

definition UserBuffer_into_iter :: "UserBuffer \<Rightarrow> UserBufferIterator" where
  "UserBuffer_into_iter ub = \<lparr>ubi_buffers = buffers ub, current_buffer = 0, current_idx = 0\<rparr>"

text \<open>\<open>&mut slice[i] as *mut _\<close>: the byte's page and offset.\<close>

definition slice_ptr :: "uslice \<Rightarrow> nat \<Rightarrow> (PhysPageNum \<times> nat) res" where
  "slice_ptr = (\<lambda>(p, a, b) i. if i < b - a then Inr (p, a + i) else Inl Index_Out_Of_Range)"

definition UserBufferIterator_next ::
  "UserBufferIterator \<Rightarrow> ((PhysPageNum \<times> nat) option \<times> UserBufferIterator) res" where
  "UserBufferIterator_next it =
     (if current_buffer it \<ge> length (ubi_buffers it) then Inr (None, it)
      else rbind (slice_ptr (ubi_buffers it ! current_buffer it) (current_idx it)) (\<lambda>r.
        Inr (Some r,
          if current_idx it + 1 = slice_len (ubi_buffers it ! current_buffer it)
          then it\<lparr>current_idx := 0, current_buffer := current_buffer it + 1\<rparr>
          else it\<lparr>current_idx := current_idx it + 1\<rparr>)))"

definition ubi_left :: "UserBufferIterator \<Rightarrow> nat" where
  "ubi_left it = sum_list (map slice_len (drop (current_buffer it) (ubi_buffers it))) - current_idx it"

lemma ubi_next_left:
  assumes "UserBufferIterator_next it = Inr (Some r, it')"
  shows "ubi_left it' < ubi_left it"
proof -
  let ?k = "current_buffer it"
  from assms have k: "?k < length (ubi_buffers it)"
    and i: "current_idx it < slice_len (ubi_buffers it ! ?k)"
    by (auto simp: UserBufferIterator_next_def slice_ptr_def slice_len_def
        split: if_splits prod.splits elim!: rbind_eq_InrE)
  with assms show ?thesis
    by (auto simp: UserBufferIterator_next_def ubi_left_def Cons_nth_drop_Suc [symmetric]
        split: if_splits elim!: rbind_eq_InrE)
qed

text \<open>\<open>for byte_ref in user_buffer\<close>: the pointers it visits.\<close>

function UserBufferIterator_items :: "UserBufferIterator \<Rightarrow> (PhysPageNum \<times> nat) list res" where
  "UserBufferIterator_items it =
     rbind (UserBufferIterator_next it) (\<lambda>(r, it').
       case r of
         None \<Rightarrow> Inr []
       | Some p \<Rightarrow> rbind (UserBufferIterator_items it') (\<lambda>ps. Inr (p # ps)))"
  by pat_completeness auto
termination
  by (relation "measure ubi_left") (auto intro: ubi_next_left)

declare UserBufferIterator_items.simps [simp del]

section \<open>Correctness of user memory access\<close>

text \<open>The bytes a vector of slices covers, in order, and the byte a user address names.\<close>

definition slice_addrs :: "uslice \<Rightarrow> (PhysPageNum \<times> nat) list" where
  "slice_addrs = (\<lambda>(p, a, b). map (\<lambda>i. (p, i)) [a..<b])"

definition buffer_addrs :: "uslice list \<Rightarrow> (PhysPageNum \<times> nat) list" where
  "buffer_addrs v = concat (map slice_addrs v)"

definition user_vpn :: "nat \<Rightarrow> VirtPageNum" where
  "user_vpn k = VirtPageNum (of_nat (k div 4096))"

definition user_addr :: "machine \<Rightarrow> PageTable \<Rightarrow> nat \<Rightarrow> PhysPageNum \<times> nat" where
  "user_addr m pt k = (pte_ppn (the (pt_translate m pt (user_vpn k))), k mod 4096)"

lemma buffer_addrs_simps [simp]:
  "buffer_addrs [] = []" "buffer_addrs (b # v) = slice_addrs b @ buffer_addrs v"
  "buffer_addrs (v @ w) = buffer_addrs v @ buffer_addrs w"
  by (simp_all add: buffer_addrs_def)

lemma within_page:
  assumes "s + d \<le> (s div 4096 + 1) * 4096" and "i < d"
  shows "(s + i) div 4096 = s div 4096" "(s + i) mod 4096 = s mod 4096 + (i :: nat)"
proof -
  have s: "s = s div 4096 * 4096 + s mod 4096" by simp
  have "s + d \<le> s div 4096 * 4096 + 4096" using assms(1) by simp
  with s assms(2) have lt: "s mod 4096 + i < 4096" by linarith
  have "s + i = s mod 4096 + i + s div 4096 * 4096" using s by linarith
  with lt show "(s + i) div 4096 = s div 4096" "(s + i) mod 4096 = s mod 4096 + i"
    by (simp_all only: div_mult_self1 mod_mult_self1 div_less mod_less)
qed

lemma user_addrs_in_page:
  assumes "s \<le> e" and "e \<le> (s div 4096 + 1) * 4096"
  shows "map (user_addr m pt) [s..<e] =
    slice_addrs (pte_ppn (the (pt_translate m pt (user_vpn s))), s mod 4096, s mod 4096 + (e - s))"
proof (rule nth_equalityI)
  show "length (map (user_addr m pt) [s..<e]) = length (slice_addrs (pte_ppn (the (pt_translate m pt
      (user_vpn s))), s mod 4096, s mod 4096 + (e - s)))"
    by (simp add: slice_addrs_def)
  fix i assume "i < length (map (user_addr m pt) [s..<e])"
  then have i: "i < e - s" by simp
  moreover from this assms have "s + i \<le> e" by simp
  ultimately show "map (user_addr m pt) [s..<e] ! i = slice_addrs (pte_ppn (the (pt_translate m pt
      (user_vpn s))), s mod 4096, s mod 4096 + (e - s)) ! i"
    using within_page [of s "e - s" i] assms
    by (simp add: slice_addrs_def user_addr_def user_vpn_def)
qed

text \<open>One round of the loop covers the part of the range inside the current page.\<close>

lemma tbb_loop_step:
  assumes lt: "start < stop" and stop: "unat stop < 2 ^ 39"
    and tr: "pt_translate m pt (user_vpn (unat start)) = Some pte"
    and n: "n = min ((unat start div 4096 + 1) * 4096) (unat stop)"
  shows "translated_byte_buffer_loop m pt stop start v =
    translated_byte_buffer_loop m pt stop (of_nat n)
      (v @ [(pte_ppn pte, unat start mod 4096, unat start mod 4096 + (n - unat start))])"
    "unat start < n" "n \<le> unat stop"
proof -
  let ?s = "unat start" and ?e = "unat stop"
  have s: "?s < ?e" using lt by (simp add: word_less_nat_alt)
  have sva: "VirtAddr_from start = VirtAddr start"
    using s stop by (intro VirtAddr.expand word_unat_eqI) simp
  have vpn: "va_floor (VirtAddr start) = user_vpn ?s"
    by (intro VirtPageNum.expand word_unat_eqI)
      (use unat_usize_less [of start] in \<open>simp add: user_vpn_def unat_of_nat\<close>)
  have step: "unat (va_0 (va_of_vpn (vpn_step (user_vpn ?s)))) = (?s div 4096 + 1) * 4096"
  proof -
    have small: "?s div 4096 < 2 ^ 27" using s stop by simp
    moreover have "word_of_nat (?s div 4096) + 1 = (word_of_nat (?s div 4096 + 1) :: usize)" by simp
    ultimately have "unat (vpn_0 (vpn_step (user_vpn ?s))) = ?s div 4096 + 1"
      by (simp add: vpn_step_def user_vpn_def unat_of_nat del: of_nat_add of_nat_Suc)
    with small show ?thesis by simp
  qed
  let ?ev = "min (va_of_vpn (vpn_step (user_vpn ?s))) (VirtAddr_from stop)"
  have ev: "unat (va_0 ?ev) = n"
    using step stop by (simp add: min_def less_eq_VirtAddr_def word_le_nat_alt n)
  show sn: "?s < n" "n \<le> ?e" using s by (auto simp: n) 
  have off: "?s mod 4096 + (n - ?s) = (if n mod 4096 = 0 then 4096 else n mod 4096)"
  proof -
    have d: "?s = ?s div 4096 * 4096 + ?s mod 4096" by simp
    have le: "n \<le> ?s div 4096 * 4096 + 4096" by (simp add: n)
    let ?r = "?s mod 4096 + (n - ?s)"
    have nr: "n = ?r + ?s div 4096 * 4096" using d sn(1) by linarith
    have r: "0 < ?r" "?r \<le> 4096" using d sn(1) le by linarith+
    have "n mod 4096 = ?r mod 4096" by (subst nr) (rule mod_mult_self1)
    with r show ?thesis by (cases "?r = 4096") auto
  qed
  have nn: "unat (word_of_nat n :: usize) = n"
    using sn(2) stop by (simp add: unat_of_nat)
  have "va_0 ?ev = of_nat n" by (simp flip: ev)
  moreover have "va_page_offset ?ev = 0 \<longleftrightarrow> n mod 4096 = 0"
    by (simp add: unat_eq_0 [symmetric] ev)
  ultimately show "translated_byte_buffer_loop m pt stop start v =
    translated_byte_buffer_loop m pt stop (of_nat n)
      (v @ [(pte_ppn pte, ?s mod 4096, ?s mod 4096 + (n - ?s))])"
    using lt off nn
    by (subst translated_byte_buffer_loop.simps)
      (auto simp: Let_def sva vpn tr page_slice_def ev vec_push_def split: if_splits)
qed

lemma tbb_loop:
  assumes "unat stop < 2 ^ 39" and "start \<le> stop"
    and "\<And>k. unat start \<le> k \<Longrightarrow> k < unat stop \<Longrightarrow> pt_translate m pt (user_vpn k) \<noteq> None"
  shows "\<exists>w. translated_byte_buffer_loop m pt stop start v = Some (Inr (v @ w)) \<and>
    buffer_addrs w = map (user_addr m pt) [unat start..<unat stop] \<and>
    (\<forall>b \<in> set w. 0 < slice_len b)"
  using assms(2,3)
proof (induction "unat stop - unat start" arbitrary: start v rule: less_induct)
  case less
  show ?case
  proof (cases "start < stop")
    case False
    with less.prems(1) have "start = stop" by simp
    then show ?thesis by (subst translated_byte_buffer_loop.simps) simp
  next
    case True
    then have lt: "unat start < unat stop" by (simp add: word_less_nat_alt)
    then obtain pte where tr: "pt_translate m pt (user_vpn (unat start)) = Some pte"
      using less.prems(2) [of "unat start"] by auto
    define n where "n = min ((unat start div 4096 + 1) * 4096) (unat stop)"
    note step = tbb_loop_step [OF True assms(1) tr n_def]
    have n: "unat (word_of_nat n :: usize) = n"
      using step(3) assms(1) by (simp add: unat_of_nat)
    let ?b = "(pte_ppn pte, unat start mod 4096, unat start mod 4096 + (n - unat start))"
    obtain w where w: "translated_byte_buffer_loop m pt stop (of_nat n) (v @ [?b]) = Some (Inr ((v @ [?b]) @ w))"
      "buffer_addrs w = map (user_addr m pt) [n..<unat stop]" "\<forall>b \<in> set w. 0 < slice_len b"
      using less.hyps [of "of_nat n" "v @ [?b]"] less.prems(2) step(2,3)
        diff_less_mono2 [OF step(2) lt]
      by (auto simp: n word_le_nat_alt)
    have "n \<le> (unat start div 4096 + 1) * 4096" by (simp add: n_def)
    then have "map (user_addr m pt) [unat start..<n] = slice_addrs ?b"
      using user_addrs_in_page [of "unat start" n m pt] step(2) tr by simp
    moreover have "[unat start..<unat stop] = [unat start..<n] @ [n..<unat stop]"
      using step(2,3) upt_add_eq_append [of "unat start" n "unat stop - n"] by simp
    ultimately have "buffer_addrs (?b # w) = map (user_addr m pt) [unat start..<unat stop]"
      using w(2) by simp
    moreover have "0 < slice_len ?b" using step(2) by (simp add: slice_len_def)
    ultimately show ?thesis using w(1,3) step(1) [of v] by (intro exI [of _ "?b # w"]) simp
  qed
qed

text \<open>Iterating a \<open>UserBuffer\<close> visits the bytes of its slices in order.\<close>

lemma slice_addrs_nth: "i < slice_len b \<Longrightarrow> slice_ptr b i = Inr (slice_addrs b ! i)"
  and length_slice_addrs [simp]: "length (slice_addrs b) = slice_len b"
  by (cases b; simp add: slice_ptr_def slice_addrs_def slice_len_def)+

lemma UserBufferIterator_items_from:
  assumes "\<forall>b \<in> set (ubi_buffers it). 0 < slice_len b"
    and "current_buffer it < length (ubi_buffers it) \<Longrightarrow>
      current_idx it < slice_len (ubi_buffers it ! current_buffer it)"
  shows "UserBufferIterator_items it =
    Inr (if current_buffer it < length (ubi_buffers it)
      then drop (current_idx it) (slice_addrs (ubi_buffers it ! current_buffer it)) @
        buffer_addrs (drop (Suc (current_buffer it)) (ubi_buffers it))
      else [])"
  using assms
proof (induction it rule: UserBufferIterator_items.induct)
  case (1 it)
  let ?k = "current_buffer it" and ?bs = "ubi_buffers it" and ?i = "current_idx it"
  show ?case
  proof (cases "?k < length ?bs")
    case False
    then show ?thesis
      by (subst UserBufferIterator_items.simps) (simp add: UserBufferIterator_next_def)
  next
    case True
    with "1.prems"(2) have i: "?i < slice_len (?bs ! ?k)" by simp
    define it' where "it' = (if ?i + 1 = slice_len (?bs ! ?k)
        then it\<lparr>current_idx := 0, current_buffer := ?k + 1\<rparr> else it\<lparr>current_idx := ?i + 1\<rparr>)"
    have nx: "UserBufferIterator_next it = Inr (Some (slice_addrs (?bs ! ?k) ! ?i), it')"
      using True i by (simp add: UserBufferIterator_next_def slice_addrs_nth it'_def)
    have bs: "ubi_buffers it' = ?bs" by (simp add: it'_def)
    have "current_idx it' < slice_len (ubi_buffers it' ! current_buffer it')"
      if "current_buffer it' < length (ubi_buffers it')"
      using that i "1.prems"(1) by (auto simp: it'_def)
    with "1.IH" [OF nx refl refl] "1.prems"(1) bs
    have "UserBufferIterator_items it' =
      Inr (if current_buffer it' < length ?bs
        then drop (current_idx it') (slice_addrs (?bs ! current_buffer it')) @
          buffer_addrs (drop (Suc (current_buffer it')) ?bs) else [])" by simp
    also have "\<dots> = Inr (drop (Suc ?i) (slice_addrs (?bs ! ?k)) @ buffer_addrs (drop (Suc ?k) ?bs))"
      using True i by (auto simp: it'_def Cons_nth_drop_Suc [symmetric])
    finally show ?thesis
      using True i nx by (subst UserBufferIterator_items.simps) (simp add: Cons_nth_drop_Suc)
  qed
qed

lemma UserBuffer_items:
  assumes "\<forall>b \<in> set v. 0 < slice_len b"
  shows "UserBufferIterator_items (UserBuffer_into_iter \<lparr>buffers = v\<rparr>) = Inr (buffer_addrs v)"
  using assms
  by (subst UserBufferIterator_items_from) (cases v; simp add: UserBuffer_into_iter_def)+

lemma UserBuffer_len_addrs: "UserBuffer_len ub = of_nat (length (buffer_addrs (buffers ub)))"
proof -
  have "fold (\<lambda>b total. total + of_nat (slice_len b)) v t = t + (of_nat (length (buffer_addrs v)) :: usize)" for v t
    by (induction v arbitrary: t) (simp_all add: add.assoc)
  then show ?thesis by (simp add: UserBuffer_len_def)
qed

text \<open>The byte behind a user address: \<open>None\<close> when the access panics.\<close>

definition user_byte :: "machine \<Rightarrow> PageTable \<Rightarrow> usize \<Rightarrow> u8 option" where
  "user_byte m pt va =
     (case pt_translate_va m pt (VirtAddr_from va) of
        None \<Rightarrow> None
      | Some pa \<Rightarrow> if pa_0 pa = 0 then None else Some (phys_read_byte m pa))"

lemma translated_str_loop_byte:
  "translated_str_loop m pt va str =
     (case user_byte m pt va of
        None \<Rightarrow> Some (Inl Unwrap_None)
      | Some ch \<Rightarrow> if ch = 0 then Some (Inr str) else translated_str_loop m pt (va + 1) (str @ [ch]))"
  by (subst translated_str_loop.simps)
    (auto simp: user_byte_def pa_get_mut_def Let_def vec_push_def split: option.splits)

lemma translated_str_loop_chars:
  assumes "\<And>k. k < length bs \<Longrightarrow> user_byte m pt (va + of_nat k) = Some (bs ! k)" and "0 \<notin> set bs"
  shows "translated_str_loop m pt va str =
    translated_str_loop m pt (va + of_nat (length bs)) (str @ bs)"
  using assms
proof (induction bs arbitrary: va str)
  case Nil
  then show ?case by simp
next
  case (Cons b bs)
  have "user_byte m pt va = Some b" using Cons.prems(1) [of 0] by simp
  with Cons.prems(2) have "translated_str_loop m pt va str = translated_str_loop m pt (va + 1) (str @ [b])"
    by (subst translated_str_loop_byte) simp
  also have "\<dots> = translated_str_loop m pt (va + 1 + of_nat (length bs)) ((str @ [b]) @ bs)"
  proof (rule Cons.IH)
    show "user_byte m pt (va + 1 + of_nat k) = Some (bs ! k)" if "k < length bs" for k
      using Cons.prems(1) [of "Suc k"] that by (simp add: add.assoc)
  qed (use Cons.prems(2) in simp)
  finally show ?case by (simp add: add.assoc)
qed

section \<open>Properties of the page table\<close>

text \<open>
  C7: \<open>map\<close> implements the update of a finite map. With two frames free and the page not
  mapped it succeeds, and the table then denotes the old map updated at this page; the nodes
  it adds are frames that were free, and no page outside the table changes. On a page that is
  already mapped it panics.
\<close>

theorem pt_map_updates:
  assumes "pt_ok l s" and "unat (vpn_0 v) < 2 ^ 27"
  shows "(pt_lookup s v = None \<longrightarrow> 2 \<le> card (free_frames l (snd s)) \<longrightarrow>
      (\<exists>s'. pt_map v p f s = Inr s' \<and> pt_ok l s' \<and>
        (\<forall>w. unat (vpn_0 w) < 2 ^ 27 \<longrightarrow>
          pt_lookup s' w = ((pt_lookup s)(v \<mapsto> pte_new p (f OR PTE_V))) w) \<and>
        (\<exists>fs. pt_frames (fst s') = pt_frames (fst s) @ fs \<and> set fs \<inter> mach_live l (snd s) = {}) \<and>
        (\<forall>q. q \<notin> ppn_0 ` set (pt_frames (fst s')) \<longrightarrow> pmem (snd s') q = pmem (snd s) q))) \<and>
    (pt_lookup s v \<noteq> None \<longrightarrow> pt_map v p f s = Inl Assertion_Failed)"
proof (intro conjI impI)
  assume "pt_lookup s v = None" "2 \<le> card (free_frames l (snd s))"
  then obtain s' where s': "pt_map v p f s = Inr s'" using pt_map_total [OF assms(1)] by blast
  from pt_map_Inr(2,3) [OF assms s']
  show "\<exists>s'. pt_map v p f s = Inr s' \<and> pt_ok l s' \<and>
      (\<forall>w. unat (vpn_0 w) < 2 ^ 27 \<longrightarrow>
        pt_lookup s' w = ((pt_lookup s)(v \<mapsto> pte_new p (f OR PTE_V))) w) \<and>
      (\<exists>fs. pt_frames (fst s') = pt_frames (fst s) @ fs \<and> set fs \<inter> mach_live l (snd s) = {}) \<and>
      (\<forall>q. q \<notin> ppn_0 ` set (pt_frames (fst s')) \<longrightarrow> pmem (snd s') q = pmem (snd s) q)"
    using s' by (intro exI [of _ s']) (auto simp: pt_ext_def)
qed (rule pt_map_mapped)

definition sample_table :: "PageTable \<times> machine" where
  "sample_table = (\<lparr>root_ppn = PhysPageNum 1, pt_frames = [PhysPageNum 1]\<rparr>, snd (frame_alloc sample_machine))"

lemma sample_table_new: "pt_new sample_machine = Inr sample_table"
  and sample_table_alloc: "frame_alloc sample_machine = (Some (PhysPageNum 1), snd sample_table)"
proof -
  have "fst (frame_alloc sample_machine) = Some (PhysPageNum 1)"
    by (simp add: frame_alloc_fst sample_machine_def sfa_alloc_def vec_pop_def)
  then show al: "frame_alloc sample_machine = (Some (PhysPageNum 1), snd sample_table)"
    by (simp add: sample_table_def prod_eq_iff)
  show "pt_new sample_machine = Inr sample_table"
    unfolding pt_new_def al by (simp add: sample_table_def)
qed

lemma sample_table_ok: "pt_ok 1 sample_table" "pt_lookup sample_table v = None"
  using pt_new_Inr(1,2) [OF sample_machine_inv, of "fst sample_table" "snd sample_table"]
  by (simp_all add: sample_table_new del: pt_ok.simps pt_lookup.simps)

lemma sample_table_free: "6 \<le> card (free_frames 1 (snd sample_table))"
proof -
  have "w = 1" if "1 \<le> w" "w < 2" for w :: usize
    using that by (intro word_unat_eqI) (simp add: word_le_nat_alt word_less_nat_alt)
  then have "mach_live 1 sample_machine = {}"
    by (auto simp: mach_live_def fa_live_def sample_machine_def)
  then have live: "mach_live 1 (snd sample_table) = {PhysPageNum 1}"
    using frame_alloc_Some(3) [OF sample_machine_inv sample_table_alloc] by simp
  have "PhysPageNum ` {3, 4, 5, 6, 7, 8} \<subseteq> free_frames 1 (snd sample_table)"
    using frame_alloc_Some(5) [OF sample_machine_inv sample_table_alloc]
    by (auto simp: free_frames_def live sample_machine_def)
  then have "card (PhysPageNum ` {3, 4, 5, 6, 7, 8}) \<le> card (free_frames 1 (snd sample_table))"
    by (rule card_mono [OF finite_ppns])
  then show ?thesis by (simp add: card_image inj_on_def)
qed

theorem pt_map_updates_witness:
  "\<exists>s'. pt_map (VirtPageNum 5) (PhysPageNum 77) PTE_R sample_table = Inr s' \<and>
     pt_lookup s' (VirtPageNum 5) = Some (pte_new (PhysPageNum 77) (PTE_R OR PTE_V)) \<and>
     pt_map (VirtPageNum 5) (PhysPageNum 78) PTE_R s' = Inl Assertion_Failed"
proof -
  have v: "unat (vpn_0 (VirtPageNum 5)) < 2 ^ 27" by simp
  note up = pt_map_updates [OF sample_table_ok(1) v]
  have "2 \<le> card (free_frames 1 (snd sample_table))" using sample_table_free by simp
  with up [of "PhysPageNum 77" PTE_R] sample_table_ok(2) obtain s' where
    s': "pt_map (VirtPageNum 5) (PhysPageNum 77) PTE_R sample_table = Inr s'" "pt_ok 1 s'"
    "pt_lookup s' (VirtPageNum 5) = Some (pte_new (PhysPageNum 77) (PTE_R OR PTE_V))"
    using v by (auto simp del: pt_lookup.simps pt_ok.simps)
  moreover from pt_map_updates [OF s'(2) v] s'(3)
  have "pt_map (VirtPageNum 5) (PhysPageNum 78) PTE_R s' = Inl Assertion_Failed" by simp
  ultimately show ?thesis by blast
qed

text \<open>
  C8: \<open>unmap\<close> implements the removal from a finite map. A mapped page is unmapped, every other
  page keeps its entry, and the table's frames and the allocator are untouched; on a page that
  is not mapped it panics.
\<close>

theorem pt_unmap_removes:
  assumes "pt_ok l s" and "unat (vpn_0 v) < 2 ^ 27"
  shows "(pt_lookup s v \<noteq> None \<longrightarrow>
      (\<exists>s'. pt_unmap v s = Inr s' \<and> pt_ok l s' \<and> pt_frames (fst s') = pt_frames (fst s) \<and>
        mach_live l (snd s') = mach_live l (snd s) \<and>
        (\<forall>w. unat (vpn_0 w) < 2 ^ 27 \<longrightarrow> pt_lookup s' w = ((pt_lookup s)(v := None)) w))) \<and>
    (pt_lookup s v = None \<longrightarrow> (\<exists>e. pt_unmap v s = Inl e))"
  using pt_unmap_Some [OF assms] pt_unmap_None [of s v] by (fastforce simp: pt_ext_def)

theorem pt_unmap_removes_witness: "\<exists>e. pt_unmap (VirtPageNum 5) sample_table = Inl e"
proof -
  have v: "unat (vpn_0 (VirtPageNum 5)) < 2 ^ 27" by simp
  show ?thesis
    using pt_unmap_removes [OF sample_table_ok(1) v] sample_table_ok(2) by simp
qed

text \<open>
  \<open>unmap\<close> undoes \<open>map\<close>: after mapping a page and unmapping it, the table denotes the map it
  denoted before.
\<close>

theorem pt_map_unmap_restores:
  assumes "pt_ok l s" and "unat (vpn_0 v) < 2 ^ 27" and "pt_map v p f s = Inr t"
  shows "\<exists>u. pt_unmap v t = Inr u \<and> pt_ok l u \<and>
    (\<forall>w. unat (vpn_0 w) < 2 ^ 27 \<longrightarrow> pt_lookup u w = pt_lookup s w)"
  using ptm.map_then_unmap [of l s v p f t] assms by auto

theorem pt_map_unmap_restores_witness:
  "\<exists>t u. pt_map (VirtPageNum 5) (PhysPageNum 77) PTE_R sample_table = Inr t \<and>
     pt_unmap (VirtPageNum 5) t = Inr u \<and> pt_lookup u (VirtPageNum 5) = None"
proof -
  have v: "unat (vpn_0 (VirtPageNum 5)) < 2 ^ 27" by simp
  obtain t where t: "pt_map (VirtPageNum 5) (PhysPageNum 77) PTE_R sample_table = Inr t"
    using pt_map_total [OF sample_table_ok(1) _ sample_table_ok(2)] sample_table_free by fastforce
  from pt_map_unmap_restores [OF sample_table_ok(1) v t] v t show ?thesis
    by (auto simp: sample_table_ok(2) simp del: pt_ok.simps pt_lookup.simps)
qed

text \<open>
  \<open>PageTable::new\<close> returns a table that owns one frame, which was free, and denotes the
  empty map; it panics only when no frame is free.
\<close>

theorem pt_new_empty_map:
  assumes "mach_inv l m" and "free_frames l m \<noteq> {}"
  shows "\<exists>pt m'. pt_new m = Inr (pt, m') \<and> pt_ok l (pt, m') \<and> pt_lookup (pt, m') = Map.empty \<and>
    pt_frames pt = [root_ppn pt] \<and> root_ppn pt \<in> free_frames l m"
proof -
  obtain f m' where al: "frame_alloc m = (Some f, m')" using frame_alloc_total [OF assms] by blast
  then have nw: "pt_new m = Inr (\<lparr>root_ppn = f, pt_frames = [f]\<rparr>, m')" by (simp add: pt_new_def)
  note fr = frame_alloc_Some [OF assms(1) al]
  have "f \<in> {p. l \<le> ppn_0 p \<and> ppn_0 p < fa_end (falloc m')}"
    using frames.live_pool [of l m' "fa_end (falloc m')"] fr(3,4) by auto
  with fr(1,5) have "f \<in> free_frames l m" by (simp add: free_frames_def)
  with nw pt_new_Inr(1,2) [OF assms(1) nw] show ?thesis
    by (intro exI [of _ "\<lparr>root_ppn = f, pt_frames = [f]\<rparr>"] exI [of _ m'])
      (auto simp del: pt_lookup.simps pt_ok.simps)
qed

theorem pt_new_empty_map_witness:
  "\<exists>pt m'. pt_new (snd sample_table) = Inr (pt, m') \<and> pt_lookup (pt, m') = Map.empty"
proof -
  have "mach_inv 1 (snd sample_table)"
    using frame_alloc_Some(4) [OF sample_machine_inv sample_table_alloc] .
  moreover have "free_frames 1 (snd sample_table) \<noteq> {}" using sample_table_free by auto
  ultimately show ?thesis using pt_new_empty_map [of 1 "snd sample_table"] by blast
qed

section \<open>Properties of translation\<close>

lemma find_pte_root: "root_ppn pt' = root_ppn pt \<Longrightarrow> find_pte m pt' v = find_pte m pt v"
  by (simp add: find_pte_def)

lemma pt_translate_root:
  assumes "root_ppn pt' = root_ppn pt"
  shows "pt_translate m pt' v = pt_translate m pt v" "pt_translate_va m pt' va = pt_translate_va m pt va"
  by (simp_all add: pt_translate_def pt_translate_va_def find_pte_root [OF assms])

lemma pt_ok_root_small: "pt_ok l (pt, m) \<Longrightarrow> unat (ppn_0 (root_ppn pt)) < 2 ^ 44"
  using pt_wfD(1) [of m pt "[]" "root_ppn pt"] pt_frame_small [of l pt m "root_ppn pt"]
  by (simp add: node_path_def)

lemma pt_ok_token: "pt_ok l (pt, m) \<Longrightarrow> root_ppn (from_token (pt_token pt)) = root_ppn pt"
  by (intro from_token_token pt_ok_root_small)

text \<open>
  After \<open>map(vpn, ppn, flags)\<close>, every address inside the virtual page translates to the same
  offset inside the physical page, through the table and through the table rebuilt from its
  \<open>satp\<close> token.
\<close>

theorem mapped_page_translates:
  assumes "pt_ok l s" and "unat (vpn_0 v) < 2 ^ 27" and "unat (ppn_0 p) < 2 ^ 44"
    and "pt_map v p f s = Inr (pt, m)" and "va_floor va = v"
  shows "\<exists>pa. pt_translate_va m pt va = Some pa \<and>
    pt_translate_va m (from_token (pt_token pt)) va = Some pa \<and>
    unat (pa_0 pa) = unat (ppn_0 p) * 4096 + unat (va_0 va) mod 4096"
proof -
  note r = pt_map_Inr(2,3) [OF assms(1,2,4)]
  have "pt_lookup (pt, m) v = Some (pte_new p (f OR PTE_V))" using r(2) [OF assms(2)] by simp
  then have tr: "pt_translate m pt (va_floor va) = Some (pte_new p (f OR PTE_V))"
    unfolding assms(5) pt_lookup_translate by simp
  have "pt_ok l (pt, m)" using r(1) by (simp add: pt_ext_def)
  from pt_translate_va_Some [OF tr] pt_translate_root(2) [OF pt_ok_token [OF this]]
  show ?thesis using assms(3) by simp
qed

theorem mapped_page_translates_witness:
  "\<exists>pt m pa. pt_map (VirtPageNum 5) (PhysPageNum 77) PTE_R sample_table = Inr (pt, m) \<and>
     pt_translate_va m (from_token (pt_token pt)) (VirtAddr 0x5123) = Some pa \<and> unat (pa_0 pa) = 0x4d123"
proof -
  have v: "unat (vpn_0 (VirtPageNum 5)) < 2 ^ 27" "unat (ppn_0 (PhysPageNum 77)) < 2 ^ 44" by simp_all
  obtain pt m where t: "pt_map (VirtPageNum 5) (PhysPageNum 77) PTE_R sample_table = Inr (pt, m)"
    using pt_map_total [OF sample_table_ok(1) _ sample_table_ok(2)] sample_table_free by fastforce
  have "va_floor (VirtAddr 0x5123) = VirtPageNum 5" by (simp add: va_floor_def PAGE_SIZE_def)
  from mapped_page_translates [OF sample_table_ok(1) v t this] t show ?thesis by auto
qed

text \<open>
  C9: \<open>translated_byte_buffer\<close> returns for a mapped user range below \<open>2 ^ 39\<close>, and iterating the
  \<open>UserBuffer\<close> built from its result visits exactly the bytes of the range in order: byte
  \<open>k\<close> is where \<open>translate_va\<close> sends address \<open>k\<close>. The buffer's length is the requested one.
\<close>

theorem translated_byte_buffer_correct:
  assumes ok: "pt_ok l (pt, m)" and small: "unat ptr + unat len < 2 ^ 39"
    and mapped: "\<forall>k. unat ptr \<le> k \<and> k < unat ptr + unat len \<longrightarrow> pt_lookup (pt, m) (user_vpn k) \<noteq> None"
  shows "\<exists>v ps. translated_byte_buffer m (pt_token pt) ptr len = Some (Inr v) \<and>
    UserBufferIterator_items (UserBuffer_into_iter \<lparr>buffers = v\<rparr>) = Inr ps \<and>
    UserBuffer_len \<lparr>buffers = v\<rparr> = len \<and> length ps = unat len \<and>
    (\<forall>k < unat len. \<exists>pa. pt_translate_va m pt (VirtAddr (ptr + of_nat k)) = Some pa \<and>
       unat (pa_0 pa) = unat (ppn_0 (fst (ps ! k))) * 4096 + snd (ps ! k))"
proof -
  let ?pt = "from_token (pt_token pt)"
  note root = pt_translate_root [OF pt_ok_token [OF ok]]
  have stop: "unat (ptr + len) = unat ptr + unat len"
    using small by (simp add: unat_add_lem [THEN iffD1])
  have tr: "\<exists>e. pt_translate m pt (user_vpn k) = Some e" if "unat ptr \<le> k" "k < unat ptr + unat len" for k
    using mapped that by (metis not_None_eq pt_lookup_translate)
  have "\<exists>w. translated_byte_buffer_loop m ?pt (ptr + len) ptr [] = Some (Inr ([] @ w)) \<and>
      buffer_addrs w = map (user_addr m ?pt) [unat ptr..<unat (ptr + len)] \<and>
      (\<forall>b \<in> set w. 0 < slice_len b)"
    using small tr by (intro tbb_loop) (auto simp: stop word_le_nat_alt root(1))
  then obtain v where v: "translated_byte_buffer m (pt_token pt) ptr len = Some (Inr v)"
    "buffer_addrs v = map (user_addr m pt) [unat ptr..<unat ptr + unat len]"
    "\<forall>b \<in> set v. 0 < slice_len b"
    by (auto simp: translated_byte_buffer_def stop user_addr_def root(1))
  have "\<exists>pa. pt_translate_va m pt (VirtAddr (of_nat k)) = Some pa \<and>
      unat (pa_0 pa) = unat (ppn_0 (fst (user_addr m pt k))) * 4096 + snd (user_addr m pt k)"
    if k: "unat ptr \<le> k" "k < unat ptr + unat len" for k
  proof -
    obtain e where e: "pt_translate m pt (user_vpn k) = Some e" using tr k by blast
    have kk: "unat (of_nat k :: usize) = k" using k small by (simp add: unat_of_nat)
    have "va_floor (VirtAddr (of_nat k)) = user_vpn k"
      using k small by (intro VirtPageNum.expand word_unat_eqI) (simp add: kk user_vpn_def unat_of_nat)
    with e pt_translate_va_Some [of m pt "VirtAddr (of_nat k)" e] show ?thesis
      by (auto simp: user_addr_def kk)
  qed
  from this [of "unat ptr + _"] have "\<exists>pa. pt_translate_va m pt (VirtAddr (ptr + of_nat k)) = Some pa \<and>
      unat (pa_0 pa) = unat (ppn_0 (fst (user_addr m pt (unat ptr + k)))) * 4096 +
        snd (user_addr m pt (unat ptr + k))"
    if "k < unat len" for k using that by simp
  with v UserBuffer_items [OF v(3)] show ?thesis by (auto simp: UserBuffer_len_addrs)
qed

theorem translated_byte_buffer_correct_witness:
  "\<exists>pt m v ps. translated_byte_buffer m (pt_token pt) 0x5010 0x20 = Some (Inr v) \<and>
     UserBufferIterator_items (UserBuffer_into_iter \<lparr>buffers = v\<rparr>) = Inr ps \<and> length ps = 0x20"
proof -
  have v: "unat (vpn_0 (VirtPageNum 5)) < 2 ^ 27" by simp
  obtain pt m where t: "pt_map (VirtPageNum 5) (PhysPageNum 77) PTE_R sample_table = Inr (pt, m)"
    using pt_map_total [OF sample_table_ok(1) _ sample_table_ok(2)] sample_table_free by fastforce
  note r = pt_map_Inr(2,3) [OF sample_table_ok(1) v t]
  have ok: "pt_ok 1 (pt, m)" using r(1) by (simp add: pt_ext_def)
  have "k div 4096 = 5" if "0x5010 \<le> k" "k < 0x5030" for k :: nat
    using that by (simp add: div_nat_eqI)
  then have mapped: "\<forall>k. unat (0x5010 :: usize) \<le> k \<and> k < unat (0x5010 :: usize) + unat (0x20 :: usize)
      \<longrightarrow> pt_lookup (pt, m) (user_vpn k) \<noteq> None"
    using r(2) [OF v] by (auto simp: user_vpn_def simp del: pt_lookup.simps)
  have "unat (0x5010 :: usize) + unat (0x20 :: usize) < 2 ^ 39" by simp
  from translated_byte_buffer_correct [OF ok this mapped] show ?thesis by auto
qed

text \<open>
  C12: \<open>translated_str\<close> returns the bytes from the user address up to the first NUL, and panics
  when an address before the first NUL has no translation.
\<close>

theorem translated_str_correct:
  assumes "\<forall>k < length bs. user_byte m (from_token token) (ptr + of_nat k) = Some (bs ! k)" and "0 \<notin> set bs"
  shows "(user_byte m (from_token token) (ptr + of_nat (length bs)) = Some 0 \<longrightarrow>
      translated_str m token ptr = Some (Inr bs)) \<and>
    (user_byte m (from_token token) (ptr + of_nat (length bs)) = None \<longrightarrow>
      translated_str m token ptr = Some (Inl Unwrap_None))"
proof -
  have "translated_str m token ptr =
      translated_str_loop m (from_token token) (ptr + of_nat (length bs)) bs"
    using translated_str_loop_chars [of bs m "from_token token" ptr "[]"] assms
    by (simp add: translated_str_def)
  then show ?thesis by (simp add: translated_str_loop_byte [of _ _ _ bs])
qed

text \<open>A one-page table whose entry 0 maps page 0 to the table's own page.\<close>

definition loop_page :: page where
  "loop_page = [1, 4] @ replicate 4094 0"

definition loop_machine :: machine where
  "loop_machine = \<lparr>pmem = (\<lambda>_. loop_page), falloc = sfa_new\<rparr>"

lemma loop_translate:
  assumes "a < 4096"
  shows "user_byte loop_machine (from_token 1) a = Some (loop_page ! unat a)"
proof -
  have "replicate 6 (0 :: u8) = [0, 0, 0, 0, 0, 0]" by (simp add: numeral_eq_Suc)
  then have "read_u 8 loop_page 0 = 1025" by (simp add: read_u_def slice_def loop_page_def)
  then have rd: "read_pte loop_machine p 0 = \<lparr>pte_bits = 1025\<rparr>" for p
    by (simp add: read_pte_def get_bytes_array_def loop_machine_def)
  have val: "pte_is_valid \<lparr>pte_bits = 1025\<rparr>" "pte_ppn \<lparr>pte_bits = 1025\<rparr> = PhysPageNum 1"
    by (simp_all add: pte_is_valid_def pte_flags_def PTE_V_def pte_ppn_def PhysPageNum_from_def
        config_defs take_bit_eq_mod)
  have a: "unat a < 4096" using assms by (simp add: word_less_nat_alt)
  have z: "va_floor (VirtAddr_from a) = VirtPageNum 0"
    using a by (intro VirtPageNum.expand word_unat_eqI) simp
  have "pt_translate loop_machine (from_token 1) (va_floor (VirtAddr_from a)) = Some \<lparr>pte_bits = 1025\<rparr>"
    unfolding z by (simp add: pt_translate_def find_pte_def indexes_eq rd val)
  from pt_translate_va_Some [OF this] obtain pa where
    "pt_translate_va loop_machine (from_token 1) (VirtAddr_from a) = Some pa"
    "unat (pa_0 pa) = 4096 + unat a" using a by (auto simp: val)
  moreover from this a have "unat (pa_0 pa mod 4096) = unat a" "pa_0 pa \<noteq> 0"
    by (auto simp: unat_mod)
  ultimately show ?thesis by (simp add: user_byte_def phys_read_byte_def loop_machine_def)
qed

theorem translated_str_correct_witness:
  "translated_str loop_machine 1 0 = Some (Inr [1, 4])"
proof -
  have "\<forall>k < length [1, 4 :: u8].
      user_byte loop_machine (from_token 1) (0 + of_nat k) = Some ([1, 4] ! k)"
    using loop_translate [of 0] loop_translate [of 1] by (auto simp: loop_page_def less_Suc_eq)
  moreover have "user_byte loop_machine (from_token 1) (0 + of_nat (length [1, 4 :: u8])) = Some 0"
    using loop_translate [of 2] by (simp add: loop_page_def)
  ultimately show ?thesis
    using translated_str_correct [of "[1, 4]" loop_machine 1 0] by simp
qed

end
