(* ===== verification/Memory_Set.thy ===== *)
theory Memory_Set
  imports Translation
begin

text \<open>
  Logical segments and address spaces (\<open>os/src/memory/memory_set.rs\<close>). A value of type
  \<open>PageTable \<times> machine\<close> is the page table of the address space with the physical memory and the frame
  allocator it lives in. A \<open>BTreeMap\<close> is its list of entries in the order of the keys, the order
  in which it is also dropped; a \<open>FrameTracker\<close> is the page number it releases when dropped.
  Symbols that the linker defines are the fields of \<open>linker_symbols\<close>; the ELF reader is the crate
  \<open>xmas_elf\<close>, whose result is the record \<open>elf_file\<close>.
\<close>

unbundle bit_operations_syntax

section \<open>BTreeMap\<close>

fun btree_insert :: "('k :: linorder) \<Rightarrow> 'v \<Rightarrow> ('k \<times> 'v) list \<Rightarrow> ('k \<times> 'v) list \<times> 'v option" where
  "btree_insert k v [] = ([(k, v)], None)"
| "btree_insert k v ((k', v') # es) =
     (if k < k' then ((k, v) # (k', v') # es, None)
      else if k = k' then ((k, v) # es, Some v')
      else let (es', old) = btree_insert k v es in ((k', v') # es', old))"

fun btree_remove :: "('k :: linorder) \<Rightarrow> ('k \<times> 'v) list \<Rightarrow> ('k \<times> 'v) list \<times> 'v option" where
  "btree_remove k [] = ([], None)"
| "btree_remove k ((k', v') # es) =
     (if k = k' then (es, Some v') else let (es', old) = btree_remove k es in ((k', v') # es', old))"

section \<open>Segments\<close>

datatype MapType = Identical | Framed

type_synonym MapPermission = u8

definition MP_R :: MapPermission where "MP_R = push_bit 1 1"
definition MP_W :: MapPermission where "MP_W = push_bit 2 1"
definition MP_X :: MapPermission where "MP_X = push_bit 3 1"
definition MP_U :: MapPermission where "MP_U = push_bit 4 1"

record MapArea =
  vpn_range :: VPNRange
  data_frames :: "(VirtPageNum \<times> PhysPageNum) list"
  map_type :: MapType
  map_perm :: MapPermission

definition MapArea_new :: "VirtAddr \<Rightarrow> VirtAddr \<Rightarrow> MapType \<Rightarrow> MapPermission \<Rightarrow> MapArea res" where
  "MapArea_new start_va end_va ty perm =
     (let start_vpn = va_floor start_va;
          end_vpn = va_ceil end_va
      in rbind (VPNRange_new start_vpn end_vpn) (\<lambda>r.
         Inr \<lparr>vpn_range = r, data_frames = [], map_type = ty, map_perm = perm\<rparr>))"

definition MapArea_from_another :: "MapArea \<Rightarrow> MapArea res" where
  "MapArea_from_another another =
     rbind (VPNRange_new (get_start (vpn_range another)) (get_end (vpn_range another))) (\<lambda>r.
     Inr \<lparr>vpn_range = r, data_frames = [], map_type = map_type another, map_perm = map_perm another\<rparr>)"

definition drop_frame :: "PhysPageNum option \<Rightarrow> machine \<Rightarrow> machine res" where
  "drop_frame f m = (case f of None \<Rightarrow> Inr m | Some p \<Rightarrow> frame_dealloc p m)"

type_synonym space = "PageTable \<times> machine"

definition map_one :: "VirtPageNum \<Rightarrow> MapArea \<times> space \<Rightarrow> (MapArea \<times> space) res" where
  "map_one vpn = (\<lambda>(area, pt, m).
     rbind (case map_type area of
              Identical \<Rightarrow> Inr (PhysPageNum (vpn_0 vpn), area, m)
            | Framed \<Rightarrow>
                let (frame, m) = frame_alloc m
                in rbind (runwrap frame) (\<lambda>ppn.
                   let (frames, old) = btree_insert vpn ppn (data_frames area)
                   in rbind (drop_frame old m) (\<lambda>m.
                      Inr (ppn, area\<lparr>data_frames := frames\<rparr>, m)))) (\<lambda>(ppn, area, m).
     rbind (runwrap (PTEFlags_from_bits (map_perm area))) (\<lambda>pte_flags.
     rbind (pt_map vpn ppn pte_flags (pt, m)) (\<lambda>s.
     Inr (area, s)))))"

definition unmap_one :: "VirtPageNum \<Rightarrow> MapArea \<times> space \<Rightarrow> (MapArea \<times> space) res" where
  "unmap_one vpn = (\<lambda>(area, pt, m).
     rbind (if map_type area = Framed
            then let (frames, old) = btree_remove vpn (data_frames area)
                 in rbind (drop_frame old m) (\<lambda>m. Inr (area\<lparr>data_frames := frames\<rparr>, m))
            else Inr (area, m)) (\<lambda>(area, m).
     rbind (pt_unmap vpn (pt, m)) (\<lambda>s.
     Inr (area, s))))"

definition area_map :: "MapArea \<times> space \<Rightarrow> (MapArea \<times> space) res" where
  "area_map st = rfold map_one (range_vpns (vpn_range (fst st))) st"

definition area_unmap :: "MapArea \<times> space \<Rightarrow> (MapArea \<times> space) res" where
  "area_unmap st = rfold unmap_one (range_vpns (vpn_range (fst st))) st"

text \<open>
  The loop of \<open>copy_data\<close>: \<open>data[start..min(len, start + PAGE_SIZE)]\<close> is copied to the frame of the
  current page. A slice is shorter than \<open>isize::MAX\<close>, so \<open>start\<close> does not wrap.
\<close>

function copy_data_loop :: "PageTable \<Rightarrow> u8 list \<Rightarrow> nat \<Rightarrow> VirtPageNum \<Rightarrow> machine \<Rightarrow> machine res" where
  "copy_data_loop pt data start current_vpn m =
     (let src = slice start (unat PAGE_SIZE) data
      in rbind (runwrap (pt_translate m pt current_vpn)) (\<lambda>pte.
         let ppn = pte_ppn pte;
             m = set_bytes_array ppn (splice 0 src (get_bytes_array m ppn)) m
         in if length data \<le> start + unat PAGE_SIZE then Inr m
            else copy_data_loop pt data (start + unat PAGE_SIZE) (vpn_step current_vpn) m))"
  by pat_completeness auto
termination
  by (relation "measure (\<lambda>(_, data, start, _). length data - start)") (auto simp: PAGE_SIZE_def)

declare copy_data_loop.simps [simp del]

definition copy_data :: "u8 list \<Rightarrow> MapArea \<times> space \<Rightarrow> machine res" where
  "copy_data data = (\<lambda>(area, pt, m).
     rbind (rassert (map_type area = Framed)) (\<lambda>_.
     copy_data_loop pt data 0 (get_start (vpn_range area)) m))"

text \<open>Dropping a segment releases its frames in the order of the page numbers.\<close>

definition area_drop :: "MapArea \<Rightarrow> machine \<Rightarrow> machine res" where
  "area_drop area m = drop_all frame_dealloc (map snd (data_frames area)) m"

section \<open>Address spaces\<close>

record MemorySet =
  page_table :: PageTable
  areas :: "MapArea list"

definition new_bare :: "machine \<Rightarrow> (MemorySet \<times> machine) res" where
  "new_bare m = rbind (pt_new m) (\<lambda>(pt, m). Inr (\<lparr>page_table = pt, areas = []\<rparr>, m))"

definition ms_token :: "MemorySet \<Rightarrow> usize" where
  "ms_token ms = pt_token (page_table ms)"

definition ms_translate :: "machine \<Rightarrow> MemorySet \<Rightarrow> VirtPageNum \<Rightarrow> PageTableEntry option" where
  "ms_translate m ms vpn = pt_translate m (page_table ms) vpn"

definition ms_push :: "MapArea \<Rightarrow> u8 list option \<Rightarrow> MemorySet \<times> machine \<Rightarrow> (MemorySet \<times> machine) res" where
  "ms_push map_area data = (\<lambda>(ms, m).
     rbind (area_map (map_area, page_table ms, m)) (\<lambda>(map_area, pt, m).
     rbind (case data of None \<Rightarrow> Inr m | Some data \<Rightarrow> copy_data data (map_area, pt, m)) (\<lambda>m.
     Inr (ms\<lparr>page_table := pt, areas := vec_push (areas ms) map_area\<rparr>, m))))"

definition map_trampoline :: "usize \<Rightarrow> MemorySet \<times> machine \<Rightarrow> (MemorySet \<times> machine) res" where
  "map_trampoline strampoline = (\<lambda>(ms, m).
     rbind (vpn_of_va (VirtAddr_from TRAMPOLINE)) (\<lambda>vpn.
     rbind (ppn_of_pa (PhysAddr_from strampoline)) (\<lambda>ppn.
     rbind (pt_map vpn ppn (PTE_R OR PTE_X) (page_table ms, m)) (\<lambda>(pt, m).
     Inr (ms\<lparr>page_table := pt\<rparr>, m)))))"

definition remove_area_with_start_vpn :: "VirtPageNum \<Rightarrow> MemorySet \<times> machine \<Rightarrow> (MemorySet \<times> machine) res" where
  "remove_area_with_start_vpn start_vpn = (\<lambda>(ms, m).
     case find_index (\<lambda>area. get_start (vpn_range area) = start_vpn) (areas ms) of
       None \<Rightarrow> Inr (ms, m)
     | Some idx \<Rightarrow>
         rbind (area_unmap (areas ms ! idx, page_table ms, m)) (\<lambda>(area, pt, m).
         rbind (area_drop area m) (\<lambda>m.
         Inr (\<lparr>page_table = pt, areas = take idx (areas ms) @ drop (Suc idx) (areas ms)\<rparr>, m))))"

definition insert_framed_area ::
  "VirtAddr \<Rightarrow> VirtAddr \<Rightarrow> MapPermission \<Rightarrow> MemorySet \<times> machine \<Rightarrow> (MemorySet \<times> machine) res" where
  "insert_framed_area start_va end_va permission st =
     rbind (MapArea_new start_va end_va Framed permission) (\<lambda>area. ms_push area None st)"

section \<open>The kernel's address space\<close>

record linker_symbols =
  stext :: usize
  etext :: usize
  srodata :: usize
  erodata :: usize
  sdata :: usize
  edata :: usize
  sbss_with_stack :: usize
  ebss :: usize
  ekernel :: usize
  strampoline :: usize

text \<open>The register windows of the default board (\<open>boards/qemu.rs\<close>) and of the K210 board.\<close>

definition MMIO_qemu :: "(usize \<times> usize) list" where
  "MMIO_qemu = [(0x10001000, 0x1000)]"

definition MMIO_k210 :: "(usize \<times> usize) list" where
  "MMIO_k210 =
     [(0x0C000000, 0x3000), (0x0C200000, 0x1000), (0x38000000, 0x1000), (0x38001000, 0x1000),
      (0x50200000, 0x1000), (0x50240000, 0x1000), (0x502B0000, 0x1000), (0x502D0000, 0x1000),
      (0x502E0000, 0x1000), (0x502F0000, 0x1000), (0x50440000, 0x1000), (0x52000000, 0x1000),
      (0x53000000, 0x1000), (0x54000000, 0x1000)]"

definition push_identical ::
  "usize \<Rightarrow> usize \<Rightarrow> MapPermission \<Rightarrow> MemorySet \<times> machine \<Rightarrow> (MemorySet \<times> machine) res" where
  "push_identical start stop perm st =
     rbind (MapArea_new (VirtAddr_from start) (VirtAddr_from stop) Identical perm) (\<lambda>area.
     ms_push area None st)"

definition new_kernel :: "linker_symbols \<Rightarrow> (usize \<times> usize) list \<Rightarrow> machine \<Rightarrow> (MemorySet \<times> machine) res" where
  "new_kernel syms MMIO m =
     rbind (new_bare m) (\<lambda>st.
     rbind (map_trampoline (strampoline syms) st) (\<lambda>st.
     rbind (push_identical (stext syms) (etext syms) (MP_R OR MP_X) st) (\<lambda>st.
     rbind (push_identical (srodata syms) (erodata syms) MP_R st) (\<lambda>st.
     rbind (push_identical (sdata syms) (edata syms) (MP_R OR MP_W) st) (\<lambda>st.
     rbind (push_identical (sbss_with_stack syms) (ebss syms) (MP_R OR MP_W) st) (\<lambda>st.
     rbind (push_identical (ekernel syms) MEMORY_END (MP_R OR MP_W) st) (\<lambda>st.
     rfold (\<lambda>pair. push_identical (fst pair) (fst pair + snd pair) (MP_R OR MP_W)) MMIO st)))))))"

definition remap_test :: "linker_symbols \<Rightarrow> MemorySet \<times> machine \<Rightarrow> unit res" where
  "remap_test syms = (\<lambda>(kernel_space, m).
     let mid_text = VirtAddr_from ((stext syms + etext syms) div 2);
         mid_rodata = VirtAddr_from ((srodata syms + erodata syms) div 2);
         mid_data = VirtAddr_from ((sdata syms + edata syms) div 2)
     in rbind (runwrap (ms_translate m kernel_space (va_floor mid_text))) (\<lambda>pte.
        rbind (rassert (\<not> pte_writable pte)) (\<lambda>_.
        rbind (runwrap (ms_translate m kernel_space (va_floor mid_rodata))) (\<lambda>pte.
        rbind (rassert (\<not> pte_writable pte)) (\<lambda>_.
        rbind (runwrap (ms_translate m kernel_space (va_floor mid_data))) (\<lambda>pte.
        rassert (\<not> pte_executable pte)))))))"

section \<open>Application address spaces\<close>

text \<open>
  What \<open>from_elf\<close> uses of a parsed ELF file: the magic bytes, the program headers in order (\<open>None\<close>
  where the reader reports an error) and the entry point. A header carries whether its type is
  \<open>Load\<close> (\<open>None\<close> where the type is not valid).
\<close>

record program_header =
  ph_is_load :: "bool option"
  ph_virtual_addr :: usize
  ph_mem_size :: usize
  ph_read :: bool
  ph_write :: bool
  ph_execute :: bool
  ph_offset :: usize
  ph_file_size :: usize

record elf_file =
  elf_magic :: "u8 list"
  elf_headers :: "program_header option list"
  elf_entry :: usize

definition elf_perm :: "program_header \<Rightarrow> MapPermission" where
  "elf_perm ph =
     (let perm = MP_U;
          perm = if ph_read ph then perm OR MP_R else perm;
          perm = if ph_write ph then perm OR MP_W else perm;
          perm = if ph_execute ph then perm OR MP_X else perm
      in perm)"

definition load_segment ::
  "u8 list \<Rightarrow> program_header option \<Rightarrow> VirtPageNum \<times> MemorySet \<times> machine \<Rightarrow>
   (VirtPageNum \<times> MemorySet \<times> machine) res" where
  "load_segment input header = (\<lambda>(max_end_vpn, st).
     rbind (runwrap header) (\<lambda>ph.
     rbind (runwrap (ph_is_load ph)) (\<lambda>is_load.
     if is_load then
       let start_va = VirtAddr_from (ph_virtual_addr ph);
           end_va = VirtAddr_from (ph_virtual_addr ph + ph_mem_size ph);
           stop = ph_offset ph + ph_file_size ph
       in rbind (MapArea_new start_va end_va Framed (elf_perm ph)) (\<lambda>map_area.
          rbind (if ph_offset ph \<le> stop \<and> unat stop \<le> length input
                 then Inr (slice (unat (ph_offset ph)) (unat (ph_file_size ph)) input)
                 else Inl Index_Out_Of_Range) (\<lambda>data.
          rbind (ms_push map_area (Some data) st) (\<lambda>st.
          Inr (get_end (vpn_range map_area), st))))
     else Inr (max_end_vpn, st))))"

definition from_elf ::
  "usize \<Rightarrow> (u8 list \<Rightarrow> elf_file option) \<Rightarrow> u8 list \<Rightarrow> machine \<Rightarrow> ((MemorySet \<times> usize \<times> usize) \<times> machine) res" where
  "from_elf strampoline_addr parse elf_data m =
     rbind (new_bare m) (\<lambda>st.
     rbind (map_trampoline strampoline_addr st) (\<lambda>st.
     rbind (runwrap (parse elf_data)) (\<lambda>elf.
     rbind (rassert (elf_magic elf = [0x7f, 0x45, 0x4c, 0x46])) (\<lambda>_.
     rbind (rfold (load_segment elf_data) (elf_headers elf) (VirtPageNum 0, st)) (\<lambda>(max_end_vpn, st).
     let max_end_va = va_of_vpn max_end_vpn;
         user_stack_bottom = va_0 max_end_va + PAGE_SIZE;
         user_stack_top = user_stack_bottom + USER_STACK_SIZE
     in rbind (MapArea_new (VirtAddr_from user_stack_bottom) (VirtAddr_from user_stack_top) Framed
                 (MP_R OR MP_W OR MP_U)) (\<lambda>stack_area.
        rbind (ms_push stack_area None st) (\<lambda>st.
        rbind (MapArea_new (VirtAddr_from TRAP_CONTEXT) (VirtAddr_from TRAMPOLINE) Framed
                 (MP_R OR MP_W)) (\<lambda>trap_area.
        rbind (ms_push trap_area None st) (\<lambda>(ms, m).
        Inr ((ms, user_stack_top, elf_entry elf), m))))))))))"

definition copy_page :: "MemorySet \<Rightarrow> MemorySet \<Rightarrow> VirtPageNum \<Rightarrow> machine \<Rightarrow> machine res" where
  "copy_page user_space ms vpn m =
     rbind (runwrap (ms_translate m user_space vpn)) (\<lambda>src.
     rbind (runwrap (ms_translate m ms vpn)) (\<lambda>dst.
     Inr (set_bytes_array (pte_ppn dst) (get_bytes_array m (pte_ppn src)) m)))"

definition copy_area :: "MemorySet \<Rightarrow> MapArea \<Rightarrow> MemorySet \<times> machine \<Rightarrow> (MemorySet \<times> machine) res" where
  "copy_area user_space area st =
     rbind (MapArea_from_another area) (\<lambda>new_area.
     rbind (ms_push new_area None st) (\<lambda>(ms, m).
     rbind (rfold (copy_page user_space ms) (range_vpns (vpn_range area)) m) (\<lambda>m.
     Inr (ms, m))))"

definition from_existed_user :: "usize \<Rightarrow> MemorySet \<Rightarrow> machine \<Rightarrow> (MemorySet \<times> machine) res" where
  "from_existed_user strampoline_addr user_space m =
     rbind (new_bare m) (\<lambda>st.
     rbind (map_trampoline strampoline_addr st) (\<lambda>st.
     rfold (copy_area user_space) (areas user_space) st))"

definition recycle_data_pages :: "MemorySet \<times> machine \<Rightarrow> (MemorySet \<times> machine) res" where
  "recycle_data_pages = (\<lambda>(ms, m).
     rbind (rfold area_drop (areas ms) m) (\<lambda>m.
     Inr (ms\<lparr>areas := []\<rparr>, m)))"

text \<open>Dropping an address space drops the frames of its page table, then its segments.\<close>

definition ms_drop :: "MemorySet \<Rightarrow> machine \<Rightarrow> machine res" where
  "ms_drop ms m =
     rbind (drop_all frame_dealloc (pt_frames (page_table ms)) m) (\<lambda>m.
     rfold area_drop (areas ms) m)"

end
