(* ===== verification/Pid.thy ===== *)
theory Pid
  imports Memory_Set
begin

text \<open>
  Process identifiers and kernel stacks (\<open>os/src/task/pid.rs\<close>). The allocator is an instance of
  the recycling allocators' contract; every identifier owns a stack in the kernel's address space
  at a position computed from it.
\<close>

section \<open>PidAllocator\<close>

record PidAllocator =
  pid_current :: usize
  pid_recycled :: "usize list"

definition PidAllocator_new :: PidAllocator where
  "PidAllocator_new = \<lparr>pid_current = 0, pid_recycled = []\<rparr>"

definition pid_alloc :: "PidAllocator \<Rightarrow> usize \<times> PidAllocator" where
  "pid_alloc a =
     (case vec_pop (pid_recycled a) of
        Some (pid, rest) \<Rightarrow> (pid, a\<lparr>pid_recycled := rest\<rparr>)
      | None \<Rightarrow> (let a = a\<lparr>pid_current := pid_current a + 1\<rparr> in (pid_current a - 1, a)))"

definition pid_dealloc :: "usize \<Rightarrow> PidAllocator \<Rightarrow> PidAllocator res" where
  "pid_dealloc pid a =
     rbind (rassert (pid < pid_current a)) (\<lambda>_.
     rbind (rassert (List.find (\<lambda>ppid. ppid = pid) (pid_recycled a) = None)) (\<lambda>_.
     Inr (a\<lparr>pid_recycled := vec_push (pid_recycled a) pid\<rparr>)))"

section \<open>Kernel stacks\<close>

definition kernel_stack_position :: "usize \<Rightarrow> usize \<times> usize" where
  "kernel_stack_position app_id =
     (let top = TRAMPOLINE - app_id * (KERNEL_STACK_SIZE + PAGE_SIZE);
          bottom = top - KERNEL_STACK_SIZE
      in (bottom, top))"

definition KernelStack_new :: "usize \<Rightarrow> MemorySet \<times> machine \<Rightarrow> (MemorySet \<times> machine) res" where
  "KernelStack_new pid st =
     (let (kernel_stack_bottom, kernel_stack_top) = kernel_stack_position pid
      in insert_framed_area (VirtAddr_from kernel_stack_bottom) (VirtAddr_from kernel_stack_top)
           (MP_R OR MP_W) st)"

definition KernelStack_get_top :: "usize \<Rightarrow> usize" where
  "KernelStack_get_top pid = snd (kernel_stack_position pid)"

definition KernelStack_push_on_top :: "usize \<Rightarrow> usize \<Rightarrow> usize" where
  "KernelStack_push_on_top type_size pid = KernelStack_get_top pid - type_size"

definition KernelStack_drop :: "usize \<Rightarrow> MemorySet \<times> machine \<Rightarrow> (MemorySet \<times> machine) res" where
  "KernelStack_drop pid st =
     (let (kernel_stack_bottom, _) = kernel_stack_position pid
      in rbind (vpn_of_va (VirtAddr_from kernel_stack_bottom)) (\<lambda>vpn.
         remove_area_with_start_vpn vpn st))"

section \<open>The allocator's contract\<close>

definition pid_inv :: "PidAllocator \<Rightarrow> bool" where
  "pid_inv a \<longleftrightarrow> distinct (pid_recycled a) \<and> (\<forall>p \<in> set (pid_recycled a). p < pid_current a)"

definition pid_live :: "PidAllocator \<Rightarrow> usize set" where
  "pid_live a = {p. p < pid_current a \<and> p \<notin> set (pid_recycled a)}"

text \<open>A fresh identifier exists as long as the counter does not wrap.\<close>

definition pid_room :: "PidAllocator \<Rightarrow> bool" where
  "pid_room a \<longleftrightarrow> pid_recycled a \<noteq> [] \<or> pid_current a \<noteq> - 1"

definition pid_alloc_opt :: "PidAllocator \<Rightarrow> usize option \<times> PidAllocator" where
  "pid_alloc_opt a = (let (p, a) = pid_alloc a in (Some p, a))"

lemma less_max_step: "(c :: usize) \<noteq> - 1 \<Longrightarrow> c < - 1"
  by (simp add: order.not_eq_order_implies_strict)

lemma pid_alloc_live:
  assumes inv: "pid_inv a" and room: "pid_room a" and al: "pid_alloc a = (p, a')"
  shows "p \<notin> pid_live a" "pid_live a' = insert p (pid_live a)" "pid_inv a'"
proof -
  have "p \<notin> pid_live a \<and> pid_live a' = insert p (pid_live a) \<and> pid_inv a'"
  proof (cases "pid_recycled a" rule: rev_cases)
    case (snoc ps q)
    then have "p = q" "a' = a\<lparr>pid_recycled := ps\<rparr>" using al by (simp_all add: pid_alloc_def vec_pop_def)
    then show ?thesis using inv snoc by (auto simp: pid_inv_def pid_live_def)
  next
    case Nil
    then have a': "p = pid_current a" "a' = a\<lparr>pid_current := pid_current a + 1\<rparr>" "pid_current a \<noteq> - 1"
      using al room by (auto simp: pid_alloc_def vec_pop_def Let_def pid_room_def)
    have "q < pid_current a + 1 \<longleftrightarrow> q < pid_current a \<or> q = pid_current a" for q
      by (rule word_less_step [OF less_max_step [OF a'(3)]])
    then show ?thesis using a' Nil by (auto simp: pid_inv_def pid_live_def)
  qed
  then show "p \<notin> pid_live a" "pid_live a' = insert p (pid_live a)" "pid_inv a'" by auto
qed

lemma pid_dealloc_eq:
  "pid_dealloc p a = (if p \<in> pid_live a then Inr (a\<lparr>pid_recycled := vec_push (pid_recycled a) p\<rparr>)
     else Inl Assertion_Failed)"
  by (auto simp: pid_dealloc_def pid_live_def rassert_def find_None_iff find_Some_iff)

interpretation pids: id_allocator pid_alloc_opt pid_dealloc pid_live pid_inv pid_room UNIV
proof unfold_locales
  fix s i s'
  assume "pid_inv s" "pid_room s" "pid_alloc_opt s = (Some i, s')"
  then show "i \<notin> pid_live s \<and> i \<in> UNIV \<and> pid_live s' = insert i (pid_live s) \<and> pid_inv s'"
    using pid_alloc_live [of s i s'] by (auto simp: pid_alloc_opt_def split: prod.splits)
next
  fix s i
  assume "pid_inv s" "i \<in> pid_live s"
  then show "\<exists>s'. pid_dealloc i s = Inr s' \<and> pid_live s' = pid_live s - {i} \<and> pid_inv s'"
    by (auto simp: pid_dealloc_eq pid_live_def pid_inv_def)
next
  fix s i
  assume "i \<notin> pid_live s"
  then show "\<exists>e. pid_dealloc i s = Inl e" by (simp add: pid_dealloc_eq)
qed

section \<open>Positions of the stacks\<close>

lemma unat_kernel_stack:
  assumes "unat pid < 2 ^ 25"
  shows "unat (snd (kernel_stack_position pid)) = 2 ^ 64 - 4096 - unat pid * 12288"
    and "unat (fst (kernel_stack_position pid)) = 2 ^ 64 - 4096 - unat pid * 12288 - 8192"
proof -
  have T: "unat TRAMPOLINE = 2 ^ 64 - 4096"
    by (simp add: TRAMPOLINE_def usize_MAX_def PAGE_SIZE_def)
  have S: "KERNEL_STACK_SIZE + PAGE_SIZE = 12288" by (simp add: KERNEL_STACK_SIZE_def PAGE_SIZE_def)
  have m: "unat (pid * 12288) = unat pid * 12288" using assms by (subst unat_mult_lem [THEN iffD1]) simp_all
  have le: "pid * 12288 \<le> TRAMPOLINE" unfolding word_le_nat_alt m T using assms by simp
  have top: "unat (TRAMPOLINE - pid * 12288) = 2 ^ 64 - 4096 - unat pid * 12288"
    unfolding unat_sub [OF le] m T by (rule refl)
  then show "unat (snd (kernel_stack_position pid)) = 2 ^ 64 - 4096 - unat pid * 12288"
    by (simp add: kernel_stack_position_def Let_def S)
  have "KERNEL_STACK_SIZE \<le> TRAMPOLINE - pid * 12288"
    unfolding word_le_nat_alt top using assms by (simp add: KERNEL_STACK_SIZE_def)
  from unat_sub [OF this] top show "unat (fst (kernel_stack_position pid)) = 2 ^ 64 - 4096 - unat pid * 12288 - 8192"
    by (simp add: kernel_stack_position_def Let_def S) (simp add: KERNEL_STACK_SIZE_def)
qed


section \<open>Properties\<close>

text \<open>
  C19: Process identifiers. From a well-formed allocator with room, \<open>alloc\<close> returns an identifier that
  no live process has and marks exactly it as live; \<open>dealloc\<close> of a live identifier releases exactly
  it, and \<open>dealloc\<close> of any other identifier, a second release included, panics.
\<close>

theorem pid_alloc_unique:
  assumes "pid_inv a" and "pid_room a"
  shows "fst (pid_alloc a) \<notin> pid_live a \<and>
    pid_live (snd (pid_alloc a)) = insert (fst (pid_alloc a)) (pid_live a) \<and> pid_inv (snd (pid_alloc a)) \<and>
    (\<forall>p \<in> pid_live a. \<exists>a'. pid_dealloc p a = Inr a' \<and> pid_live a' = pid_live a - {p} \<and> pid_inv a' \<and>
       (\<exists>e. pid_dealloc p a' = Inl e)) \<and>
    (\<forall>p. p \<notin> pid_live a \<longrightarrow> (\<exists>e. pid_dealloc p a = Inl e))"
proof -
  have "\<exists>e. pid_dealloc p a' = Inl e" if "pid_dealloc p a = Inr a'" for p a'
    using pids.no_double_dealloc [OF assms(1) _ that] by simp
  then show ?thesis
    using pid_alloc_live [OF assms, of "fst (pid_alloc a)" "snd (pid_alloc a)"]
      pids.dealloc_live [OF assms(1)] pids.dealloc_dead [OF assms(1)] by (metis UNIV_I prod.collapse)
qed

theorem pid_alloc_unique_witness:
  "fst (pid_alloc \<lparr>pid_current = 3, pid_recycled = [1]\<rparr>) \<notin> {0, 2 :: usize}"
proof -
  have inv: "pid_inv \<lparr>pid_current = 3, pid_recycled = [1]\<rparr>" "pid_room \<lparr>pid_current = 3, pid_recycled = [1]\<rparr>"
    by (simp_all add: pid_inv_def pid_room_def)
  have "{0, 2} \<subseteq> pid_live \<lparr>pid_current = 3, pid_recycled = [1]\<rparr>" by (simp add: pid_live_def)
  with pid_alloc_unique [OF inv] show ?thesis by blast
qed

text \<open>The segment that \<open>KernelStack::new\<close> inserts for an identifier.\<close>

definition stack_area :: "usize \<Rightarrow> MapArea res" where
  "stack_area pid =
     (let (kernel_stack_bottom, kernel_stack_top) = kernel_stack_position pid
      in MapArea_new (VirtAddr_from kernel_stack_bottom) (VirtAddr_from kernel_stack_top) Framed (MP_R OR MP_W))"

lemma KernelStack_new_area: "KernelStack_new pid st = rbind (stack_area pid) (\<lambda>area. ms_push area None st)"
  by (simp add: KernelStack_new_def stack_area_def insert_framed_area_def split: prod.splits)

lemma top_address_mod:
  assumes "x \<le> 2 ^ 39" and "0 < (x :: nat)"
  shows "(2 ^ 64 - x) mod 2 ^ 39 = 2 ^ 39 - x"
proof -
  have "2 ^ 64 - x = (2 ^ 39 - x) + (2 ^ 25 - 1) * 2 ^ 39" using assms by simp
  moreover have "(2 ^ 39 - x) mod 2 ^ 39 = 2 ^ 39 - x" using assms by simp
  ultimately show ?thesis by (simp only: mod_mult_self1)
qed

lemma stack_area_pages:
  assumes "unat pid < 2 ^ 25"
  shows "\<exists>A. stack_area pid = Inr A \<and>
    map (\<lambda>v. unat (vpn_0 v)) (range_vpns (vpn_range A)) = [2 ^ 27 - 3 - 3 * unat pid, 2 ^ 27 - 2 - 3 * unat pid]"
proof -
  let ?q = "unat pid"
  obtain b t where pos: "kernel_stack_position pid = (b, t)" by fastforce
  note u = unat_kernel_stack [OF assms, unfolded pos fst_conv snd_conv]
  have vb: "unat (va_0 (VirtAddr_from b)) = 2 ^ 39 - 4096 * (3 + 3 * ?q)"
    using top_address_mod [of "12288 + ?q * 12288"] u(2) assms by simp
  have vt: "unat (va_0 (VirtAddr_from t)) = 2 ^ 39 - 4096 * (1 + 3 * ?q)"
    using top_address_mod [of "4096 + ?q * 12288"] u(1) assms by simp
  have lb: "unat (vpn_0 (va_floor (VirtAddr_from b))) = 2 ^ 27 - 3 - 3 * ?q"
  proof -
    have "2 ^ 39 - 4096 * (3 + 3 * ?q) = 4096 * (2 ^ 27 - 3 - 3 * ?q)" using assms by simp
    then show ?thesis unfolding unat_va_floor vb by simp
  qed
  have lt: "unat (vpn_0 (va_ceil (VirtAddr_from t))) = 2 ^ 27 - 1 - 3 * ?q"
  proof -
    have "2 ^ 39 - 4096 * (1 + 3 * ?q) + 4095 = 4095 + 4096 * (2 ^ 27 - 1 - 3 * ?q)" using assms by simp
    moreover have "unat (va_0 (VirtAddr_from t)) + 4095 < 2 ^ 64" unfolding vt using assms by simp
    ultimately show ?thesis unfolding unat_va_ceil [OF \<open>unat (va_0 (VirtAddr_from t)) + 4095 < 2 ^ 64\<close>] vt by simp
  qed
  let ?r = "\<lparr>l_vpn = va_floor (VirtAddr_from b), r_vpn = va_ceil (VirtAddr_from t)\<rparr>"
  have le: "va_floor (VirtAddr_from b) \<le> va_ceil (VirtAddr_from t)"
    unfolding less_eq_VirtPageNum_def word_le_nat_alt lb lt by simp
  have "2 ^ 27 - 1 - 3 * ?q = Suc (Suc (2 ^ 27 - 3 - 3 * ?q))" using assms by simp
  moreover have "map (\<lambda>v. unat (vpn_0 v)) (range_vpns ?r) = [2 ^ 27 - 3 - 3 * ?q ..< 2 ^ 27 - 1 - 3 * ?q]"
    using range_vpns_unat [of ?r] le unfolding lb [symmetric] lt [symmetric] by (simp only: VPNRange.simps)
  ultimately have "map (\<lambda>v. unat (vpn_0 v)) (range_vpns ?r) = [2 ^ 27 - 3 - 3 * ?q, Suc (2 ^ 27 - 3 - 3 * ?q)]"
    by (simp only: upt_Suc) simp
  moreover have "Suc (2 ^ 27 - 3 - 3 * ?q) = 2 ^ 27 - 2 - 3 * ?q" using assms by simp
  ultimately have "map (\<lambda>v. unat (vpn_0 v)) (range_vpns ?r) = [2 ^ 27 - 3 - 3 * ?q, 2 ^ 27 - 2 - 3 * ?q]"
    by (simp only:)
  moreover have "stack_area pid = Inr \<lparr>vpn_range = ?r, data_frames = [], map_type = Framed, map_perm = MP_R OR MP_W\<rparr>"
    unfolding stack_area_def pos MapArea_new_def VPNRange_new_def Let_def prod.case
    using le by (simp only: rassert_def if_True rbind_simps)
  ultimately show ?thesis by (metis MapArea.select_convs(1))
qed

lemma stack_page:
  assumes "unat p < 2 ^ 25" and "map (\<lambda>v. unat (vpn_0 v)) xs = [2 ^ 27 - 3 - 3 * unat p, 2 ^ 27 - 2 - 3 * unat p]"
    and "v \<in> set xs"
  shows "2 ^ 27 \<le> unat (vpn_0 v) + 3 * unat p + 3 \<and> unat (vpn_0 v) + 3 * unat p + 2 \<le> 2 ^ 27"
proof -
  have "unat (vpn_0 v) \<in> set (map (\<lambda>v. unat (vpn_0 v)) xs)" using assms(3) by simp
  then have "unat (vpn_0 v) = 2 ^ 27 - 3 - 3 * unat p \<or> unat (vpn_0 v) = 2 ^ 27 - 2 - 3 * unat p"
    unfolding assms(2) by simp
  then show ?thesis using assms(1) by (elim disjE) simp_all
qed



end
