(* ===== verification/Contexts.thy ===== *)
theory Contexts
  imports Addresses
begin

text \<open>
  Saved processor contexts: the callee-saved registers of a kernel control flow
  (\<open>os/src/task/context.rs\<close>, \<open>switch.S\<close>), the full user context of a trap
  (\<open>os/src/trap/context.rs\<close>, \<open>trap.S\<close>) and the decoding of the trap cause
  (\<open>dependency/riscv/src/register\<close>). General registers are numbered as in the ISA: 1 is \<open>ra\<close>, 2 is
  \<open>sp\<close>, 4 is \<open>tp\<close>, 5 to 7 are \<open>t0\<close> to \<open>t2\<close>, 10 to 17 are \<open>a0\<close> to \<open>a7\<close>.
\<close>

unbundle bit_operations_syntax

section \<open>Switching kernel control flows\<close>

record TaskContext =
  tc_ra :: usize
  tc_sp :: usize
  tc_s :: "usize list"

definition TaskContext_zero_init :: TaskContext where
  "TaskContext_zero_init = \<lparr>tc_ra = 0, tc_sp = 0, tc_s = replicate 12 0\<rparr>"

definition goto_trap_return :: "usize \<Rightarrow> usize \<Rightarrow> TaskContext" where
  "goto_trap_return trap_return kstack_ptr = \<lparr>tc_ra = trap_return, tc_sp = kstack_ptr, tc_s = replicate 12 0\<rparr>"

text \<open>The register number of \<open>s0\<close> to \<open>s11\<close>: \<open>x8\<close>, \<open>x9\<close>, \<open>x18\<close> to \<open>x27\<close>.\<close>

definition s_reg :: "nat \<Rightarrow> nat" where
  "s_reg n = (if n < 2 then 8 + n else 16 + n)"

type_synonym regs = "nat \<Rightarrow> usize"

text \<open>
  \<open>__switch(current, next)\<close>: what it stores through \<open>a0\<close>, and the registers after \<open>ret\<close>, whose
  target is the new \<open>ra\<close>.
\<close>

definition switch_save :: "regs \<Rightarrow> TaskContext" where
  "switch_save x = \<lparr>tc_ra = x 1, tc_sp = x 2, tc_s = map (\<lambda>n. x (s_reg n)) [0..<12]\<rparr>"

definition switch_load :: "TaskContext \<Rightarrow> regs \<Rightarrow> regs" where
  "switch_load next x =
     (let x = x(1 := tc_ra next);
          x = foldl (\<lambda>x n. x(s_reg n := tc_s next ! n)) x [0..<12]
      in x(2 := tc_sp next))"

definition switch :: "TaskContext \<Rightarrow> regs \<Rightarrow> TaskContext \<times> regs" where
  "switch next x = (switch_save x, switch_load next x)"

section \<open>Trap contexts\<close>

record TrapContext =
  tx_x :: "usize list"
  tx_sstatus :: usize
  tx_sepc :: usize
  tx_kernel_satp :: usize
  tx_kernel_sp :: usize
  tx_trap_handler :: usize

definition set_sp :: "usize \<Rightarrow> TrapContext \<Rightarrow> TrapContext" where
  "set_sp sp cx = cx\<lparr>tx_x := (tx_x cx)[2 := sp]\<rparr>"

text \<open>\<open>Sstatus::set_spp(SPP::User)\<close> clears bit 8, the privilege that \<open>sret\<close> returns to.\<close>

definition set_spp_user :: "usize \<Rightarrow> usize" where
  "set_spp_user sstatus = unset_bit 8 sstatus"

definition app_init_context :: "usize \<Rightarrow> usize \<Rightarrow> usize \<Rightarrow> usize \<Rightarrow> usize \<Rightarrow> usize \<Rightarrow> TrapContext" where
  "app_init_context sstatus_csr entry sp kernel_satp kernel_sp trap_handler =
     (let sstatus = set_spp_user sstatus_csr;
          cx = \<lparr>tx_x = replicate 32 0, tx_sstatus = sstatus, tx_sepc = entry, tx_kernel_satp = kernel_satp,
                tx_kernel_sp = kernel_sp, tx_trap_handler = trap_handler\<rparr>
      in set_sp sp cx)"

text \<open>The \<open>repr(C)\<close> layout: 37 words of 8 bytes in the order of the fields.\<close>

definition TrapContext_size :: nat where "TrapContext_size = 37 * 8"

definition trapcx_words :: "TrapContext \<Rightarrow> usize list" where
  "trapcx_words cx =
     tx_x cx @ [tx_sstatus cx, tx_sepc cx, tx_kernel_satp cx, tx_kernel_sp cx, tx_trap_handler cx]"

definition trapcx_enc :: "TrapContext \<Rightarrow> u8 list" where
  "trapcx_enc cx = concat (map (\<lambda>w. le_bytes 8 (unat w)) (trapcx_words cx))"

definition trapcx_dec :: "u8 list \<Rightarrow> TrapContext" where
  "trapcx_dec bs =
     (let w = (\<lambda>i. of_nat (read_u 8 bs i))
      in \<lparr>tx_x = map w [0..<32], tx_sstatus = w 32, tx_sepc = w 33, tx_kernel_satp = w 34,
          tx_kernel_sp = w 35, tx_trap_handler = w 36\<rparr>)"

section \<open>Entering and leaving the kernel\<close>

datatype Privilege = User | Supervisor

record cpu =
  x_regs :: regs
  cpu_pc :: usize
  cpu_priv :: Privilege
  csr_sstatus :: usize
  csr_sepc :: usize
  csr_sscratch :: usize
  csr_satp :: usize

text \<open>The fields of \<open>sstatus\<close> that traps use: \<open>SIE\<close> is bit 1, \<open>SPIE\<close> bit 5, \<open>SPP\<close> bit 8.\<close>

definition put_flag :: "nat \<Rightarrow> bool \<Rightarrow> usize \<Rightarrow> usize" where
  "put_flag n v w = (if v then set_bit n w else unset_bit n w)"

text \<open>
  What the processor does on a trap into supervisor mode, before the first instruction at \<open>tvec\<close>:
  it saves the program counter, the interrupt enable bit and the privilege, and disables interrupts.
\<close>

definition take_trap :: "usize \<Rightarrow> cpu \<Rightarrow> cpu" where
  "take_trap tvec c =
     (let w = csr_sstatus c;
          w = put_flag 5 (bit w 1) w;
          w = put_flag 1 False w;
          w = put_flag 8 (cpu_priv c = Supervisor) w
      in c\<lparr>csr_sepc := cpu_pc c, csr_sstatus := w, cpu_priv := Supervisor, cpu_pc := tvec\<rparr>)"

text \<open>The instruction \<open>sret\<close>.\<close>

definition sret_insn :: "cpu \<Rightarrow> cpu" where
  "sret_insn c =
     (let w = csr_sstatus c;
          priv = (if bit w 8 then Supervisor else User);
          w = put_flag 1 (bit w 5) w;
          w = put_flag 5 True w;
          w = put_flag 8 False w
      in c\<lparr>cpu_pc := csr_sepc c, cpu_priv := priv, csr_sstatus := w\<rparr>)"

text \<open>
  \<open>__alltraps\<close>, with the trap context that \<open>sscratch\<close> points to: storing at \<open>8*n(sp)\<close> sets its
  word \<open>n\<close>. Registers 0 and 4 are not stored.
\<close>

definition save_regs :: "nat list \<Rightarrow> regs \<Rightarrow> usize list \<Rightarrow> usize list" where
  "save_regs ns x ws = foldl (\<lambda>ws n. ws[n := x n]) ws ns"

definition load_regs :: "nat list \<Rightarrow> usize list \<Rightarrow> regs \<Rightarrow> regs" where
  "load_regs ns ws x = foldl (\<lambda>x n. x(n := ws ! n)) x ns"

definition saved_regs :: "nat list" where
  "saved_regs = [1, 3] @ [5..<32]"

definition alltraps :: "cpu \<times> TrapContext \<Rightarrow> cpu \<times> TrapContext" where
  "alltraps = (\<lambda>(c, cx).
     let user_sp = x_regs c 2;
         x = (x_regs c)(2 := csr_sscratch c);
         c = c\<lparr>csr_sscratch := user_sp\<rparr>;
         cx = cx\<lparr>tx_x := save_regs saved_regs x (tx_x cx)\<rparr>;
         x = x(5 := csr_sstatus c, 6 := csr_sepc c);
         cx = cx\<lparr>tx_sstatus := x 5, tx_sepc := x 6\<rparr>;
         x = x(7 := csr_sscratch c);
         cx = cx\<lparr>tx_x := (tx_x cx)[2 := x 7]\<rparr>;
         x = x(5 := tx_kernel_satp cx);
         x = x(6 := tx_trap_handler cx);
         x = x(2 := tx_kernel_sp cx)
     in (c\<lparr>x_regs := x, csr_satp := x 5, cpu_pc := x 6\<rparr>, cx))"

text \<open>\<open>__restore\<close>, called with the address of the trap context in \<open>a0\<close> and the user token in \<open>a1\<close>.\<close>

definition restore :: "cpu \<times> TrapContext \<Rightarrow> cpu" where
  "restore = (\<lambda>(c, cx).
     let x = x_regs c;
         c = c\<lparr>csr_satp := x 11, csr_sscratch := x 10\<rparr>;
         x = x(2 := x 10);
         x = x(5 := tx_sstatus cx, 6 := tx_sepc cx);
         c = c\<lparr>csr_sstatus := x 5, csr_sepc := x 6\<rparr>;
         x = load_regs saved_regs (tx_x cx) x;
         x = x(2 := tx_x cx ! 2)
     in sret_insn (c\<lparr>x_regs := x\<rparr>))"

section \<open>Causes of traps\<close>

datatype Interrupt =
    UserSoft | VirtualSupervisorSoft | SupervisorSoft | UserTimer | VirtualSupervisorTimer
  | SupervisorTimer | UserExternal | VirtualSupervisorExternal | SupervisorExternal | UnknownInterrupt

datatype Exception =
    InstructionMisaligned | InstructionFault | IllegalInstruction | Breakpoint | LoadFault
  | StoreMisaligned | StoreFault | UserEnvCall | VirtualSupervisorEnvCall | InstructionPageFault
  | LoadPageFault | StorePageFault | InstructionGuestPageFault | LoadGuestPageFault
  | VirtualInstruction | StoreGuestPageFault | UnknownException

datatype Trap = TrapInterrupt Interrupt | TrapException Exception


definition Interrupt_from :: "usize \<Rightarrow> Interrupt" where
  "Interrupt_from nr =
     (if nr = 0 then UserSoft else if nr = 1 then SupervisorSoft else if nr = 2 then VirtualSupervisorSoft
      else if nr = 4 then UserTimer else if nr = 5 then SupervisorTimer
      else if nr = 6 then VirtualSupervisorTimer else if nr = 8 then UserExternal
      else if nr = 9 then SupervisorExternal else if nr = 10 then VirtualSupervisorExternal
      else UnknownInterrupt)"

definition Exception_from :: "usize \<Rightarrow> Exception" where
  "Exception_from nr =
     (if nr = 0 then InstructionMisaligned else if nr = 1 then InstructionFault
      else if nr = 2 then IllegalInstruction else if nr = 3 then Breakpoint
      else if nr = 5 then LoadFault else if nr = 6 then StoreMisaligned else if nr = 7 then StoreFault
      else if nr = 8 then UserEnvCall else if nr = 10 then VirtualSupervisorEnvCall
      else if nr = 12 then InstructionPageFault else if nr = 13 then LoadPageFault
      else if nr = 15 then StorePageFault else if nr = 20 then InstructionGuestPageFault
      else if nr = 21 then LoadGuestPageFault else if nr = 22 then VirtualInstruction
      else if nr = 23 then StoreGuestPageFault else UnknownException)"

definition is_interrupt :: "usize \<Rightarrow> bool" where
  "is_interrupt bits \<longleftrightarrow> bit bits 63"

definition scause_code :: "usize \<Rightarrow> usize" where
  "scause_code bits = bits AND NOT (push_bit 63 1)"

definition scause_cause :: "usize \<Rightarrow> Trap" where
  "scause_cause bits =
     (if is_interrupt bits then TrapInterrupt (Interrupt_from (scause_code bits))
      else TrapException (Exception_from (scause_code bits)))"

section \<open>Lemmas on register files\<close>

lemma load_regs_apply: "load_regs ns ws x r = (if r \<in> set ns then ws ! r else x r)"
  unfolding load_regs_def by (induction ns arbitrary: x) auto

lemma save_regs_simps: "save_regs [] x ws = ws" "save_regs (n # ns) x ws = save_regs ns x (ws[n := x n])"
  by (simp_all add: save_regs_def)

lemma length_save_regs [simp]: "length (save_regs ns x ws) = length ws"
  by (induction ns arbitrary: ws) (simp_all add: save_regs_simps)

lemma save_regs_nth:
  "r < length ws \<Longrightarrow> save_regs ns x ws ! r = (if r \<in> set ns then x r else ws ! r)"
proof (induction ns arbitrary: ws)
  case Nil
  then show ?case by (simp add: save_regs_simps)
next
  case (Cons n ns)
  then show ?case by (auto simp: save_regs_simps nth_list_update)
qed

lemma upt_12: "[0..<12] = [0, 1, 2, 3, 4, 5, 6, 7, 8, 9, 10, 11 :: nat]"
  by code_simp

section \<open>Properties\<close>

text \<open>
  C21: Switching kernel control flows is transparent: after \<open>__switch\<close> has saved a control flow and a
  later \<open>__switch\<close> (with any other registers \<open>y\<close>) loads it again, \<open>ra\<close>, \<open>sp\<close> and \<open>s0\<close> to
  \<open>s11\<close> have their old values, so the flow continues at its return address with its own stack.
\<close>

theorem switch_resumes:
  "\<forall>r \<in> {1, 2, 8, 9, 18, 19, 20, 21, 22, 23, 24, 25, 26, 27}. snd (switch (fst (switch next x)) y) r = x r"
  by (simp add: switch_def switch_save_def switch_load_def s_reg_def Let_def upt_12)

theorem switch_resumes_witness:
  "snd (switch (fst (switch TaskContext_zero_init (\<lambda>r. of_nat r))) (\<lambda>_. 0)) 27 = 27"
  using switch_resumes [of TaskContext_zero_init "\<lambda>r. of_nat r" "\<lambda>_. 0"] by simp

lemma sret_after_trap:
  assumes "cpu_priv c = User" and "csr_sstatus d = csr_sstatus (take_trap tvec c)" and "csr_sepc d = cpu_pc c"
  shows "csr_sstatus (sret_insn d) = set_bit 5 (unset_bit 8 (csr_sstatus c))" "cpu_priv (sret_insn d) = User"
    "cpu_pc (sret_insn d) = cpu_pc c"
proof -
  have "bit (csr_sstatus (sret_insn d)) i = bit (set_bit 5 (unset_bit 8 (csr_sstatus c))) i" if "i < 64" for i
    using that assms(1) unfolding assms(2) sret_insn_def take_trap_def put_flag_def Let_def
    by (auto simp: bit_set_bit_iff bit_unset_bit_iff assms(2) take_trap_def put_flag_def Let_def)
  then show "csr_sstatus (sret_insn d) = set_bit 5 (unset_bit 8 (csr_sstatus c))" by (intro bit_word_eqI) simp
  show "cpu_priv (sret_insn d) = User"
    using assms(1) by (simp add: sret_insn_def assms(2) take_trap_def put_flag_def Let_def bit_unset_bit_iff)
  show "cpu_pc (sret_insn d) = cpu_pc c" by (simp add: sret_insn_def assms(3) Let_def)
qed

text \<open>
  C22: A trap is transparent to the user program. Suppose the processor takes a trap in user mode and
  runs \<open>__alltraps\<close>, and \<open>__restore\<close> later runs on the trap context it filled, from whatever processor
  state \<open>k\<close> the kernel leaves by with the address of the trap context in \<open>a0\<close> and the user token in
  \<open>a1\<close>. Then the kernel was entered in supervisor mode with interrupts disabled, at its handler,
  on its stack and in its own address space; and afterwards the processor is in user mode at the
  interrupted instruction, every general register except \<open>x0\<close> and \<open>tp\<close> has its old value, \<open>sstatus\<close>
  is the old one with \<open>SPIE\<close> set and \<open>SPP\<close> cleared, as \<open>sret\<close> leaves them, and \<open>sscratch\<close> points to the
  trap context again.
\<close>

theorem trap_transparent:
  assumes "cpu_priv c = User" and "length (tx_x cx) = 32"
  shows "case alltraps (take_trap tvec c, cx) of (e, cx') \<Rightarrow>
    cpu_priv e = Supervisor \<and> \<not> bit (csr_sstatus e) 1 \<and>
    cpu_pc e = tx_trap_handler cx \<and> x_regs e 2 = tx_kernel_sp cx \<and> csr_satp e = tx_kernel_satp cx \<and>
    (let r = restore (k, cx') in
      cpu_priv r = User \<and> cpu_pc r = cpu_pc c \<and> (\<forall>n < 32. n \<noteq> 0 \<and> n \<noteq> 4 \<longrightarrow> x_regs r n = x_regs c n) \<and>
      csr_sstatus r = set_bit 5 (unset_bit 8 (csr_sstatus c)) \<and>
      csr_satp r = x_regs k 11 \<and> csr_sscratch r = x_regs k 10)"
proof -
  obtain e cx' where a: "alltraps (take_trap tvec c, cx) = (e, cx')" by fastforce
  have mem: "n \<in> set saved_regs \<longleftrightarrow> n = 1 \<or> n = 3 \<or> 5 \<le> n \<and> n < 32" for n
    unfolding saved_regs_def set_append set_upt by auto
  have tt: "x_regs (take_trap tvec c) = x_regs c" "csr_sepc (take_trap tvec c) = cpu_pc c"
    "cpu_priv (take_trap tvec c) = Supervisor" "\<not> bit (csr_sstatus (take_trap tvec c)) 1"
    by (simp_all add: take_trap_def Let_def put_flag_def bit_set_bit_iff bit_unset_bit_iff)
  have e: "cpu_pc e = tx_trap_handler cx" "x_regs e 2 = tx_kernel_sp cx" "csr_satp e = tx_kernel_satp cx"
    "cpu_priv e = Supervisor" "\<not> bit (csr_sstatus e) 1"
    using a tt by (auto simp: alltraps_def Let_def)
  have cx': "tx_sstatus cx' = csr_sstatus (take_trap tvec c)" "tx_sepc cx' = cpu_pc c"
    using a tt by (auto simp: alltraps_def Let_def)
  define d where "d = k\<lparr>csr_satp := x_regs k 11, csr_sscratch := x_regs k 10, csr_sstatus := tx_sstatus cx', csr_sepc := tx_sepc cx',
      x_regs := (load_regs saved_regs (tx_x cx') ((x_regs k)(2 := x_regs k 10, 5 := tx_sstatus cx', 6 := tx_sepc cx')))(2 := tx_x cx' ! 2)\<rparr>"
  have r: "restore (k, cx') = sret_insn d" by (simp add: restore_def d_def Let_def)
  have "n = 1 \<or> n = 2 \<or> n = 3 \<or> 5 \<le> n" if "n \<noteq> 0" "n \<noteq> 4" for n :: nat using that by linarith
  then have "\<forall>n < 32. n \<noteq> 0 \<and> n \<noteq> 4 \<longrightarrow> x_regs d n = x_regs c n"
    using a tt assms(2) by (auto simp: d_def alltraps_def Let_def load_regs_apply save_regs_nth nth_list_update mem)
  moreover have "csr_satp d = x_regs k 11" "csr_sscratch d = x_regs k 10" by (simp_all add: d_def)
  moreover have "x_regs (sret_insn d) = x_regs d" "csr_satp (sret_insn d) = csr_satp d" "csr_sscratch (sret_insn d) = csr_sscratch d"
    by (simp_all add: sret_insn_def Let_def)
  moreover have "csr_sstatus d = csr_sstatus (take_trap tvec c)" "csr_sepc d = cpu_pc c" by (simp_all add: d_def cx')
  note sret_after_trap [OF assms(1) this]
  ultimately show ?thesis using e by (simp add: a r Let_def)
qed

definition sample_cpu :: cpu where
  "sample_cpu = \<lparr>x_regs = (\<lambda>r. of_nat r), cpu_pc = 0x2000, cpu_priv = User, csr_sstatus = 2, csr_sepc = 0, csr_sscratch = 7, csr_satp = 0\<rparr>"

theorem trap_transparent_witness:
  "(let r = restore (sample_cpu, snd (alltraps (take_trap 0x9000 sample_cpu, app_init_context 0 0x1000 0x5000 0 0 0)))
    in cpu_pc r = 0x2000 \<and> x_regs r 31 = 31 \<and> csr_sstatus r = 34)"
proof -
  have "cpu_priv sample_cpu = User" "length (tx_x (app_init_context 0 0x1000 0x5000 0 0 0)) = 32"
    by (simp_all add: sample_cpu_def app_init_context_def set_sp_def Let_def)
  note t = trap_transparent [where tvec = "0x9000" and k = sample_cpu, OF this]
  have "set_bit 5 (unset_bit 8 (2 :: usize)) = 34" by code_simp
  then show ?thesis using t
    by (auto simp: Let_def split: prod.splits) (simp_all add: sample_cpu_def)
qed

section \<open>Layout in memory\<close>

lemma length_trapcx_enc [simp]: "length (tx_x cx) = 32 \<Longrightarrow> length (trapcx_enc cx) = TrapContext_size"
  using length_concat_le_bytes [of 8 "map unat (trapcx_words cx)"]
  by (simp add: trapcx_enc_def trapcx_words_def TrapContext_size_def comp_def)

lemma trapcx_dec_enc:
  assumes "length (tx_x cx) = 32"
  shows "trapcx_dec (trapcx_enc cx @ rest) = cx"
proof -
  let ?ws = "trapcx_words cx"
  have "of_nat (read_u 8 (trapcx_enc cx @ rest) i) = ?ws ! i" if "i < 37" for i
  proof -
    have "read_u 8 (concat (map (le_bytes 8) (map unat ?ws)) @ rest) i = map unat ?ws ! i mod 256 ^ 8"
      using assms that by (intro read_u_concat) (simp add: trapcx_words_def)
    moreover have "unat (?ws ! i) < 256 ^ 8" using unat_usize_less [of "?ws ! i"] by simp
    moreover have "i < length ?ws" using assms that by (simp add: trapcx_words_def)
    moreover have "trapcx_enc cx = concat (map (le_bytes 8) (map unat ?ws))" by (simp add: trapcx_enc_def comp_def)
    ultimately show ?thesis by (simp del: map_map)
  qed
  note w = this
  have "map (\<lambda>i. of_nat (read_u 8 (trapcx_enc cx @ rest) i)) [0..<32] = tx_x cx"
    using w assms by (intro nth_equalityI) (simp_all add: trapcx_words_def nth_append)
  then show ?thesis
    using w [of 32] w [of 33] w [of 34] w [of 35] w [of 36] assms
    by (simp add: trapcx_dec_def Let_def trapcx_words_def nth_append)
qed

end
