(* ===== verification/Block_Cache.thy ===== *)
theory Block_Cache
  imports Prelude
begin

text \<open>
  The block device of the image builder (\<open>easy-fs-fuse/src/main.rs\<close>, \<open>BlockFile\<close>) and the
  block cache on top of it (\<open>easy-fs/src/block_cache.rs\<close>). A \<open>store\<close> is the state these share:
  the host file, the queue of \<open>BLOCK_CACHE_MANAGER\<close>, and the block ids of the clones of cache
  \<open>Arc\<close>s that are alive outside the manager. Such a clone is locked for as long as it lives
  (every use is one \<open>get_block_cache(..).lock().read/modify(..)\<close> expression), so requesting a
  block whose clone is alive spins forever, which is the value \<open>Lock_Held\<close>.

  An operation of the file system is a state transformer on \<open>store\<close>. \<open>runs\<close> relates it to
  the contents of the disk as seen through the cache, and the layers above are specified over
  these contents alone.
\<close>

section \<open>The block device\<close>

type_synonym block = "u8 list"

definition BLOCK_SZ :: nat where "BLOCK_SZ = 512"

text \<open>A host file of whole blocks; a file hole reads as zeros.\<close>

record BlockFile =
  bf_blocks :: "nat \<Rightarrow> block"
  bf_len :: nat

definition bf_read_block :: "nat \<Rightarrow> BlockFile \<Rightarrow> block res" where
  "bf_read_block block_id f =
     (if block_id < bf_len f then Inr (bf_blocks f block_id) else Inl Assertion_Failed)"

definition bf_write_block :: "nat \<Rightarrow> block \<Rightarrow> BlockFile \<Rightarrow> BlockFile res" where
  "bf_write_block block_id buf f =
     (if length buf = BLOCK_SZ
      then Inr (f\<lparr>bf_blocks := (\<lambda>k. if k = block_id then buf
                                 else if bf_len f \<le> k \<and> k < block_id then replicate BLOCK_SZ 0
                                 else bf_blocks f k),
                  bf_len := max (bf_len f) (Suc block_id)\<rparr>)
      else Inl Assertion_Failed)"

section \<open>One cached block\<close>

record BlockCache =
  bc_cache :: block
  bc_block_id :: nat
  bc_modified :: bool

definition BlockCache_new :: "nat \<Rightarrow> BlockFile \<Rightarrow> BlockCache res" where
  "BlockCache_new block_id f =
     rbind (bf_read_block block_id f) (\<lambda>cache.
     Inr \<lparr>bc_cache = cache, bc_block_id = block_id, bc_modified = False\<rparr>)"

definition addr_of_offset :: "BlockCache \<Rightarrow> nat \<Rightarrow> nat res" where
  "addr_of_offset c off = (if off < length (bc_cache c) then Inr off else Inl Index_Out_Of_Range)"

text \<open>
  \<open>get_ref\<close> and \<open>get_mut\<close> for a type of \<open>type_size\<close> bytes: the bytes of the referenced value.
\<close>

definition get_ref :: "nat \<Rightarrow> nat \<Rightarrow> BlockCache \<Rightarrow> u8 list res" where
  "get_ref type_size off c =
     rbind (rassert (off + type_size \<le> BLOCK_SZ)) (\<lambda>_.
     rbind (addr_of_offset c off) (\<lambda>addr.
     Inr (slice addr type_size (bc_cache c))))"

definition get_mut :: "nat \<Rightarrow> nat \<Rightarrow> BlockCache \<Rightarrow> (u8 list \<times> BlockCache) res" where
  "get_mut type_size off c =
     rbind (rassert (off + type_size \<le> BLOCK_SZ)) (\<lambda>_.
     let c = c\<lparr>bc_modified := True\<rparr>
     in rbind (addr_of_offset c off) (\<lambda>addr.
     Inr (slice addr type_size (bc_cache c), c)))"

definition bc_sync :: "BlockCache \<Rightarrow> BlockFile \<Rightarrow> (BlockCache \<times> BlockFile) res" where
  "bc_sync c f =
     (if bc_modified c
      then rbind (bf_write_block (bc_block_id c) (bc_cache c) f) (\<lambda>f.
           Inr (c\<lparr>bc_modified := False\<rparr>, f))
      else Inr (c, f))"

definition bc_drop :: "BlockCache \<Rightarrow> BlockFile \<Rightarrow> BlockFile res" where
  "bc_drop c f = rbind (bc_sync c f) (\<lambda>(_, f). Inr f)"

section \<open>The cache manager\<close>

definition BLOCK_CACHE_SIZE :: nat where "BLOCK_CACHE_SIZE = 16"

record store =
  bcm_queue :: "(nat \<times> BlockCache) list"
  store_file :: BlockFile
  arcs :: "nat list"

definition strong_count :: "store \<Rightarrow> nat \<Rightarrow> nat" where
  "strong_count s block_id = 1 + count_list (arcs s) block_id"

definition bcm_evict :: "store \<Rightarrow> store res" where
  "bcm_evict s =
     (case find_index (\<lambda>(k, c). strong_count s k = 1) (bcm_queue s) of
        Some idx \<Rightarrow>
          rbind (bc_drop (snd (bcm_queue s ! idx)) (store_file s)) (\<lambda>f.
          Inr (s\<lparr>bcm_queue := vec_remove idx (bcm_queue s), store_file := f\<rparr>))
      | None \<Rightarrow> Inl Explicit_Panic)"

definition get_block_cache :: "nat \<Rightarrow> store \<Rightarrow> store res" where
  "get_block_cache block_id s =
     (case find (\<lambda>pair. fst pair = block_id) (bcm_queue s) of
        Some pair \<Rightarrow> Inr s
      | None \<Rightarrow>
          rbind (if length (bcm_queue s) = BLOCK_CACHE_SIZE then bcm_evict s else Inr s) (\<lambda>s.
          rbind (BlockCache_new block_id (store_file s)) (\<lambda>block_cache.
          Inr (s\<lparr>bcm_queue := vec_push (bcm_queue s) (block_id, block_cache)\<rparr>))))"

definition block_cache_sync_all :: "store \<Rightarrow> store res" where
  "block_cache_sync_all s =
     rbind (rfold (\<lambda>(k, c) (q, f).
         if k \<in> set (arcs s) then Inl Lock_Held
         else rbind (bc_sync c f) (\<lambda>(c, f). Inr (vec_push q (k, c), f)))
       (bcm_queue s) ([], store_file s)) (\<lambda>(q, f).
     Inr (s\<lparr>bcm_queue := q, store_file := f\<rparr>))"

section \<open>Operations on the store\<close>

type_synonym 'a op = "store \<Rightarrow> ('a \<times> store) res"

definition sbind :: "'a op \<Rightarrow> ('a \<Rightarrow> 'b op) \<Rightarrow> 'b op" where
  "sbind m f = (\<lambda>s. rbind (m s) (\<lambda>(x, s). f x s))"

definition sret :: "'a \<Rightarrow> 'a op" where
  "sret x = (\<lambda>s. Inr (x, s))"

definition slift :: "'a res \<Rightarrow> 'a op" where
  "slift r = (\<lambda>s. rbind r (\<lambda>x. Inr (x, s)))"

fun sfold :: "('a \<Rightarrow> 'b \<Rightarrow> 'b op) \<Rightarrow> 'a list \<Rightarrow> 'b \<Rightarrow> 'b op" where
  "sfold f [] b = sret b"
| "sfold f (x # xs) b = sbind (f x b) (sfold f xs)"

text \<open>\<open>get_block_cache(id).lock()\<close>; the clone and the guard die together.\<close>

definition cache_lock :: "nat \<Rightarrow> store \<Rightarrow> store res" where
  "cache_lock block_id s =
     rbind (get_block_cache block_id s) (\<lambda>s.
     if block_id \<in> set (arcs s) then Inl Lock_Held
     else Inr (s\<lparr>arcs := block_id # arcs s\<rparr>))"

definition cache_unlock :: "nat \<Rightarrow> store \<Rightarrow> store" where
  "cache_unlock block_id s = s\<lparr>arcs := remove1 block_id (arcs s)\<rparr>"

definition set_entry :: "nat \<Rightarrow> BlockCache \<Rightarrow> store \<Rightarrow> store" where
  "set_entry block_id c s =
     s\<lparr>bcm_queue := map (\<lambda>(k, c'). (k, if k = block_id then c else c')) (bcm_queue s)\<rparr>"

text \<open>
  \<open>get_block_cache(id).lock().read(off, f)\<close> and \<open>..modify(off, f)\<close>. The closure gets the
  bytes of the value; the one of \<open>modify\<close> also returns the bytes it leaves there.
\<close>

definition cache_read :: "nat \<Rightarrow> nat \<Rightarrow> nat \<Rightarrow> (u8 list \<Rightarrow> 'v op) \<Rightarrow> 'v op" where
  "cache_read type_size block_id off f = (\<lambda>s.
     rbind (cache_lock block_id s) (\<lambda>s.
     rbind (runwrap (map_of (bcm_queue s) block_id)) (\<lambda>c.
     rbind (get_ref type_size off c) (\<lambda>bs.
     rbind (f bs s) (\<lambda>(v, s).
     Inr (v, cache_unlock block_id s))))))"

definition cache_modify :: "nat \<Rightarrow> nat \<Rightarrow> nat \<Rightarrow> (u8 list \<Rightarrow> ('v \<times> u8 list) op) \<Rightarrow> 'v op" where
  "cache_modify type_size block_id off f = (\<lambda>s.
     rbind (cache_lock block_id s) (\<lambda>s.
     rbind (runwrap (map_of (bcm_queue s) block_id)) (\<lambda>c.
     rbind (get_mut type_size off c) (\<lambda>(bs, c).
     rbind (f bs (set_entry block_id c s)) (\<lambda>((v, bs), s).
     rbind (runwrap (map_of (bcm_queue s) block_id)) (\<lambda>c.
     Inr (v, cache_unlock block_id
              (set_entry block_id (c\<lparr>bc_cache := splice off bs (bc_cache c)\<rparr>) s))))))))"

definition sync_all :: "unit op" where
  "sync_all = (\<lambda>s. rbind (block_cache_sync_all s) (\<lambda>s. Inr ((), s)))"

section \<open>Invariant and contents\<close>

definition entry_ok :: "BlockFile \<Rightarrow> nat \<times> BlockCache \<Rightarrow> bool" where
  "entry_ok f = (\<lambda>(k, c).
     bc_block_id c = k \<and> length (bc_cache c) = BLOCK_SZ \<and> k < bf_len f \<and>
     (\<not> bc_modified c \<longrightarrow> bc_cache c = bf_blocks f k))"

definition cache_ok :: "store \<Rightarrow> bool" where
  "cache_ok s \<longleftrightarrow>
     distinct (map fst (bcm_queue s)) \<and> length (bcm_queue s) \<le> BLOCK_CACHE_SIZE \<and>
     (\<forall>e \<in> set (bcm_queue s). entry_ok (store_file s) e) \<and>
     (\<forall>b. length (bf_blocks (store_file s) b) = BLOCK_SZ) \<and>
     set (arcs s) \<subseteq> fst ` set (bcm_queue s) \<and> distinct (arcs s)"

text \<open>The contents of the disk as the file system sees them.\<close>

definition view :: "store \<Rightarrow> nat \<Rightarrow> block" where
  "view s b =
     (case map_of (bcm_queue s) b of Some c \<Rightarrow> bc_cache c | None \<Rightarrow> bf_blocks (store_file s) b)"

lemma view_arcs [simp]: "view (s\<lparr>arcs := a\<rparr>) = view s"
  by (simp add: view_def fun_eq_iff split: option.splits)

lemma find_fst_map_of: "find (\<lambda>p. fst p = k) q = map_option (Pair k) (map_of q k)"
  by (induction q) auto

lemma map_of_vec_remove:
  assumes "distinct (map fst q)" and "i < length q"
  shows "map_of (vec_remove i q) k = (if k = fst (q ! i) then None else map_of q k)"
proof -
  obtain ys zs where q: "q = ys @ q ! i # zs" "vec_remove i q = ys @ zs"
    using vec_remove_split [OF assms(2)] by blast
  obtain a c where ac: "q ! i = (a, c)" by fastforce
  have "distinct (map fst (ys @ (a, c) # zs))" using assms(1) q(1) ac by simp
  then have na: "a \<notin> fst ` set ys" "a \<notin> fst ` set zs" by auto
  have "map_of q k = map_of (ys @ (a, c) # zs) k" using q(1) ac by simp
  with q(2) na ac show ?thesis
    by (auto simp: map_add_def map_of_eq_None_iff [THEN iffD2] split: option.splits)
qed

lemma distinct_vec_remove:
  assumes "distinct (map fst q)" and "i < length q"
  shows "distinct (map fst (vec_remove i q))" "fst ` set (vec_remove i q) = fst ` set q - {fst (q ! i)}"
proof -
  obtain ys zs where q: "q = ys @ q ! i # zs" "vec_remove i q = ys @ zs"
    using vec_remove_split [OF assms(2)] by blast
  have "distinct (map fst (ys @ q ! i # zs))" using assms(1) q(1) by simp
  moreover have "fst ` set q = fst ` set (ys @ q ! i # zs)" using q(1) by simp
  ultimately show "distinct (map fst (vec_remove i q))"
    "fst ` set (vec_remove i q) = fst ` set q - {fst (q ! i)}"
    unfolding q(2) by (auto simp: image_Un)
qed

lemma entry_ok_upd:
  "entry_ok f e \<Longrightarrow> fst e \<noteq> k \<Longrightarrow> bf_len g = bf_len f \<Longrightarrow> bf_blocks g = (bf_blocks f)(k := x) \<Longrightarrow>
   entry_ok g e"
  by (cases e) (auto simp: entry_ok_def)

lemma bc_sync_ok:
  assumes e: "entry_ok f (k, c)" and len: "\<forall>b. length (bf_blocks f b) = BLOCK_SZ"
  shows "\<exists>f'. bc_sync c f = Inr (c\<lparr>bc_modified := False\<rparr>, f') \<and> bf_len f' = bf_len f \<and>
    bf_blocks f' = (bf_blocks f)(k := bc_cache c)"
proof (cases "bc_modified c")
  case True
  let ?f = "f\<lparr>bf_blocks := (bf_blocks f)(k := bc_cache c)\<rparr>"
  have "bf_write_block k (bc_cache c) f = Inr ?f"
    using e by (auto simp: bf_write_block_def entry_ok_def max_def fun_eq_iff)
  with True e show ?thesis by (simp add: bc_sync_def entry_ok_def)
next
  case False
  with e have "(bf_blocks f)(k := bc_cache c) = bf_blocks f" by (auto simp: entry_ok_def)
  moreover from False have "c\<lparr>bc_modified := False\<rparr> = c" by (cases c) simp
  ultimately show ?thesis using False by (simp add: bc_sync_def)
qed

text \<open>
  What requesting blocks may change: only where the contents are held, and no entry that is
  in use.
\<close>

definition same_disk :: "store \<Rightarrow> store \<Rightarrow> bool" where
  "same_disk s s' \<longleftrightarrow> cache_ok s' \<and> view s' = view s \<and> arcs s' = arcs s \<and>
     bf_len (store_file s') = bf_len (store_file s) \<and>
     (\<forall>k \<in> set (arcs s). map_of (bcm_queue s') k = map_of (bcm_queue s) k)"

lemma bcm_evict_ok:
  assumes ok: "cache_ok s" and full: "length (bcm_queue s) = BLOCK_CACHE_SIZE"
    and held: "length (arcs s) < BLOCK_CACHE_SIZE"
  shows "\<exists>s'. bcm_evict s = Inr s' \<and> same_disk s s' \<and> length (bcm_queue s') < BLOCK_CACHE_SIZE \<and>
    fst ` set (bcm_queue s') \<subseteq> fst ` set (bcm_queue s)"
proof -
  let ?q = "bcm_queue s" and ?p = "\<lambda>(k, c :: BlockCache). strong_count s k = 1"
  have dist: "distinct (map fst ?q)" and len: "\<forall>b. length (bf_blocks (store_file s) b) = BLOCK_SZ"
    using ok by (simp_all add: cache_ok_def)
  have "\<not> set (map fst ?q) \<subseteq> set (arcs s)"
  proof
    assume "set (map fst ?q) \<subseteq> set (arcs s)"
    from card_mono [OF finite_set this] dist have "length ?q \<le> card (set (arcs s))"
      by (metis distinct_card length_map)
    with full held card_length [of "arcs s"] show False by simp
  qed
  then have "find_index ?p ?q \<noteq> None"
    by (auto simp: find_index_None strong_count_def count_list_0_iff)
  then obtain i where fi: "find_index ?p ?q = Some i" by blast
  obtain k c where kc: "?q ! i = (k, c)" by fastforce
  from fi kc have i: "i < length ?q" and k: "k \<notin> set (arcs s)"
    by (auto simp: find_index_Some strong_count_def count_list_0_iff)
  have mem: "(k, c) \<in> set ?q" using i kc by (metis nth_mem)
  then have e: "entry_ok (store_file s) (k, c)" using ok by (simp add: cache_ok_def)
  then obtain f' where f': "bc_sync c (store_file s) = Inr (c\<lparr>bc_modified := False\<rparr>, f')"
    "bf_len f' = bf_len (store_file s)" "bf_blocks f' = (bf_blocks (store_file s))(k := bc_cache c)"
    using bc_sync_ok [OF _ len] by blast
  let ?s = "s\<lparr>bcm_queue := vec_remove i ?q, store_file := f'\<rparr>"
  note rm = distinct_vec_remove [OF dist i]
  have ev: "bcm_evict s = Inr ?s" unfolding bcm_evict_def fi by (simp add: kc bc_drop_def f'(1))
  have "entry_ok f' e" if "e \<in> set (vec_remove i ?q)" for e
  proof -
    have "e \<in> set ?q" using that set_vec_remove_subset by (rule subsetD [rotated])
    moreover have "fst e \<noteq> k" using rm(2) kc that by auto
    ultimately show ?thesis using ok f'(2,3) by (auto simp: cache_ok_def entry_ok_def)
  qed
  then have okS: "cache_ok ?s"
    using ok rm kc k f' e full i by (auto simp: cache_ok_def entry_ok_def)
  have "map_of ?q k = Some c" using mem dist by simp
  then have "view ?s = view s"
    by (auto simp: view_def fun_eq_iff map_of_vec_remove [OF dist i] kc f'(3) split: option.splits)
  moreover have "map_of (bcm_queue ?s) j = map_of ?q j" if "j \<in> set (arcs s)" for j
    using that k by (auto simp: map_of_vec_remove [OF dist i] kc)
  ultimately show ?thesis
    using okS ev f'(2) rm(2) i full by (auto simp: same_disk_def BLOCK_CACHE_SIZE_def)
qed

lemma get_block_cache_ok:
  assumes ok: "cache_ok s" and b: "b < bf_len (store_file s)"
    and held: "length (arcs s) < BLOCK_CACHE_SIZE"
  shows "\<exists>s'. get_block_cache b s = Inr s' \<and> same_disk s s' \<and> b \<in> fst ` set (bcm_queue s')"
proof (cases "b \<in> fst ` set (bcm_queue s)")
  case True
  then have "\<exists>c. map_of (bcm_queue s) b = Some c" by (simp flip: dom_map_of_conv_image_fst add: dom_def)
  with True ok show ?thesis by (auto simp: get_block_cache_def find_fst_map_of same_disk_def)
next
  case False
  then have none: "map_of (bcm_queue s) b = None" by (simp add: map_of_eq_None_iff)
  let ?m = "if length (bcm_queue s) = BLOCK_CACHE_SIZE then bcm_evict s else Inr s"
  obtain t where t: "?m = Inr t" "same_disk s t" "length (bcm_queue t) < BLOCK_CACHE_SIZE"
    "b \<notin> fst ` set (bcm_queue t)"
  proof (cases "length (bcm_queue s) = BLOCK_CACHE_SIZE")
    case True
    with bcm_evict_ok [OF ok True held] False show ?thesis by (fastforce intro: that)
  next
    case neq: False
    with ok False show ?thesis by (intro that [of s]) (auto simp: same_disk_def cache_ok_def)
  qed
  let ?c = "\<lparr>bc_cache = bf_blocks (store_file t) b, bc_block_id = b, bc_modified = False\<rparr>"
  let ?s = "t\<lparr>bcm_queue := vec_push (bcm_queue t) (b, ?c)\<rparr>"
  have bt: "b < bf_len (store_file t)" using t(2) b by (simp add: same_disk_def)
  then have g: "get_block_cache b s = Inr ?s"
    using t(1) by (simp add: get_block_cache_def find_fst_map_of none BlockCache_new_def bf_read_block_def)
  have "cache_ok ?s"
    using t bt by (auto simp: same_disk_def cache_ok_def entry_ok_def vec_push_def)
  moreover have "map_of (bcm_queue t) b = None" using t(4) by (simp add: map_of_eq_None_iff)
  then have "view ?s = view t"
    by (auto simp: view_def fun_eq_iff vec_push_def map_add_def split: option.splits)
  moreover have "map_of (bcm_queue ?s) k = map_of (bcm_queue t) k" if "k \<in> set (arcs t)" for k
    using that t(2,4) by (auto simp: same_disk_def cache_ok_def vec_push_def map_add_def split: option.splits)
  ultimately show ?thesis using g t(2) by (simp add: same_disk_def)
qed

section \<open>Running an operation\<close>

text \<open>
  \<open>runs n H m d r d'\<close>: on every store over a device of \<open>n\<close> blocks with contents \<open>d\<close>, with the
  blocks \<open>H\<close> in use by callers, \<open>m\<close> returns \<open>r\<close> and leaves contents \<open>d'\<close>, whatever is cached.
\<close>

type_synonym disk = "nat \<Rightarrow> block"

definition at_disk :: "nat \<Rightarrow> nat set \<Rightarrow> disk \<Rightarrow> store \<Rightarrow> bool" where
  "at_disk n H d s \<longleftrightarrow> cache_ok s \<and> view s = d \<and> set (arcs s) = H \<and> bf_len (store_file s) = n"

definition keeps_held :: "store \<Rightarrow> store \<Rightarrow> bool" where
  "keeps_held s s' \<longleftrightarrow> arcs s' = arcs s \<and>
     (\<forall>k \<in> set (arcs s). map_of (bcm_queue s') k = map_of (bcm_queue s) k)"

definition runs :: "nat \<Rightarrow> nat set \<Rightarrow> 'a op \<Rightarrow> disk \<Rightarrow> 'a \<Rightarrow> disk \<Rightarrow> bool" where
  "runs n H m d r d' \<longleftrightarrow>
     (\<forall>s. at_disk n H d s \<longrightarrow> (\<exists>s'. m s = Inr (r, s') \<and> at_disk n H d' s' \<and> keeps_held s s'))"

named_theorems runs_intros \<open>rules for running operations\<close>

lemma keeps_held_refl [simp]: "keeps_held s s"
  by (simp add: keeps_held_def)

lemma keeps_held_trans: "keeps_held s t \<Longrightarrow> keeps_held t u \<Longrightarrow> keeps_held s u"
  by (simp add: keeps_held_def)

lemma runsD:
  assumes "runs n H m d r d'" and "at_disk n H d s"
  obtains s' where "m s = Inr (r, s')" "at_disk n H d' s'" "keeps_held s s'"
  using assms unfolding runs_def by blast

lemma runs_sret [simp, intro]: "runs n H (sret r) d r d"
  by (simp add: runs_def sret_def)

lemma runs_slift [simp, intro]: "runs n H (slift (Inr r)) d r d"
  by (simp add: runs_def slift_def)

lemma runs_sbind [intro]:
  assumes "runs n H m d x e" and "runs n H (f x) e r d'"
  shows "runs n H (sbind m f) d r d'"
  unfolding runs_def
proof (intro allI impI)
  fix s assume "at_disk n H d s"
  with assms(1) obtain t where t: "m s = Inr (x, t)" "at_disk n H e t" "keeps_held s t" by (rule runsD)
  from assms(2) t(2) obtain u where "f x t = Inr (r, u)" "at_disk n H d' u" "keeps_held t u"
    by (rule runsD)
  with t keeps_held_trans show "\<exists>s'. sbind m f s = Inr (r, s') \<and> at_disk n H d' s' \<and> keeps_held s s'"
    by (auto simp: sbind_def)
qed

lemma slift_assert [simp]: "sbind (slift (Inr x)) f = f x" "sbind (sret x) f = f x"
  by (simp_all add: sbind_def slift_def sret_def fun_eq_iff)

lemma sbind_assoc: "sbind (sbind m f) g = sbind m (\<lambda>x. sbind (f x) g)"
  by (simp add: sbind_def fun_eq_iff rbind_assoc split_def)

lemma cache_lock_ok:
  assumes at: "at_disk n H d s" and b: "b < n" "b \<notin> H" and H: "card H < BLOCK_CACHE_SIZE"
  shows "\<exists>s' c. cache_lock b s = Inr s' \<and> at_disk n (insert b H) d s' \<and> arcs s' = b # arcs s \<and>
    map_of (bcm_queue s') b = Some c \<and> bc_cache c = d b \<and>
    (\<forall>k \<in> set (arcs s). map_of (bcm_queue s') k = map_of (bcm_queue s) k)"
proof -
  have ok: "cache_ok s" using at by (simp add: at_disk_def)
  then have "length (arcs s) = card (set (arcs s))" by (simp add: cache_ok_def distinct_card)
  with H at have "length (arcs s) < BLOCK_CACHE_SIZE" by (simp add: at_disk_def)
  with get_block_cache_ok [OF ok, of b] b at obtain t where t: "get_block_cache b s = Inr t" "same_disk s t"
    "b \<in> fst ` set (bcm_queue t)" by (auto simp: at_disk_def)
  let ?t = "t\<lparr>arcs := b # arcs t\<rparr>"
  have "cache_lock b s = Inr ?t" using t b at by (simp add: cache_lock_def same_disk_def at_disk_def)
  moreover have "at_disk n (insert b H) d ?t"
    using t b at by (auto simp: same_disk_def at_disk_def cache_ok_def)
  moreover from t(3) obtain c where c: "map_of (bcm_queue t) b = Some c"
    by (auto simp flip: dom_map_of_conv_image_fst)
  moreover from this t(2) at have "bc_cache c = d b"
    by (auto simp: same_disk_def at_disk_def view_def fun_eq_iff split: option.splits)
  ultimately show ?thesis using t(2) by (auto simp: same_disk_def)
qed

lemma cache_unlock_ok:
  assumes "at_disk n (insert b H) d s" and "arcs s = b # as" and "set as = H"
  shows "at_disk n H d (cache_unlock b s)" "arcs (cache_unlock b s) = as"
  using assms by (auto simp: at_disk_def cache_unlock_def cache_ok_def view_def)

lemma map_of_set_entry:
  "map_of (bcm_queue (set_entry b c s)) k =
     (if k = b then map_option (\<lambda>_. c) (map_of (bcm_queue s) b) else map_of (bcm_queue s) k)"
proof -
  have "map_of (map (\<lambda>(k, c'). (k, if k = b then c else c')) q) k =
      (if k = b then map_option (\<lambda>_. c) (map_of q b) else map_of q k)" for q :: "(nat \<times> BlockCache) list"
    by (induction q) auto
  then show ?thesis by (simp add: set_entry_def)
qed

lemma set_entry_ok:
  assumes at: "at_disk n H d s" and c: "map_of (bcm_queue s) b = Some c"
    and c': "bc_block_id c' = b" "length (bc_cache c') = BLOCK_SZ" "bc_modified c'"
  shows "at_disk n H (d(b := bc_cache c')) (set_entry b c' s)" "arcs (set_entry b c' s) = arcs s"
proof -
  let ?g = "\<lambda>(k, c''). (k, if k = b then c' else c'')"
  have fst: "map fst (map ?g q) = map fst q" for q :: "(nat \<times> BlockCache) list"
    by (induction q) auto
  then have fst': "fst ` ?g ` set q = fst ` set q" for q :: "(nat \<times> BlockCache) list"
    by (metis list.set_map)
  have "(b, c) \<in> set (bcm_queue s)" using c by (rule map_of_SomeD)
  then have "b < n" using at by (auto simp: at_disk_def cache_ok_def entry_ok_def)
  then have "cache_ok (set_entry b c' s)"
    using at c' by (auto simp: at_disk_def cache_ok_def set_entry_def fst fst' entry_ok_def
        simp del: map_map image_image split: if_splits)
  moreover have "view (set_entry b c' s) k = (if k = b then bc_cache c' else view s k)" for k
    using c by (simp add: view_def map_of_set_entry split: option.splits) (simp add: set_entry_def)
  then have "view (set_entry b c' s) = d(b := bc_cache c')"
    using at by (simp add: at_disk_def fun_eq_iff)
  ultimately show "at_disk n H (d(b := bc_cache c')) (set_entry b c' s)"
    using at by (simp add: at_disk_def set_entry_def)
qed (simp add: set_entry_def)

lemma at_disk_length: "at_disk n H d s \<Longrightarrow> length (d b) = BLOCK_SZ"
  by (auto simp: at_disk_def cache_ok_def view_def entry_ok_def dest: map_of_SomeD split: option.splits)

lemma runs_cache_read:
  assumes b: "b < n" "b \<notin> H" and H: "card H < BLOCK_CACHE_SIZE" and off: "off + ts \<le> BLOCK_SZ" "0 < ts"
    and f: "runs n (insert b H) (f (slice off ts (d b))) d v d'"
  shows "runs n H (cache_read ts b off f) d v d'"
  unfolding runs_def
proof (intro allI impI)
  fix s assume at: "at_disk n H d s"
  from cache_lock_ok [OF at b H] obtain t c where
    t: "cache_lock b s = Inr t" "at_disk n (insert b H) d t" "arcs t = b # arcs s"
    "map_of (bcm_queue t) b = Some c" "bc_cache c = d b"
    "\<forall>k \<in> set (arcs s). map_of (bcm_queue t) k = map_of (bcm_queue s) k" by blast
  have "get_ref ts off c = Inr (slice off ts (d b))"
    using off at_disk_length [OF at, of b] t(5) by (simp add: get_ref_def addr_of_offset_def)
  moreover from f t(2) obtain u where u: "f (slice off ts (d b)) t = Inr (v, u)"
    "at_disk n (insert b H) d' u" "keeps_held t u" by (rule runsD)
  ultimately have "cache_read ts b off f s = Inr (v, cache_unlock b u)"
    using t by (simp add: cache_read_def)
  moreover have au: "arcs u = b # arcs s" "set (arcs s) = H"
    using u(3) t(3) at by (simp_all add: keeps_held_def at_disk_def)
  note ul = cache_unlock_ok [OF u(2) au]
  moreover have "keeps_held s (cache_unlock b u)"
    using u(3) t(3,6) ul(2) by (auto simp: keeps_held_def) (simp add: cache_unlock_def)
  ultimately show "\<exists>s'. cache_read ts b off f s = Inr (v, s') \<and> at_disk n H d' s' \<and> keeps_held s s'"
    by blast
qed

lemma runs_cache_modify:
  assumes b: "b < n" "b \<notin> H" and H: "card H < BLOCK_CACHE_SIZE" and off: "off + ts \<le> BLOCK_SZ" "0 < ts"
    and f: "runs n (insert b H) (f (slice off ts (d b))) d (v, bs) e" and bs: "length bs = ts"
    and d': "d' = e(b := splice off bs (d b))"
  shows "runs n H (cache_modify ts b off f) d v d'"
  unfolding runs_def
proof (intro allI impI)
  fix s assume at: "at_disk n H d s"
  from cache_lock_ok [OF at b H] obtain t c where
    t: "cache_lock b s = Inr t" "at_disk n (insert b H) d t" "arcs t = b # arcs s"
    "map_of (bcm_queue t) b = Some c" "bc_cache c = d b"
    "\<forall>k \<in> set (arcs s). map_of (bcm_queue t) k = map_of (bcm_queue s) k" by blast
  let ?c = "c\<lparr>bc_modified := True\<rparr>"
  have len: "length (d b) = BLOCK_SZ" by (rule at_disk_length [OF at])
  have mut: "get_mut ts off c = Inr (slice off ts (d b), ?c)"
    using off len t(5) by (simp add: get_mut_def addr_of_offset_def Let_def)
  have id: "bc_block_id c = b"
    using t(2) map_of_SomeD [OF t(4)] by (auto simp: at_disk_def cache_ok_def entry_ok_def)
  have "at_disk n (insert b H) (d(b := bc_cache ?c)) (set_entry b ?c t)" "arcs (set_entry b ?c t) = arcs t"
    using set_entry_ok [OF t(2,4), of ?c] id len t(5) by simp_all
  then have at1: "at_disk n (insert b H) d (set_entry b ?c t)"
    and arcs1: "arcs (set_entry b ?c t) = b # arcs s" using t(3,5) by (auto simp: fun_upd_idem)
  from f at1 obtain u where u: "f (slice off ts (d b)) (set_entry b ?c t) = Inr ((v, bs), u)"
    "at_disk n (insert b H) e u" "keeps_held (set_entry b ?c t) u" by (rule runsD)
  have bu: "map_of (bcm_queue u) b = Some ?c"
    using u(3) arcs1 t(4) by (simp add: keeps_held_def map_of_set_entry)
  let ?c2 = "?c\<lparr>bc_cache := splice off bs (bc_cache ?c)\<rparr>"
  let ?w = "set_entry b ?c2 u"
  have w: "at_disk n (insert b H) d' ?w" "arcs ?w = arcs u"
    using set_entry_ok [OF u(2) bu, of ?c2] id len t(5) bs off d' by simp_all
  have aw: "arcs ?w = b # arcs s" "set (arcs s) = H"
    using u(3) w(2) arcs1 at by (simp_all add: keeps_held_def at_disk_def)
  note ul = cache_unlock_ok [OF w(1) aw]
  have "cache_modify ts b off f s = Inr (v, cache_unlock b ?w)"
    using t(1,4) mut u(1) bu by (simp add: cache_modify_def)
  moreover have "map_of (bcm_queue (cache_unlock b ?w)) k = map_of (bcm_queue s) k"
    if "k \<in> set (arcs s)" for k
    using that u(3) arcs1 t(6) b(2) aw(2)
    by (auto simp: keeps_held_def cache_unlock_def map_of_set_entry)
  ultimately show "\<exists>s'. cache_modify ts b off f s = Inr (v, s') \<and> at_disk n H d' s' \<and> keeps_held s s'"
    using ul by (auto simp: keeps_held_def)
qed

text \<open>An operation that panics on every store with the given contents.\<close>

definition fails :: "nat \<Rightarrow> nat set \<Rightarrow> 'a op \<Rightarrow> disk \<Rightarrow> panic \<Rightarrow> bool" where
  "fails n H m d e \<longleftrightarrow> (\<forall>s. at_disk n H d s \<longrightarrow> m s = Inl e)"

lemma fails_slift [simp, intro]: "fails n H (slift (Inl e)) d e"
  by (simp add: fails_def slift_def)

lemma fails_sbind1: "fails n H m d e \<Longrightarrow> fails n H (sbind m f) d e"
  by (simp add: fails_def sbind_def)

lemma fails_sbind2: "runs n H m d x d' \<Longrightarrow> fails n H (f x) d' e \<Longrightarrow> fails n H (sbind m f) d e"
  by (fastforce simp: fails_def runs_def sbind_def)

lemma fails_cache_modify:
  assumes b: "b < n" "b \<notin> H" and H: "card H < BLOCK_CACHE_SIZE" and off: "off + ts \<le> BLOCK_SZ" "0 < ts"
    and f: "fails n (insert b H) (f (slice off ts (d b))) d e"
  shows "fails n H (cache_modify ts b off f) d e"
  unfolding fails_def
proof (intro allI impI)
  fix s assume at: "at_disk n H d s"
  from cache_lock_ok [OF at b H] obtain t c where
    t: "cache_lock b s = Inr t" "at_disk n (insert b H) d t" "map_of (bcm_queue t) b = Some c"
    "bc_cache c = d b" by blast
  let ?c = "c\<lparr>bc_modified := True\<rparr>"
  have len: "length (d b) = BLOCK_SZ" by (rule at_disk_length [OF at])
  have mut: "get_mut ts off c = Inr (slice off ts (d b), ?c)"
    using off len t(4) by (simp add: get_mut_def addr_of_offset_def Let_def)
  have id: "bc_block_id c = b"
    using t(2) map_of_SomeD [OF t(3)] by (auto simp: at_disk_def cache_ok_def entry_ok_def)
  have "at_disk n (insert b H) (d(b := bc_cache ?c)) (set_entry b ?c t)"
    using set_entry_ok(1) [OF t(2,3), of ?c] id len t(4) by simp
  then have "at_disk n (insert b H) d (set_entry b ?c t)" using t(4) by (auto simp: fun_upd_idem)
  with f t(1,3) mut show "cache_modify ts b off f s = Inl e"
    by (simp add: cache_modify_def fails_def)
qed

text \<open>Writing back every modified block leaves the device equal to the contents.\<close>

lemma sync_loop:
  assumes "\<forall>e \<in> set q. entry_ok f e" and "\<forall>b. length (bf_blocks f b) = BLOCK_SZ" and "as = []"
    and "distinct (map fst q)"
  shows "\<exists>f'. rfold (\<lambda>(k, c) (q, f). if k \<in> set as then Inl Lock_Held
        else rbind (bc_sync c f) (\<lambda>(c, f). Inr (vec_push q (k, c), f))) q (p, f) =
      Inr (p @ map (\<lambda>(k, c). (k, c\<lparr>bc_modified := False\<rparr>)) q, f') \<and>
    bf_len f' = bf_len f \<and>
    bf_blocks f' = (\<lambda>b. case map_of q b of Some c \<Rightarrow> bc_cache c | None \<Rightarrow> bf_blocks f b)"
  using assms
proof (induction q arbitrary: p f)
  case Nil
  then show ?case by simp
next
  case (Cons e q)
  obtain k c where e: "e = (k, c)" by fastforce
  with Cons.prems obtain g where g: "bc_sync c f = Inr (c\<lparr>bc_modified := False\<rparr>, g)" "bf_len g = bf_len f"
    "bf_blocks g = (bf_blocks f)(k := bc_cache c)" using bc_sync_ok [of f k c] by auto
  have eok: "entry_ok f (k, c)" using Cons.prems(1) e by simp
  have k: "k \<notin> fst ` set q" using Cons.prems(4) e by simp
  have "entry_ok g x" if "x \<in> set q" for x
  proof (rule entry_ok_upd [OF _ _ g(2,3)])
    show "entry_ok f x" using Cons.prems(1) that by simp
    show "fst x \<noteq> k" using k that by auto
  qed
  then have "\<forall>e \<in> set q. entry_ok g e" by simp
  moreover have "\<forall>b. length (bf_blocks g b) = BLOCK_SZ"
    using Cons.prems(2) g(3) eok by (simp add: entry_ok_def)
  ultimately obtain f' where "rfold (\<lambda>(k, c) (q, f). if k \<in> set as then Inl Lock_Held
        else rbind (bc_sync c f) (\<lambda>(c, f). Inr (vec_push q (k, c), f))) q (p @ [(k, c\<lparr>bc_modified := False\<rparr>)], g) =
      Inr ((p @ [(k, c\<lparr>bc_modified := False\<rparr>)]) @ map (\<lambda>(k, c). (k, c\<lparr>bc_modified := False\<rparr>)) q, f')"
    "bf_len f' = bf_len g"
    "bf_blocks f' = (\<lambda>b. case map_of q b of Some c \<Rightarrow> bc_cache c | None \<Rightarrow> bf_blocks g b)"
    using Cons.IH [of g "p @ [(k, c\<lparr>bc_modified := False\<rparr>)]"] Cons.prems(3,4) by auto
  moreover have "map_of q k = None" using k by (simp add: map_of_eq_None_iff)
  ultimately show ?case
    using e g Cons.prems(3) by (auto simp: vec_push_def fun_eq_iff split: option.splits)
qed

lemma sync_all_ok:
  assumes at: "at_disk n {} d s"
  shows "\<exists>s'. block_cache_sync_all s = Inr s' \<and> at_disk n {} d s' \<and> bf_blocks (store_file s') = d \<and>
    (\<forall>(k, c) \<in> set (bcm_queue s'). \<not> bc_modified c) \<and> arcs s' = arcs s"
proof -
  let ?g = "\<lambda>(k, c). (k, c\<lparr>bc_modified := False\<rparr>)"
  have ok: "cache_ok s" and as: "arcs s = []" and v: "view s = d" and n: "bf_len (store_file s) = n"
    using at by (simp_all add: at_disk_def)
  obtain f' where f': "block_cache_sync_all s = Inr (s\<lparr>bcm_queue := map ?g (bcm_queue s), store_file := f'\<rparr>)"
    "bf_len f' = n"
    "bf_blocks f' = (\<lambda>b. case map_of (bcm_queue s) b of Some c \<Rightarrow> bc_cache c | None \<Rightarrow> bf_blocks (store_file s) b)"
    using sync_loop [of "bcm_queue s" "store_file s" "arcs s" "[]"] ok as n
    by (auto simp: block_cache_sync_all_def cache_ok_def)
  let ?s = "s\<lparr>bcm_queue := map ?g (bcm_queue s), store_file := f'\<rparr>"
  have dev: "bf_blocks f' = d" using f'(3) v by (simp add: view_def fun_eq_iff)
  have mo: "map_of (map ?g q) k = map_option (\<lambda>c. c\<lparr>bc_modified := False\<rparr>) (map_of q k)" for q k
    by (induction q) auto
  have fst: "map fst (map ?g q) = map fst q" for q :: "(nat \<times> BlockCache) list"
    by (induction q) auto
  have vs: "view ?s = d"
    using v dev by (auto simp: view_def fun_eq_iff mo split: option.splits)
  have "entry_ok f' (k, c\<lparr>bc_modified := False\<rparr>)" if "(k, c) \<in> set (bcm_queue s)" for k c
  proof -
    have "map_of (bcm_queue s) k = Some c" using that ok by (simp add: cache_ok_def)
    then have "bf_blocks f' k = bc_cache c" using f'(3) by simp
    with that ok f'(2) n show ?thesis by (auto simp: cache_ok_def entry_ok_def)
  qed
  then have "cache_ok ?s"
    using ok as dev at_disk_length [OF at] by (auto simp: cache_ok_def fst simp del: map_map)
  with vs f' dev as n show ?thesis by (auto simp: at_disk_def)
qed

lemma runs_sync_all: "runs n {} sync_all d () d"
  unfolding runs_def
proof (intro allI impI)
  fix s assume "at_disk n {} d s"
  from sync_all_ok [OF this] this
  show "\<exists>s'. sync_all s = Inr ((), s') \<and> at_disk n {} d s' \<and> keeps_held s s'"
    by (auto simp: sync_all_def keeps_held_def at_disk_def)
qed

section \<open>The contract of a block store\<close>

text \<open>Reading and writing whole blocks, and flushing, over contents that may be buffered.\<close>

locale block_store =
  fixes rd :: "nat \<Rightarrow> 's \<Rightarrow> (block \<times> 's) res"
    and wr :: "nat \<Rightarrow> block \<Rightarrow> 's \<Rightarrow> (unit \<times> 's) res"
    and flush :: "'s \<Rightarrow> (unit \<times> 's) res"
    and contents :: "'s \<Rightarrow> nat \<Rightarrow> block"
    and device :: "'s \<Rightarrow> nat \<Rightarrow> block"
    and blocks :: "nat set"
    and inv :: "'s \<Rightarrow> bool"
  assumes rd_ok: "inv s \<Longrightarrow> b \<in> blocks \<Longrightarrow>
      \<exists>s'. rd b s = Inr (contents s b, s') \<and> contents s' = contents s \<and> inv s'"
    and wr_ok: "inv s \<Longrightarrow> b \<in> blocks \<Longrightarrow> length x = BLOCK_SZ \<Longrightarrow>
      \<exists>s'. wr b x s = Inr ((), s') \<and> contents s' = (contents s)(b := x) \<and> inv s'"
    and flush_ok: "inv s \<Longrightarrow>
      \<exists>s'. flush s = Inr ((), s') \<and> contents s' = contents s \<and> device s' = contents s \<and> inv s'"
begin

definition wr_all :: "(nat \<times> block) list \<Rightarrow> 's \<Rightarrow> 's res" where
  "wr_all = rfold (\<lambda>(b, x) s. rbind (wr b x s) (\<lambda>(_, s). Inr s))"

lemma wr_all_ok:
  assumes "inv s" and "\<forall>(b, x) \<in> set ws. b \<in> blocks \<and> length x = BLOCK_SZ"
  shows "\<exists>s'. wr_all ws s = Inr s' \<and> inv s' \<and>
    contents s' = (\<lambda>b. case map_of (rev ws) b of Some x \<Rightarrow> x | None \<Rightarrow> contents s b)"
  using assms
proof (induction ws arbitrary: s)
  case Nil
  then show ?case by (simp add: wr_all_def)
next
  case (Cons e ws)
  obtain b x where e: "e = (b, x)" by fastforce
  with Cons.prems obtain t where t: "wr b x s = Inr ((), t)" "contents t = (contents s)(b := x)" "inv t"
    using wr_ok [of s b x] by auto
  from Cons.IH [OF t(3)] Cons.prems(2) obtain u where u: "wr_all ws t = Inr u" "inv u"
    "contents u = (\<lambda>b. case map_of (rev ws) b of Some x \<Rightarrow> x | None \<Rightarrow> contents t b)" by auto
  with t e show ?case by (auto simp: wr_all_def fun_eq_iff map_add_def split: option.splits)
qed

text \<open>Any batch of writes is read back and reaches the device with the next flush.\<close>

lemma wr_all_flush:
  assumes "inv s" and "\<forall>(b, x) \<in> set ws. b \<in> blocks \<and> length x = BLOCK_SZ"
  shows "\<exists>s' s''. wr_all ws s = Inr s' \<and> flush s' = Inr ((), s'') \<and>
    (\<forall>b \<in> blocks. \<exists>t. rd b s' = Inr (device s'' b, t)) \<and>
    device s'' = (\<lambda>b. case map_of (rev ws) b of Some x \<Rightarrow> x | None \<Rightarrow> contents s b)"
proof -
  obtain s' where s': "wr_all ws s = Inr s'" "inv s'"
    "contents s' = (\<lambda>b. case map_of (rev ws) b of Some x \<Rightarrow> x | None \<Rightarrow> contents s b)"
    using wr_all_ok [OF assms] by blast
  moreover obtain s'' where "flush s' = Inr ((), s'')" "device s'' = contents s'"
    using flush_ok [OF s'(2)] by blast
  moreover have "\<exists>t. rd b s' = Inr (contents s' b, t)" if "b \<in> blocks" for b
    using rd_ok [OF s'(2) that] by blast
  ultimately show ?thesis by auto
qed

end

definition read_block_op :: "nat \<Rightarrow> block op" where
  "read_block_op b = cache_read BLOCK_SZ b 0 sret"

definition write_block_op :: "nat \<Rightarrow> block \<Rightarrow> unit op" where
  "write_block_op b x = cache_modify BLOCK_SZ b 0 (\<lambda>_. sret ((), x))"

lemma idle_at_disk: "cache_ok s \<and> arcs s = [] \<and> bf_len (store_file s) = n \<longleftrightarrow> at_disk n {} (view s) s"
  by (auto simp: at_disk_def)

interpretation cached: block_store read_block_op write_block_op sync_all view
  "\<lambda>s. bf_blocks (store_file s)" "{..<n}"
  "\<lambda>s. cache_ok s \<and> arcs s = [] \<and> bf_len (store_file s) = n" for n
proof unfold_locales
  fix s b and x :: block
  assume "cache_ok s \<and> arcs s = [] \<and> bf_len (store_file s) = n"
  then have at: "at_disk n {} (view s) s" by (simp add: idle_at_disk)
  then have len: "length (view s k) = BLOCK_SZ" for k by (rule at_disk_length)
  show "\<exists>s'. sync_all s = Inr ((), s') \<and> view s' = view s \<and> bf_blocks (store_file s') = view s \<and>
      cache_ok s' \<and> arcs s' = [] \<and> bf_len (store_file s') = n"
    using sync_all_ok [OF at] by (auto simp: sync_all_def at_disk_def)
  assume "b \<in> {..<n}"
  then have b: "b < n" by simp
  have rd: "runs n {} (read_block_op b) (view s) (view s b) (view s)"
    unfolding read_block_op_def using b len
    by (intro runs_cache_read) (auto simp: BLOCK_CACHE_SIZE_def BLOCK_SZ_def)
  show "\<exists>s'. read_block_op b s = Inr (view s b, s') \<and> view s' = view s \<and>
      cache_ok s' \<and> arcs s' = [] \<and> bf_len (store_file s') = n"
    using runsD [OF rd at] by (auto simp: at_disk_def)
  assume x: "length x = BLOCK_SZ"
  have wr: "runs n {} (write_block_op b x) (view s) () ((view s)(b := x))"
    unfolding write_block_op_def using b len x
    by (intro runs_cache_modify [where e = "view s" and bs = x])
      (auto simp: BLOCK_CACHE_SIZE_def BLOCK_SZ_def)
  show "\<exists>s'. write_block_op b x s = Inr ((), s') \<and> view s' = (view s)(b := x) \<and>
      cache_ok s' \<and> arcs s' = [] \<and> bf_len (store_file s') = n"
    using runsD [OF wr at] by (auto simp: at_disk_def)
qed

section \<open>Properties of the block cache\<close>

definition write_blocks :: "(nat \<times> block) list \<Rightarrow> store \<Rightarrow> store res" where
  "write_blocks = rfold (\<lambda>(b, x) s. rbind (write_block_op b x s) (\<lambda>(_, s). Inr s))"

text \<open>
  C13: the cache is transparent and write-back. After any sequence of whole-block writes through
  the cache, however many blocks were evicted meanwhile, reading a block returns the bytes
  written to it last, and after \<open>block_cache_sync_all\<close> the host file holds exactly these bytes.
\<close>

theorem cached_writes_read_back_and_persist:
  assumes "cache_ok s" and "arcs s = []"
    and "\<forall>(b, x) \<in> set ws. b < bf_len (store_file s) \<and> length x = BLOCK_SZ"
  shows "\<exists>s' s''. write_blocks ws s = Inr s' \<and> block_cache_sync_all s' = Inr s'' \<and>
    (\<forall>b < bf_len (store_file s). \<exists>t. read_block_op b s' = Inr (bf_blocks (store_file s'') b, t)) \<and>
    bf_blocks (store_file s'') =
      (\<lambda>b. case map_of (rev ws) b of Some x \<Rightarrow> x | None \<Rightarrow> view s b)"
  using cached.wr_all_flush [of s "bf_len (store_file s)" ws] assms
  by (fastforce simp: cached.wr_all_def write_blocks_def sync_all_def elim!: rbind_eq_InrE)

definition sample_file :: "nat \<Rightarrow> BlockFile" where
  "sample_file n = \<lparr>bf_blocks = (\<lambda>_. replicate BLOCK_SZ 0), bf_len = n\<rparr>"

definition empty_store :: "BlockFile \<Rightarrow> store" where
  "empty_store f = \<lparr>bcm_queue = [], store_file = f, arcs = []\<rparr>"

lemma empty_store_ok:
  "cache_ok (empty_store (sample_file n))" "arcs (empty_store f) = []" "store_file (empty_store f) = f"
  by (simp_all add: cache_ok_def empty_store_def sample_file_def)

theorem cached_writes_read_back_and_persist_witness:
  "\<exists>s' s''. write_blocks [(3, replicate 512 1), (7, replicate 512 2), (3, replicate 512 9)]
       (empty_store (sample_file 20)) = Inr s' \<and>
     block_cache_sync_all s' = Inr s'' \<and> bf_blocks (store_file s'') 3 = replicate 512 9"
  using cached_writes_read_back_and_persist [of "empty_store (sample_file 20)"
      "[(3, replicate 512 1), (7, replicate 512 2), (3, replicate 512 9)]"] empty_store_ok
  by (auto simp: BLOCK_SZ_def sample_file_def)

text \<open>
  C14: requesting a block keeps the cache invariant (at most 16 blocks, each id once, clean
  entries equal to the device), never changes the contents of the disk and never drops a block
  in use; it fails only when the block is not cached and all 16 cached blocks are in use.
\<close>

theorem get_block_cache_transparent:
  assumes "cache_ok s" and "b < bf_len (store_file s)"
  shows "(\<exists>s'. get_block_cache b s = Inr s' \<and> cache_ok s' \<and> view s' = view s \<and>
      b \<in> fst ` set (bcm_queue s') \<and>
      (\<forall>k \<in> set (arcs s). map_of (bcm_queue s') k = map_of (bcm_queue s) k)) \<or>
    get_block_cache b s = Inl Explicit_Panic \<and> b \<notin> fst ` set (bcm_queue s) \<and>
      length (bcm_queue s) = BLOCK_CACHE_SIZE \<and> set (arcs s) = fst ` set (bcm_queue s)"
proof (cases "b \<in> fst ` set (bcm_queue s) \<or> length (arcs s) < BLOCK_CACHE_SIZE")
  case True
  then have "\<exists>s'. get_block_cache b s = Inr s' \<and> same_disk s s' \<and> b \<in> fst ` set (bcm_queue s')"
  proof
    assume b: "b \<in> fst ` set (bcm_queue s)"
    then obtain c where "map_of (bcm_queue s) b = Some c" by (auto simp flip: dom_map_of_conv_image_fst)
    with b assms(1) show ?thesis by (auto simp: get_block_cache_def find_fst_map_of same_disk_def)
  qed (rule get_block_cache_ok [OF assms])
  then show ?thesis unfolding same_disk_def by blast
next
  case False
  have dist: "distinct (map fst (bcm_queue s))" "distinct (arcs s)" using assms(1) by (simp_all add: cache_ok_def)
  have card: "card (set (arcs s)) = length (arcs s)" "set (arcs s) \<subseteq> fst ` set (bcm_queue s)"
    "card (fst ` set (bcm_queue s)) = length (bcm_queue s)" "length (bcm_queue s) \<le> BLOCK_CACHE_SIZE"
    using assms(1) distinct_card [OF dist(1)] distinct_card [OF dist(2)] by (simp_all add: cache_ok_def)
  from card_mono [OF _ card(2)] card False
  have full: "length (bcm_queue s) = BLOCK_CACHE_SIZE" "length (arcs s) = BLOCK_CACHE_SIZE" by auto
  with card have eq: "set (arcs s) = fst ` set (bcm_queue s)" by (intro card_subset_eq) auto
  then have "\<forall>p \<in> set (bcm_queue s). fst p \<in> set (arcs s)" by simp
  then have "find_index (\<lambda>(k, c). strong_count s k = 1) (bcm_queue s) = None"
    by (simp add: find_index_None strong_count_def count_list_0_iff split_def)
  then have "bcm_evict s = Inl Explicit_Panic" unfolding bcm_evict_def by simp
  moreover have "map_of (bcm_queue s) b = None" using False by (simp add: map_of_eq_None_iff)
  ultimately show ?thesis using full eq False by (simp add: get_block_cache_def find_fst_map_of)
qed

theorem get_block_cache_transparent_witness:
  "\<exists>s'. get_block_cache 5 (empty_store (sample_file 20)) = Inr s' \<and> cache_ok s' \<and>
     view s' = view (empty_store (sample_file 20))"
  using get_block_cache_transparent [of "empty_store (sample_file 20)" 5] empty_store_ok
  by (auto simp: sample_file_def empty_store_def BLOCK_CACHE_SIZE_def)

text \<open>
  Replacement is first-in first-out among the blocks that are not in use. On a miss with a
  full queue, the first entry without a clone outside the manager is written back if it was
  modified and removed, the order of the others is kept, and the new block goes to the back.
\<close>

theorem replacement_is_fifo:
  assumes "cache_ok s" and "b < bf_len (store_file s)"
    and "bcm_queue s = used @ (k, c) # rest" and "length (bcm_queue s) = BLOCK_CACHE_SIZE"
    and "fst ` set used \<subseteq> set (arcs s)" and "k \<notin> set (arcs s)" and "b \<notin> fst ` set (bcm_queue s)"
  shows "\<exists>s'. get_block_cache b s = Inr s' \<and>
    map fst (bcm_queue s') = map fst used @ map fst rest @ [b] \<and>
    bf_blocks (store_file s') = (bf_blocks (store_file s))(k := bc_cache c)"
proof -
  have e: "entry_ok (store_file s) (k, c)"
    and len: "\<forall>b. length (bf_blocks (store_file s) b) = BLOCK_SZ"
    using assms(1,3) by (simp_all add: cache_ok_def)
  obtain f where f: "bc_sync c (store_file s) = Inr (c\<lparr>bc_modified := False\<rparr>, f)"
    "bf_len f = bf_len (store_file s)" "bf_blocks f = (bf_blocks (store_file s))(k := bc_cache c)"
    using bc_sync_ok [OF e len] by blast
  have "strong_count s (fst (used ! j)) \<noteq> 1" if "j < length used" for j
    using that assms(5) by (auto simp: strong_count_def count_list_0_iff subset_iff)
  moreover have "strong_count s k = 1" using assms(6) by (simp add: strong_count_def count_list_0_iff)
  ultimately have "find_index (\<lambda>(k, c). strong_count s k = 1) (bcm_queue s) = Some (length used)"
    by (simp add: find_index_Some assms(3) nth_append split_def)
  then have "bcm_evict s = Inr (s\<lparr>bcm_queue := used @ rest, store_file := f\<rparr>)"
    unfolding bcm_evict_def by (simp add: assms(3) bc_drop_def f(1) vec_remove_def)
  moreover have "map_of (bcm_queue s) b = None" using assms(7) by (simp add: map_of_eq_None_iff)
  ultimately show ?thesis
    using assms(2,4) f by (simp add: get_block_cache_def find_fst_map_of BlockCache_new_def
        bf_read_block_def vec_push_def)
qed

definition full_store :: store where
  "full_store = \<lparr>bcm_queue = map (\<lambda>k. (k, \<lparr>bc_cache = replicate 512 (if k = 1 then 5 else 0),
       bc_block_id = k, bc_modified = (k = 1)\<rparr>)) [0..<16], store_file = sample_file 20, arcs = [0]\<rparr>"

theorem replacement_is_fifo_witness:
  "\<exists>s'. get_block_cache 18 full_store = Inr s' \<and>
     map fst (bcm_queue s') = [0, 2, 3, 4, 5, 6, 7, 8, 9, 10, 11, 12, 13, 14, 15, 18] \<and>
     bf_blocks (store_file s') 1 = replicate 512 5"
proof -
  have ok: "cache_ok full_store"
    by (auto simp: cache_ok_def full_store_def sample_file_def BLOCK_CACHE_SIZE_def BLOCK_SZ_def
        entry_ok_def comp_def image_image)
  let ?c = "\<lambda>k. \<lparr>bc_cache = replicate 512 (if k = 1 then 5 else 0), bc_block_id = k, bc_modified = (k = 1)\<rparr>"
  have q: "bcm_queue full_store = [(0, ?c 0)] @ (1, ?c 1) # map (\<lambda>k. (k, ?c k)) [2..<16]"
    by (simp add: full_store_def upt_conv_Cons)
  have "length (bcm_queue full_store) = BLOCK_CACHE_SIZE" "18 \<notin> fst ` set (bcm_queue full_store)"
    "18 < bf_len (store_file full_store)" "fst ` set [(0, ?c 0)] \<subseteq> set (arcs full_store)"
    "1 \<notin> set (arcs full_store)"
    by (auto simp: full_store_def BLOCK_CACHE_SIZE_def sample_file_def)
  with replacement_is_fifo [OF ok _ q, of 18] show ?thesis by (auto simp: comp_def upt_rec)
qed

end
