(* ===== verification/Layout.thy ===== *)
theory Layout
  imports Block_Cache
begin

text \<open>
  The structures on disk (\<open>easy-fs/src/layout.rs\<close>): super block, inode, directory entry, and the
  operations of \<open>DiskInode\<close> that follow and extend its block index. An unsigned 32-bit field is
  a natural number below \<open>2 ^ 32\<close>; arithmetic on \<open>u32\<close> is reduced modulo \<open>2 ^ 32\<close> where the
  sources can wrap. A block seen as \<open>[u32; 128]\<close> is accessed by \<open>read_u 4\<close> and \<open>write_u 4\<close>.
\<close>

section \<open>Constants\<close>

definition EFS_MAGIC :: nat where "EFS_MAGIC = 0x3b800001"
definition INODE_DIRECT_COUNT :: nat where "INODE_DIRECT_COUNT = 28"
definition NAME_LENGTH_LIMIT :: nat where "NAME_LENGTH_LIMIT = 27"
definition INODE_INDIRECT1_COUNT :: nat where "INODE_INDIRECT1_COUNT = BLOCK_SZ div 4"
definition INODE_INDIRECT2_COUNT :: nat where
  "INODE_INDIRECT2_COUNT = INODE_INDIRECT1_COUNT * INODE_INDIRECT1_COUNT"
definition DIRECT_BOUND :: nat where "DIRECT_BOUND = INODE_DIRECT_COUNT"
definition INDIRECT1_BOUND :: nat where "INDIRECT1_BOUND = DIRECT_BOUND + INODE_INDIRECT1_COUNT"
definition INDIRECT2_BOUND :: nat where "INDIRECT2_BOUND = INDIRECT1_BOUND + INODE_INDIRECT2_COUNT"
definition DIRENT_SZ :: nat where "DIRENT_SZ = 32"

lemma layout_consts [simp]:
  "INODE_DIRECT_COUNT = 28" "NAME_LENGTH_LIMIT = 27" "INODE_INDIRECT1_COUNT = 128"
  "INODE_INDIRECT2_COUNT = 16384" "INDIRECT1_BOUND = 156" "INDIRECT2_BOUND = 16540" "DIRENT_SZ = 32"
  by (simp_all add: INODE_DIRECT_COUNT_def NAME_LENGTH_LIMIT_def INODE_INDIRECT1_COUNT_def
      INODE_INDIRECT2_COUNT_def DIRECT_BOUND_def INDIRECT1_BOUND_def INDIRECT2_BOUND_def
      DIRENT_SZ_def BLOCK_SZ_def)

section \<open>Super block\<close>

record SuperBlock =
  sb_magic :: nat
  sb_total_blocks :: nat
  sb_inode_bitmap_blocks :: nat
  sb_inode_area_blocks :: nat
  sb_data_bitmap_blocks :: nat
  sb_data_area_blocks :: nat

text \<open>The \<open>repr(C)\<close> layout: six \<open>u32\<close> in order, 24 bytes.\<close>

definition SuperBlock_size :: nat where "SuperBlock_size = 24"

definition superblock_dec :: "u8 list \<Rightarrow> SuperBlock" where
  "superblock_dec bs =
     \<lparr>sb_magic = read_u 4 bs 0, sb_total_blocks = read_u 4 bs 1,
      sb_inode_bitmap_blocks = read_u 4 bs 2, sb_inode_area_blocks = read_u 4 bs 3,
      sb_data_bitmap_blocks = read_u 4 bs 4, sb_data_area_blocks = read_u 4 bs 5\<rparr>"

definition superblock_enc :: "SuperBlock \<Rightarrow> u8 list" where
  "superblock_enc sb =
     concat (map (le_bytes 4)
       [sb_magic sb, sb_total_blocks sb, sb_inode_bitmap_blocks sb, sb_inode_area_blocks sb,
        sb_data_bitmap_blocks sb, sb_data_area_blocks sb])"

definition SuperBlock_initialize :: "nat \<Rightarrow> nat \<Rightarrow> nat \<Rightarrow> nat \<Rightarrow> nat \<Rightarrow> SuperBlock" where
  "SuperBlock_initialize total_blocks inode_bitmap_blocks inode_area_blocks data_bitmap_blocks
       data_area_blocks =
     \<lparr>sb_magic = EFS_MAGIC, sb_total_blocks = total_blocks,
      sb_inode_bitmap_blocks = inode_bitmap_blocks, sb_inode_area_blocks = inode_area_blocks,
      sb_data_bitmap_blocks = data_bitmap_blocks, sb_data_area_blocks = data_area_blocks\<rparr>"

definition SuperBlock_is_valid :: "SuperBlock \<Rightarrow> bool" where
  "SuperBlock_is_valid sb \<longleftrightarrow> sb_magic sb = EFS_MAGIC"

section \<open>Inodes\<close>

datatype DiskInodeType = File | Directory

fun discriminant :: "DiskInodeType \<Rightarrow> u8" where
  "discriminant File = 0"
| "discriminant Directory = 1"

text \<open>The \<open>repr(C)\<close> layout is 128 bytes: the type is one byte, followed by three of padding.\<close>

record DiskInode =
  di_size :: nat
  di_direct :: "nat list"
  di_indirect1 :: nat
  di_indirect2 :: nat
  di_type :: u8
  di_padding :: "u8 list"

definition DiskInode_size :: nat where "DiskInode_size = 128"

definition dinode_dec :: "u8 list \<Rightarrow> DiskInode" where
  "dinode_dec bs =
     \<lparr>di_size = read_u 4 bs 0, di_direct = map (\<lambda>i. read_u 4 bs (1 + i)) [0..<28],
      di_indirect1 = read_u 4 bs 29, di_indirect2 = read_u 4 bs 30,
      di_type = bs ! 124, di_padding = slice 125 3 bs\<rparr>"

definition dinode_enc :: "DiskInode \<Rightarrow> u8 list" where
  "dinode_enc di =
     concat (map (le_bytes 4) (di_size di # di_direct di @ [di_indirect1 di, di_indirect2 di])) @
     di_type di # di_padding di"

definition DiskInode_initialize :: "DiskInodeType \<Rightarrow> DiskInode \<Rightarrow> DiskInode" where
  "DiskInode_initialize ty di =
     di\<lparr>di_size := 0, di_direct := map (\<lambda>_. 0) (di_direct di), di_indirect1 := 0, di_indirect2 := 0,
        di_type := discriminant ty\<rparr>"

definition is_dir :: "DiskInode \<Rightarrow> bool" where
  "is_dir di \<longleftrightarrow> di_type di = discriminant Directory"

definition is_file :: "DiskInode \<Rightarrow> bool" where
  "is_file di \<longleftrightarrow> di_type di = discriminant File"

definition data_blocks_of :: "nat \<Rightarrow> nat" where
  "data_blocks_of sz = ((sz + BLOCK_SZ - 1) mod 2 ^ 32) div BLOCK_SZ"

definition data_blocks :: "DiskInode \<Rightarrow> nat" where
  "data_blocks di = data_blocks_of (di_size di)"

definition total_blocks :: "nat \<Rightarrow> nat" where
  "total_blocks sz =
     (let data_blocks = data_blocks_of sz;
          total = data_blocks;
          total = (if data_blocks > INODE_DIRECT_COUNT then total + 1 else total);
          total = (if data_blocks > INDIRECT1_BOUND
                   then total + 1 + (data_blocks - INDIRECT1_BOUND + INODE_INDIRECT1_COUNT - 1)
                          div INODE_INDIRECT1_COUNT
                   else total)
      in total mod 2 ^ 32)"

definition blocks_num_needed :: "DiskInode \<Rightarrow> nat \<Rightarrow> nat res" where
  "blocks_num_needed di new_size =
     rbind (rassert (new_size \<ge> di_size di)) (\<lambda>_.
     Inr ((total_blocks new_size + 2 ^ 32 - total_blocks (di_size di)) mod 2 ^ 32))"

text \<open>\<open>indirect[i]\<close> and \<open>indirect[i] = v\<close> for an \<open>IndirectBlock\<close>.\<close>

definition ib_get :: "u8 list \<Rightarrow> nat \<Rightarrow> nat res" where
  "ib_get bs i = (if i < INODE_INDIRECT1_COUNT then Inr (read_u 4 bs i) else Inl Index_Out_Of_Range)"

definition ib_set :: "u8 list \<Rightarrow> nat \<Rightarrow> nat \<Rightarrow> u8 list res" where
  "ib_set bs i v = (if i < INODE_INDIRECT1_COUNT then Inr (write_u 4 bs i v) else Inl Index_Out_Of_Range)"

definition get_block_id :: "DiskInode \<Rightarrow> nat \<Rightarrow> nat op" where
  "get_block_id di inner_id =
     (if inner_id < INODE_DIRECT_COUNT then sret (di_direct di ! inner_id)
      else if inner_id < INDIRECT1_BOUND then
        cache_read BLOCK_SZ (di_indirect1 di) 0 (\<lambda>indirect_block.
          slift (ib_get indirect_block (inner_id - INODE_DIRECT_COUNT)))
      else
        let lst = inner_id - INDIRECT1_BOUND
        in sbind (cache_read BLOCK_SZ (di_indirect2 di) 0 (\<lambda>indirect2.
                   slift (ib_get indirect2 (lst div INODE_INDIRECT1_COUNT)))) (\<lambda>indirect1.
           cache_read BLOCK_SZ indirect1 0 (\<lambda>indirect1.
             slift (ib_get indirect1 (lst mod INODE_INDIRECT1_COUNT)))))"

section \<open>Growing a file\<close>

text \<open>
  \<open>while current < bound { a[current] = new_blocks.next().unwrap(); current += 1 }\<close>, for the
  direct index and for an indirect block.
\<close>

function fill_direct :: "nat \<Rightarrow> nat \<Rightarrow> nat list \<Rightarrow> nat list \<Rightarrow> (nat \<times> nat list \<times> nat list) res" where
  "fill_direct current bound direct new_blocks =
     (if current < bound then
        case new_blocks of
          [] \<Rightarrow> Inl Unwrap_None
        | b # bs \<Rightarrow> fill_direct (current + 1) bound (direct[current := b]) bs
      else Inr (current, direct, new_blocks))"
  by pat_completeness auto
termination by (relation "measure (\<lambda>(c, b, _, _). b - c)") auto

function fill_indirect :: "nat \<Rightarrow> nat \<Rightarrow> u8 list \<Rightarrow> nat list \<Rightarrow> (nat \<times> u8 list \<times> nat list) res" where
  "fill_indirect current bound indirect1 new_blocks =
     (if current < bound then
        case new_blocks of
          [] \<Rightarrow> Inl Unwrap_None
        | b # bs \<Rightarrow> rbind (ib_set indirect1 current b) (\<lambda>indirect1.
                    fill_indirect (current + 1) bound indirect1 bs)
      else Inr (current, indirect1, new_blocks))"
  by pat_completeness auto
termination by (relation "measure (\<lambda>(c, b, _, _). b - c)") auto

declare fill_direct.simps [simp del] fill_indirect.simps [simp del]

text \<open>
  The loop over the second level from \<open>(a0, b0)\<close> to \<open>(a1, b1)\<close>. The bound on the rounds is
  the number of blocks to add, which is enough.
\<close>

fun fill_indirect2 :: "nat \<Rightarrow> nat \<Rightarrow> nat \<Rightarrow> nat \<Rightarrow> nat \<Rightarrow> u8 list \<Rightarrow> nat list \<Rightarrow> (nat list \<times> u8 list) op" where
  "fill_indirect2 fuel a0 b0 a1 b1 indirect2 new_blocks =
     (if a0 < a1 \<or> a0 = a1 \<and> b0 < b1 then
        case fuel of
          0 \<Rightarrow> slift (Inl Out_Of_Fuel)
        | Suc fuel \<Rightarrow>
            sbind (if b0 = 0 then
                     case new_blocks of
                       [] \<Rightarrow> slift (Inl Unwrap_None)
                     | b # bs \<Rightarrow> slift (rbind (ib_set indirect2 a0 b) (\<lambda>i2. Inr (i2, bs)))
                   else sret (indirect2, new_blocks)) (\<lambda>(indirect2, new_blocks).
            sbind (slift (ib_get indirect2 a0)) (\<lambda>indirect1_id.
            sbind (cache_modify BLOCK_SZ indirect1_id 0 (\<lambda>indirect1.
                     case new_blocks of
                       [] \<Rightarrow> slift (Inl Unwrap_None)
                     | b # bs \<Rightarrow> slift (rbind (ib_set indirect1 b0 b) (\<lambda>i1. Inr (bs, i1))))) (\<lambda>new_blocks.
            let b0 = b0 + 1
            in if b0 = INODE_INDIRECT1_COUNT
               then fill_indirect2 fuel (a0 + 1) 0 a1 b1 indirect2 new_blocks
               else fill_indirect2 fuel a0 b0 a1 b1 indirect2 new_blocks)))
      else sret (new_blocks, indirect2))"

declare fill_indirect2.simps [simp del]

definition increase_size :: "nat \<Rightarrow> nat list \<Rightarrow> DiskInode \<Rightarrow> DiskInode op" where
  "increase_size new_size new_blocks di =
     (let current_blocks = data_blocks di;
          di = di\<lparr>di_size := new_size\<rparr>;
          total_blocks = data_blocks di
      in sbind (slift (fill_direct current_blocks (min total_blocks INODE_DIRECT_COUNT)
                  (di_direct di) new_blocks)) (\<lambda>(current_blocks, direct, new_blocks).
         let di = di\<lparr>di_direct := direct\<rparr>
         in if total_blocks > INODE_DIRECT_COUNT then
              sbind (if current_blocks = INODE_DIRECT_COUNT then
                       case new_blocks of
                         [] \<Rightarrow> slift (Inl Unwrap_None)
                       | b # bs \<Rightarrow> sret (di\<lparr>di_indirect1 := b\<rparr>, bs)
                     else sret (di, new_blocks)) (\<lambda>(di, new_blocks).
              let current_blocks = current_blocks - INODE_DIRECT_COUNT;
                  total_blocks = total_blocks - INODE_DIRECT_COUNT
              in sbind (cache_modify BLOCK_SZ (di_indirect1 di) 0 (\<lambda>indirect1.
                          slift (rbind (fill_indirect current_blocks
                                    (min total_blocks INODE_INDIRECT1_COUNT) indirect1 new_blocks)
                                  (\<lambda>(c, i1, bs). Inr ((c, bs), i1))))) (\<lambda>(current_blocks, new_blocks).
              if total_blocks > INODE_INDIRECT1_COUNT then
                sbind (if current_blocks = INODE_INDIRECT1_COUNT then
                         case new_blocks of
                           [] \<Rightarrow> slift (Inl Unwrap_None)
                         | b # bs \<Rightarrow> sret (di\<lparr>di_indirect2 := b\<rparr>, bs)
                       else sret (di, new_blocks)) (\<lambda>(di, new_blocks).
                let current_blocks = current_blocks - INODE_INDIRECT1_COUNT;
                    total_blocks = total_blocks - INODE_INDIRECT1_COUNT;
                    a0 = current_blocks div INODE_INDIRECT1_COUNT;
                    b0 = current_blocks mod INODE_INDIRECT1_COUNT;
                    a1 = total_blocks div INODE_INDIRECT1_COUNT;
                    b1 = total_blocks mod INODE_INDIRECT1_COUNT
                in sbind (cache_modify BLOCK_SZ (di_indirect2 di) 0 (\<lambda>indirect2.
                            fill_indirect2 (total_blocks - current_blocks) a0 b0 a1 b1 indirect2
                              new_blocks)) (\<lambda>_.
                   sret di))
              else sret di))
            else sret di))"

section \<open>Releasing a file's blocks\<close>

function clear_direct :: "nat \<Rightarrow> nat \<Rightarrow> nat list \<Rightarrow> nat list \<Rightarrow> nat list \<times> nat list" where
  "clear_direct current bound direct v =
     (if current < bound
      then clear_direct (current + 1) bound (direct[current := 0]) (vec_push v (direct ! current))
      else (direct, v))"
  by pat_completeness auto
termination by (relation "measure (\<lambda>(c, b, _, _). b - c)") auto

declare clear_direct.simps [simp del]

definition clear_size :: "DiskInode \<Rightarrow> (nat list \<times> DiskInode) op" where
  "clear_size di =
     (let data_blocks = data_blocks di;
          di = di\<lparr>di_size := 0\<rparr>;
          (direct, v) = clear_direct 0 (min data_blocks INODE_DIRECT_COUNT) (di_direct di) [];
          di = di\<lparr>di_direct := direct\<rparr>
      in if data_blocks > INODE_DIRECT_COUNT then
           let v = vec_push v (di_indirect1 di);
               data_blocks = data_blocks - INODE_DIRECT_COUNT
           in sbind (cache_modify BLOCK_SZ (di_indirect1 di) 0 (\<lambda>indirect1.
                sret (v @ map (read_u 4 indirect1) [0..<min data_blocks INODE_INDIRECT1_COUNT], indirect1))) (\<lambda>v.
              let di = di\<lparr>di_indirect1 := 0\<rparr>
              in if data_blocks > INODE_INDIRECT1_COUNT then
                   let v = vec_push v (di_indirect2 di);
                       data_blocks = data_blocks - INODE_INDIRECT1_COUNT
                   in sbind (slift (rassert (data_blocks \<le> INODE_INDIRECT2_COUNT))) (\<lambda>_.
                      let a1 = data_blocks div INODE_INDIRECT1_COUNT;
                          b1 = data_blocks mod INODE_INDIRECT1_COUNT
                      in sbind (cache_modify BLOCK_SZ (di_indirect2 di) 0 (\<lambda>indirect2.
                           sbind (sfold (\<lambda>entry v.
                                   cache_modify BLOCK_SZ entry 0 (\<lambda>indirect1.
                                     sret (vec_push v entry @ map (read_u 4 indirect1) [0..<INODE_INDIRECT1_COUNT], indirect1)))
                                 (map (read_u 4 indirect2) [0..<min a1 INODE_INDIRECT1_COUNT]) v) (\<lambda>v.
                           sbind (if b1 > 0 then
                                    sbind (slift (ib_get indirect2 a1)) (\<lambda>entry.
                                    cache_modify BLOCK_SZ entry 0 (\<lambda>indirect1.
                                      sret (vec_push v entry @ map (read_u 4 indirect1) [0..<b1], indirect1)))
                                  else sret v) (\<lambda>v.
                           sret (v, indirect2))))) (\<lambda>v.
                         sret (v, di\<lparr>di_indirect2 := 0\<rparr>)))
                 else sret (v, di))
         else sret (v, di))"

section \<open>Reading and writing contents\<close>

lemma sbind_cong [fundef_cong]: "m = m' \<Longrightarrow> (\<And>x. f x = f' x) \<Longrightarrow> sbind m f = sbind m' f'"
  by (metis ext)

lemma next_block_less:
  assumes "min (BLOCK_SZ + start div BLOCK_SZ * BLOCK_SZ) stop \<noteq> stop"
  shows "stop - (BLOCK_SZ + start div BLOCK_SZ * BLOCK_SZ) < stop - (start :: nat)"
proof -
  have "start < BLOCK_SZ + start div BLOCK_SZ * BLOCK_SZ"
    by (rule dividend_less_div_times) (simp add: BLOCK_SZ_def)
  with assms show ?thesis by (auto simp: min_def split: if_splits)
qed

text \<open>
  The loop of \<open>read_at\<close>: the buffer is threaded through, \<open>buf[a..b]\<close> out of range panics.
\<close>

function read_loop :: "DiskInode \<Rightarrow> nat \<Rightarrow> nat \<Rightarrow> nat \<Rightarrow> nat \<Rightarrow> u8 list \<Rightarrow> (nat \<times> u8 list) op" where
  "read_loop di stop start start_block read_size buf =
     (let end_current_block = min ((start div BLOCK_SZ + 1) * BLOCK_SZ) stop;
          block_read_size = end_current_block - start
      in sbind (slift (if read_size + block_read_size \<le> length buf then Inr () else Inl Index_Out_Of_Range)) (\<lambda>_.
         sbind (get_block_id di (start_block mod 2 ^ 32)) (\<lambda>block_id.
         sbind (cache_read BLOCK_SZ block_id 0 (\<lambda>data_block.
                  sret (splice read_size (slice (start mod BLOCK_SZ) block_read_size data_block) buf))) (\<lambda>buf.
         let read_size = read_size + block_read_size
         in if end_current_block = stop then sret (read_size, buf)
            else read_loop di stop end_current_block (start_block + 1) read_size buf))))"
  by pat_completeness auto
termination
  by (relation "measure (\<lambda>(_, stop, start, _). stop - start)") (auto intro: next_block_less)

declare read_loop.simps [simp del]

definition di_read_at :: "nat \<Rightarrow> u8 list \<Rightarrow> DiskInode \<Rightarrow> (nat \<times> u8 list) op" where
  "di_read_at off buf di =
     (let start = off;
          stop = min ((off + length buf) mod 2 ^ 64) (di_size di)
      in if start \<ge> stop then sret (0, buf)
         else read_loop di stop start (start div BLOCK_SZ) 0 buf)"

text \<open>
  \<open>write_at\<close> always visits one block, also when nothing is to be written (\<open>start = end\<close>); the
  round then ends the loop.
\<close>

function write_loop :: "DiskInode \<Rightarrow> nat \<Rightarrow> nat \<Rightarrow> nat \<Rightarrow> nat \<Rightarrow> u8 list \<Rightarrow> nat op" where
  "write_loop di stop start start_block write_size buf =
     (let end_current_block = min ((start div BLOCK_SZ + 1) * BLOCK_SZ) stop;
          block_write_size = end_current_block - start
      in sbind (get_block_id di (start_block mod 2 ^ 32)) (\<lambda>block_id.
         sbind (cache_modify BLOCK_SZ block_id 0 (\<lambda>data_block.
                  slift (if write_size + block_write_size \<le> length buf
                         then Inr ((), splice (start mod BLOCK_SZ) (slice write_size block_write_size buf) data_block)
                         else Inl Index_Out_Of_Range))) (\<lambda>_.
         let write_size = write_size + block_write_size
         in if end_current_block = stop then sret write_size
            else write_loop di stop end_current_block (start_block + 1) write_size buf)))"
  by pat_completeness auto
termination
  by (relation "measure (\<lambda>(_, stop, start, _). stop - start)") (auto intro: next_block_less)

declare write_loop.simps [simp del]

definition di_write_at :: "nat \<Rightarrow> u8 list \<Rightarrow> DiskInode \<Rightarrow> nat op" where
  "di_write_at off buf di =
     (let start = off;
          stop = min ((off + length buf) mod 2 ^ 64) (di_size di)
      in sbind (slift (rassert (start \<le> stop))) (\<lambda>_.
         write_loop di stop start (start div BLOCK_SZ) 0 buf))"

section \<open>Directory entries\<close>

text \<open>\<open>core::str::from_utf8\<close>: the well-formed byte sequences of UTF-8.\<close>

definition utf8_tail :: "u8 \<Rightarrow> bool" where
  "utf8_tail b \<longleftrightarrow> 0x80 \<le> b \<and> b \<le> 0xBF"

fun utf8_valid :: "u8 list \<Rightarrow> bool" where
  "utf8_valid [] = True"
| "utf8_valid (a # bs) =
     (if a < 0x80 then utf8_valid bs
      else case bs of
          [] \<Rightarrow> False
        | b # cs \<Rightarrow>
            if 0xC2 \<le> a \<and> a \<le> 0xDF then utf8_tail b \<and> utf8_valid cs
            else case cs of
                [] \<Rightarrow> False
              | c # ds \<Rightarrow>
                  if 0xE0 \<le> a \<and> a \<le> 0xEF then
                    (if a = 0xE0 then 0xA0 \<le> b \<and> b \<le> 0xBF
                     else if a = 0xED then 0x80 \<le> b \<and> b \<le> 0x9F else utf8_tail b) \<and>
                    utf8_tail c \<and> utf8_valid ds
                  else case ds of
                      [] \<Rightarrow> False
                    | d # es \<Rightarrow>
                        0xF0 \<le> a \<and> a \<le> 0xF4 \<and>
                        (if a = 0xF0 then 0x90 \<le> b \<and> b \<le> 0xBF
                         else if a = 0xF4 then 0x80 \<le> b \<and> b \<le> 0x8F else utf8_tail b) \<and>
                        utf8_tail c \<and> utf8_tail d \<and> utf8_valid es)"

record DirEntry =
  de_name :: "u8 list"
  de_inode_number :: nat

definition DirEntry_empty :: DirEntry where
  "DirEntry_empty = \<lparr>de_name = replicate (NAME_LENGTH_LIMIT + 1) 0, de_inode_number = 0\<rparr>"

definition DirEntry_new :: "u8 list \<Rightarrow> nat \<Rightarrow> DirEntry res" where
  "DirEntry_new name inode_number =
     (let bytes = replicate (NAME_LENGTH_LIMIT + 1) 0
      in if length name \<le> length bytes
         then Inr \<lparr>de_name = splice 0 name bytes, de_inode_number = inode_number\<rparr>
         else Inl Index_Out_Of_Range)"

definition dirent_as_bytes :: "DirEntry \<Rightarrow> u8 list" where
  "dirent_as_bytes e = de_name e @ le_bytes 4 (de_inode_number e)"

text \<open>The entry whose \<open>as_bytes_mut\<close> has been filled with the given 32 bytes.\<close>

definition dirent_of_bytes :: "u8 list \<Rightarrow> DirEntry" where
  "dirent_of_bytes bs = \<lparr>de_name = slice 0 28 bs, de_inode_number = le_val (slice 28 4 bs)\<rparr>"

definition dirent_name :: "DirEntry \<Rightarrow> u8 list res" where
  "dirent_name e =
     (case find_index (\<lambda>b. b = 0) (de_name e) of
        None \<Rightarrow> Inl Index_Out_Of_Range
      | Some len \<Rightarrow> if utf8_valid (take len (de_name e)) then Inr (take len (de_name e))
                    else Inl Unwrap_None)"

end
