(* ===== verification/Layout_Codec.thy ===== *)
theory Layout_Codec
  imports Layout
begin

text \<open>
  The byte layouts of the structures on disk: encoding and decoding of super blocks, inodes and
  directory entries are inverse to each other, so a structure modified through the cache is the
  one read back. The sources have no code for super blocks and inodes here: they take a reference of
  the type into the bytes of a block. \<open>superblock_enc\<close>, \<open>dinode_enc\<close> and their inverses are what
  \<open>repr(C)\<close> and the little-endian processor make of this.
\<close>

section \<open>Super block and inode\<close>

definition superblock_wf :: "SuperBlock \<Rightarrow> bool" where
  "superblock_wf sb \<longleftrightarrow>
     sb_magic sb < 2 ^ 32 \<and> sb_total_blocks sb < 2 ^ 32 \<and> sb_inode_bitmap_blocks sb < 2 ^ 32 \<and>
     sb_inode_area_blocks sb < 2 ^ 32 \<and> sb_data_bitmap_blocks sb < 2 ^ 32 \<and> sb_data_area_blocks sb < 2 ^ 32"

lemma length_superblock_enc [simp]: "length (superblock_enc sb) = 24"
  by (simp add: superblock_enc_def)

lemma superblock_dec_enc: "superblock_wf sb \<Longrightarrow> superblock_dec (superblock_enc sb) = sb"
  using read_u_concat [where k = 4 and rest = "[]" and vs = "[sb_magic sb, sb_total_blocks sb,
      sb_inode_bitmap_blocks sb, sb_inode_area_blocks sb, sb_data_bitmap_blocks sb, sb_data_area_blocks sb]"]
  by (simp add: superblock_dec_def superblock_enc_def superblock_wf_def del: concat.simps list.map)

definition dinode_wf :: "DiskInode \<Rightarrow> bool" where
  "dinode_wf di \<longleftrightarrow>
     di_size di < 2 ^ 32 \<and> length (di_direct di) = 28 \<and> (\<forall>b \<in> set (di_direct di). b < 2 ^ 32) \<and>
     di_indirect1 di < 2 ^ 32 \<and> di_indirect2 di < 2 ^ 32 \<and> length (di_padding di) = 3"

lemma length_dinode_enc [simp]: "dinode_wf di \<Longrightarrow> length (dinode_enc di) = 128"
  by (simp add: dinode_enc_def dinode_wf_def)

lemma read_u32_less: "read_u 4 bs i < 4294967296"
  using read_u_less [of 4 bs i] by simp

lemma dinode_dec_wf [simp]: "length bs = 128 \<Longrightarrow> dinode_wf (dinode_dec bs)"
  by (simp add: dinode_dec_def dinode_wf_def read_u32_less)

lemma dinode_dec_enc [simp]:
  assumes "dinode_wf di"
  shows "dinode_dec (dinode_enc di) = di"
proof -
  let ?vs = "di_size di # di_direct di @ [di_indirect1 di, di_indirect2 di]"
  have len: "length ?vs = 31" using assms by (simp add: dinode_wf_def)
  have rd: "read_u 4 (dinode_enc di) i = ?vs ! i" if "i < 31" for i
  proof -
    have "?vs ! i < 2 ^ 32" using assms that len nth_mem [of i ?vs] by (auto simp: dinode_wf_def)
    with read_u_concat [of i ?vs 4 "di_type di # di_padding di"] that len show ?thesis
      by (simp add: dinode_enc_def del: list.map concat.simps append_Cons)
  qed
  have "map (\<lambda>i. read_u 4 (dinode_enc di) (1 + i)) [0..<28] = di_direct di"
    using assms rd by (intro nth_equalityI) (auto simp: dinode_wf_def nth_append)
  moreover have "dinode_enc di ! 124 = di_type di" "slice 125 3 (dinode_enc di) = di_padding di"
    using assms len length_concat_le_bytes [of 4 ?vs]
    by (simp_all add: dinode_enc_def nth_append slice_def dinode_wf_def del: list.map concat.simps)
  ultimately show ?thesis
    using rd [of 0] rd [of 29] rd [of 30] assms
    by (simp add: dinode_dec_def dinode_wf_def nth_append)
qed

lemma dinode_enc_dec [simp]:
  assumes "length bs = 128"
  shows "dinode_enc (dinode_dec bs) = bs"
proof -
  have "[0..<31] = 0 # map Suc [0..<28] @ [29, 30]"
    by (simp add: map_Suc_upt upt_rec)
  then have "concat (map (le_bytes 4) (read_u 4 bs 0 # map (\<lambda>i. read_u 4 bs (1 + i)) [0..<28] @
      [read_u 4 bs 29, read_u 4 bs 30])) = concat (map (\<lambda>i. le_bytes 4 (read_u 4 bs i)) [0..<31])"
    by (simp add: comp_def)
  also have "\<dots> = take 124 bs" using concat_read_u [of 4 31 bs] assms by simp
  finally have "dinode_enc (dinode_dec bs) = take 124 bs @ bs ! 124 # take 3 (drop 125 bs)"
    by (simp add: dinode_enc_def dinode_dec_def slice_def del: concat.simps)
  also have "\<dots> = take 124 bs @ drop 124 bs"
    using assms Cons_nth_drop_Suc [of 124 bs] by simp
  finally show ?thesis by simp
qed

section \<open>Directory entries\<close>

definition dirent_wf :: "DirEntry \<Rightarrow> bool" where
  "dirent_wf e \<longleftrightarrow> length (de_name e) = 28 \<and> de_inode_number e < 2 ^ 32"

lemma length_dirent_as_bytes [simp]: "dirent_wf e \<Longrightarrow> length (dirent_as_bytes e) = 32"
  by (simp add: dirent_as_bytes_def dirent_wf_def)

lemma dirent_of_as_bytes [simp]: "dirent_wf e \<Longrightarrow> dirent_of_bytes (dirent_as_bytes e) = e"
  by (simp add: dirent_as_bytes_def dirent_of_bytes_def dirent_wf_def slice_def)

lemma dirent_as_of_bytes [simp]:
  assumes "length bs = 32"
  shows "dirent_as_bytes (dirent_of_bytes bs) = bs" "dirent_wf (dirent_of_bytes bs)"
proof -
  have "slice 0 28 bs @ slice 28 4 bs = bs" using assms by (simp add: slice_def)
  then show "dirent_as_bytes (dirent_of_bytes bs) = bs"
    using assms by (simp add: dirent_as_bytes_def dirent_of_bytes_def)
  have "le_val (slice 28 4 bs) < 256 ^ length (slice 28 4 bs)" by (rule le_val_less)
  with assms show "dirent_wf (dirent_of_bytes bs)" by (simp add: dirent_of_bytes_def dirent_wf_def)
qed

lemma DirEntry_new_ok:
  assumes "length name \<le> 28" and "ino < 2 ^ 32"
  shows "\<exists>e. DirEntry_new name ino = Inr e \<and> dirent_wf e \<and> de_name e = name @ replicate (28 - length name) 0 \<and>
    de_inode_number e = ino"
  using assms by (simp add: DirEntry_new_def Let_def dirent_wf_def splice_def)

lemma dirent_name_padded:
  assumes "0 \<notin> set name" and "utf8_valid name" and "de_name e = name @ replicate m 0" and "0 < m"
  shows "dirent_name e = Inr name"
proof -
  have "find_index (\<lambda>b. b = 0) (de_name e) = Some (length name)"
    using assms(1,3,4) by (auto simp: find_index_Some nth_append) (metis nth_mem)
  then show ?thesis using assms(2,3) by (simp add: dirent_name_def)
qed

section \<open>Properties of the layouts\<close>

text \<open>
  A directory entry made from a name of at most 27 bytes without NUL occupies 32 bytes, and
  the entry read back from these bytes has the same name and inode number.
\<close>

theorem dirent_round_trip:
  assumes "length name \<le> NAME_LENGTH_LIMIT" and "0 \<notin> set name" and "utf8_valid name" and "ino < 2 ^ 32"
  shows "\<exists>e. DirEntry_new name ino = Inr e \<and> length (dirent_as_bytes e) = DIRENT_SZ \<and>
    dirent_name (dirent_of_bytes (dirent_as_bytes e)) = Inr name \<and>
    de_inode_number (dirent_of_bytes (dirent_as_bytes e)) = ino"
proof -
  have "length name \<le> 28" using assms(1) by simp
  from DirEntry_new_ok [OF this assms(4)] obtain e where e: "DirEntry_new name ino = Inr e" "dirent_wf e"
    "de_name e = name @ replicate (28 - length name) 0" "de_inode_number e = ino" by blast
  moreover have "dirent_name e = Inr name"
    using dirent_name_padded [OF assms(2,3) e(3)] assms(1) by simp
  ultimately show ?thesis by simp
qed

theorem dirent_round_trip_witness:
  "\<exists>e. DirEntry_new [102, 105, 108, 101, 97] 3 = Inr e \<and>
     dirent_name (dirent_of_bytes (dirent_as_bytes e)) = Inr [102, 105, 108, 101, 97]"
  using dirent_round_trip [of "[102, 105, 108, 101, 97]" 3] by auto

text \<open>
  C17: a name of exactly 28 bytes passes \<open>DirEntry::new\<close> although the limit is 27, but reading
  the name of the entry then panics; a longer name already panics in \<open>new\<close>.
\<close>

theorem dirent_name_of_28_bytes_panics:
  assumes "0 \<notin> set name" and "ino < 2 ^ 32"
  shows "(length name = 28 \<longrightarrow>
      (\<exists>e. DirEntry_new name ino = Inr e \<and> dirent_name e = Inl Index_Out_Of_Range)) \<and>
    (length name > 28 \<longrightarrow> DirEntry_new name ino = Inl Index_Out_Of_Range)"
proof (intro conjI impI)
  assume "length name = 28"
  with DirEntry_new_ok [of name ino] assms(2) obtain e where e: "DirEntry_new name ino = Inr e" "de_name e = name"
    by auto
  then have "find_index (\<lambda>b. b = 0) (de_name e) = None" using assms(1) by (auto simp: find_index_None)
  with e show "\<exists>e. DirEntry_new name ino = Inr e \<and> dirent_name e = Inl Index_Out_Of_Range"
    by (auto simp: dirent_name_def)
qed (simp add: DirEntry_new_def)

theorem dirent_name_of_28_bytes_panics_witness:
  "\<exists>e. DirEntry_new (replicate 28 97) 3 = Inr e \<and> dirent_name e = Inl Index_Out_Of_Range"
  using dirent_name_of_28_bytes_panics [of "replicate 28 97" 3] by auto

end
