(* ===== verification/Bitmap.thy ===== *)
theory Bitmap
  imports Block_Cache Id_Allocator
begin

text \<open>
  The allocation bitmaps on disk (\<open>easy-fs/src/bitmap.rs\<close>). A block of the bitmap is read as 64
  groups of 64 bits. A bitmap denotes the set of its one bits; \<open>alloc\<close> takes the least free
  bit and \<open>dealloc\<close> clears an allocated one.
\<close>

unbundle bit_operations_syntax

section \<open>Operations\<close>

definition BLOCK_BITS :: nat where "BLOCK_BITS = BLOCK_SZ * 8"

record Bitmap =
  start_block_id :: nat
  bm_blocks :: nat

definition decomposition :: "nat \<Rightarrow> nat \<times> nat \<times> nat" where
  "decomposition b =
     (let block_pos = b div BLOCK_BITS;
          b = b mod BLOCK_BITS
      in (block_pos, b div 64, b mod 64))"

definition Bitmap_new :: "nat \<Rightarrow> nat \<Rightarrow> Bitmap" where
  "Bitmap_new start blocks = \<lparr>start_block_id = start, bm_blocks = blocks\<rparr>"

text \<open>\<open>bitmap_block[i]\<close> of a block seen as \<open>[u64; 64]\<close>, and \<open>u64::trailing_ones\<close>.\<close>

definition bits64 :: "u8 list \<Rightarrow> nat \<Rightarrow> 64 word" where
  "bits64 bs i = of_nat (read_u 8 bs i)"

definition set_bits64 :: "u8 list \<Rightarrow> nat \<Rightarrow> 64 word \<Rightarrow> u8 list" where
  "set_bits64 bs i w = write_u 8 bs i (unat w)"

definition trailing_ones :: "64 word \<Rightarrow> nat" where
  "trailing_ones w = length (takeWhile (bit w) [0..<64])"

text \<open>The closure of \<open>alloc\<close> on one block.\<close>

definition alloc_in_block :: "nat \<Rightarrow> u8 list \<Rightarrow> nat option \<times> u8 list" where
  "alloc_in_block block_id bitmap_block =
     (case map_option (\<lambda>pos. (pos, trailing_ones (bits64 bitmap_block pos)))
             (find_index (\<lambda>w. w \<noteq> - 1) (map (bits64 bitmap_block) [0..<64])) of
        Some (bits64_pos, inner_pos) \<Rightarrow>
          (Some (block_id * BLOCK_BITS + bits64_pos * 64 + inner_pos),
           set_bits64 bitmap_block bits64_pos
             (bits64 bitmap_block bits64_pos OR push_bit inner_pos 1))
      | None \<Rightarrow> (None, bitmap_block))"

fun bitmap_alloc_loop :: "Bitmap \<Rightarrow> nat list \<Rightarrow> nat option op" where
  "bitmap_alloc_loop bm [] = sret None"
| "bitmap_alloc_loop bm (block_id # ids) =
     sbind (cache_modify BLOCK_SZ (block_id + start_block_id bm) 0
              (\<lambda>bitmap_block. sret (alloc_in_block block_id bitmap_block))) (\<lambda>pos.
     if pos \<noteq> None then sret pos else bitmap_alloc_loop bm ids)"

definition bitmap_alloc :: "Bitmap \<Rightarrow> nat option op" where
  "bitmap_alloc bm = bitmap_alloc_loop bm [0..<bm_blocks bm]"

definition bitmap_dealloc :: "Bitmap \<Rightarrow> nat \<Rightarrow> unit op" where
  "bitmap_dealloc bm b =
     (let (block_pos, bits64_pos, inner_pos) = decomposition b
      in cache_modify BLOCK_SZ (block_pos + start_block_id bm) 0 (\<lambda>bitmap_block.
           sbind (slift (rassert (bits64 bitmap_block bits64_pos AND push_bit inner_pos 1 > 0))) (\<lambda>_.
           sret ((), set_bits64 bitmap_block bits64_pos
                       (bits64 bitmap_block bits64_pos - push_bit inner_pos 1)))))"

definition bitmap_maximum :: "Bitmap \<Rightarrow> nat" where
  "bitmap_maximum bm = bm_blocks bm * BLOCK_BITS"

section \<open>The set a bitmap denotes\<close>

definition block_bit :: "u8 list \<Rightarrow> nat \<Rightarrow> bool" where
  "block_bit bs j = bit (bits64 bs (j div 64)) (j mod 64)"

definition put_bit :: "bool \<Rightarrow> u8 list \<Rightarrow> nat \<Rightarrow> u8 list" where
  "put_bit v bs j = set_bits64 bs (j div 64)
     ((if v then Bit_Operations.set_bit else unset_bit) (j mod 64) (bits64 bs (j div 64)))"

definition bm_set :: "Bitmap \<Rightarrow> disk \<Rightarrow> nat set" where
  "bm_set bm d = {k. k < bitmap_maximum bm \<and>
     block_bit (d (k div BLOCK_BITS + start_block_id bm)) (k mod BLOCK_BITS)}"

definition bm_put :: "Bitmap \<Rightarrow> bool \<Rightarrow> nat \<Rightarrow> disk \<Rightarrow> disk" where
  "bm_put bm v k d =
     (let b = k div BLOCK_BITS + start_block_id bm in d(b := put_bit v (d b) (k mod BLOCK_BITS)))"

lemma BLOCK_BITS_eq [simp]: "BLOCK_BITS = 4096"
  by (simp add: BLOCK_BITS_def BLOCK_SZ_def)

lemma u64_less: "unat (w :: 64 word) < 2 ^ 64"
  using unsigned_less [of w] by simp

lemma bits64_set_bits64:
  assumes "length bs = 512" and "i < 64" and "j < 64"
  shows "bits64 (set_bits64 bs i w) j = (if i = j then w else bits64 bs j)"
  using assms read_write_u [of 8 i bs j "unat w"] u64_less [of w]
  by (simp add: bits64_def set_bits64_def)

lemma length_set_bits64 [simp]: "length bs = 512 \<Longrightarrow> i < 64 \<Longrightarrow> length (set_bits64 bs i w) = 512"
  by (simp add: set_bits64_def)

lemma block_bit_put_bit:
  assumes "length bs = 512" and "i < 4096" and "j < 4096"
  shows "block_bit (put_bit v bs j) i = (if i = j then v else block_bit bs i)"
proof -
  have div: "i div 64 < 64" "j div 64 < 64" using assms(2,3) by simp_all
  have eq: "i = j \<longleftrightarrow> i div 64 = j div 64 \<and> i mod 64 = j mod 64"
    by (metis div_mod_decomp)
  show ?thesis
    using bits64_set_bits64 [OF assms(1) div(2,1)]
    by (auto simp: block_bit_def put_bit_def eq bit_set_bit_iff bit_unset_bit_iff)
qed

lemma length_put_bit [simp]: "length bs = 512 \<Longrightarrow> j < 4096 \<Longrightarrow> length (put_bit v bs j) = 512"
  by (simp add: put_bit_def)

lemma bm_set_put:
  assumes "k < bitmap_maximum bm" and "\<And>b. length (d b) = 512"
  shows "bm_set bm (bm_put bm v k d) = (if v then insert k (bm_set bm d) else bm_set bm d - {k})"
proof -
  have eq: "j = k \<longleftrightarrow> j div 4096 = k div 4096 \<and> j mod 4096 = k mod 4096" for j :: nat
    by (metis div_mod_decomp)
  have "j \<in> bm_set bm (bm_put bm v k d) \<longleftrightarrow>
      j < bitmap_maximum bm \<and> (if j = k then v else j \<in> bm_set bm d)" for j
    using assms(2) by (auto simp: bm_set_def bm_put_def Let_def block_bit_put_bit eq)
  then show ?thesis using assms(1) by (auto simp: bm_set_def split: if_splits)
qed

section \<open>Allocation\<close>

lemma trailing_ones:
  assumes "w \<noteq> - 1"
  shows "trailing_ones w < 64" "\<not> bit w (trailing_ones w)" "i < trailing_ones w \<Longrightarrow> bit w i"
proof -
  have le: "trailing_ones w \<le> 64"
    using length_takeWhile_le [of "bit w" "[0..<64]"] by (simp add: trailing_ones_def)
  have nth: "bit w i" if "i < trailing_ones w" for i
  proof -
    have "takeWhile (bit w) [0..<64] ! i \<in> set (takeWhile (bit w) [0..<64])"
      using that by (intro nth_mem) (simp add: trailing_ones_def)
    moreover have "takeWhile (bit w) [0..<64] ! i = i"
      using that le by (subst takeWhile_nth) (auto simp: trailing_ones_def)
    ultimately show ?thesis by (auto dest: set_takeWhileD)
  qed
  then show "i < trailing_ones w \<Longrightarrow> bit w i" .
  have "trailing_ones w \<noteq> 64"
  proof
    assume "trailing_ones w = 64"
    with nth have "w = - 1" by (auto intro!: bit_word_eqI)
    with assms show False ..
  qed
  with le show lt: "trailing_ones w < 64" by simp
  then have "trailing_ones w < length [0..<64]" by simp
  then have "\<not> bit w ([0..<64] ! trailing_ones w)"
    unfolding trailing_ones_def by (rule nth_length_takeWhile)
  with lt show "\<not> bit w (trailing_ones w)" by simp
qed

lemma all_ones: "w = (- 1 :: 64 word) \<longleftrightarrow> (\<forall>i < 64. bit w i)"
  by (auto intro!: bit_word_eqI)

lemma alloc_in_block_Some:
  assumes j: "j < 4096" "\<not> block_bit bs j" and least: "\<forall>i < j. block_bit bs i"
  shows "alloc_in_block block_id bs = (Some (block_id * 4096 + j), put_bit True bs j)"
proof -
  let ?p = "j div 64" and ?r = "j mod 64"
  have jd: "j = ?p * 64 + ?r" by simp
  have p: "?p < 64" using j(1) by simp
  have bits: "bit (bits64 bs q) r" if "q * 64 + r < j" "r < 64" for q r
  proof -
    have "(q * 64 + r) div 64 = q" "(q * 64 + r) mod 64 = r" using that(2) by simp_all
    with least that(1) show ?thesis by (auto simp: block_bit_def)
  qed
  have full: "bits64 bs q = - 1" if "q < ?p" for q
  proof -
    have "q * 64 + r < j" if "r < 64" for r
    proof -
      have "Suc q * 64 \<le> ?p * 64" using \<open>q < ?p\<close> by (intro mult_le_mono1) simp
      with that jd show ?thesis by simp
    qed
    then show ?thesis using bits by (simp add: all_ones)
  qed
  have nfull: "bits64 bs ?p \<noteq> - 1" using j(2) by (auto simp: block_bit_def)
  have fi: "find_index (\<lambda>w. w \<noteq> - 1) (map (bits64 bs) [0..<64]) = Some ?p"
    using p full nfull by (auto simp: find_index_Some)
  have "trailing_ones (bits64 bs ?p) = ?r"
  proof (rule linorder_cases)
    assume "trailing_ones (bits64 bs ?p) < ?r"
    with bits [of ?p "trailing_ones (bits64 bs ?p)"] jd trailing_ones(1,2) [OF nfull] show ?thesis by simp
  next
    assume "?r < trailing_ones (bits64 bs ?p)"
    with trailing_ones(3) [OF nfull] j(2) show ?thesis by (auto simp: block_bit_def)
  qed
  with fi jd show ?thesis
    by (simp add: alloc_in_block_def put_bit_def set_bit_eq_or add.commute)
qed

lemma alloc_in_block_None:
  assumes "\<forall>j < 4096. block_bit bs j"
  shows "alloc_in_block block_id bs = (None, bs)"
proof -
  have "bits64 bs q = - 1" if "q < 64" for q
  proof -
    have "bit (bits64 bs q) r" if "r < 64" for r
    proof -
      have "q * 64 + r < 4096" using \<open>q < 64\<close> that by simp
      with assms have "block_bit bs (q * 64 + r)" by blast
      with that show ?thesis by (simp add: block_bit_def)
    qed
    then show ?thesis by (simp add: all_ones)
  qed
  then have "find_index (\<lambda>w. w \<noteq> - 1) (map (bits64 bs) [0..<64]) = None"
    by (simp add: find_index_None)
  then show ?thesis by (simp add: alloc_in_block_def)
qed

text \<open>Where the bitmap's blocks must lie: on the device and not in use.\<close>

definition bm_ok :: "nat \<Rightarrow> nat set \<Rightarrow> Bitmap \<Rightarrow> bool" where
  "bm_ok n H bm \<longleftrightarrow> start_block_id bm + bm_blocks bm \<le> n \<and> card H < BLOCK_CACHE_SIZE \<and>
     H \<inter> {start_block_id bm ..< start_block_id bm + bm_blocks bm} = {}"

definition disk_ok :: "disk \<Rightarrow> bool" where
  "disk_ok d \<longleftrightarrow> (\<forall>b. length (d b) = BLOCK_SZ)"

lemma disk_ok_length: "disk_ok d \<Longrightarrow> length (d b) = 512"
  by (simp add: disk_ok_def BLOCK_SZ_def)

lemma disk_ok_bm_put: "disk_ok d \<Longrightarrow> disk_ok (bm_put bm v k d)"
  by (auto simp: disk_ok_def bm_put_def Let_def BLOCK_SZ_def)

lemma runs_alloc_block:
  assumes "bm_ok n H bm" and "i < bm_blocks bm" and "disk_ok d"
    and "alloc_in_block i (d (i + start_block_id bm)) = (pos, bs)" and "length bs = 512"
  shows "runs n H (cache_modify BLOCK_SZ (i + start_block_id bm) 0
      (\<lambda>bitmap_block. sret (alloc_in_block i bitmap_block))) d pos (d(i + start_block_id bm := bs))"
  using assms disk_ok_length [OF assms(3), of "i + start_block_id bm"]
  by (intro runs_cache_modify [where e = d and bs = bs])
    (auto simp: bm_ok_def BLOCK_SZ_def disjoint_iff)

lemma runs_alloc_loop_append:
  assumes ok: "bm_ok n H bm" "disk_ok d" and "set ids \<subseteq> {..<bm_blocks bm}"
    and "\<forall>i \<in> set ids. \<forall>j < 4096. block_bit (d (i + start_block_id bm)) j"
    and "runs n H (bitmap_alloc_loop bm js) d r d'"
  shows "runs n H (bitmap_alloc_loop bm (ids @ js)) d r d'"
  using assms(3,4)
proof (induction ids)
  case (Cons i ids)
  have "alloc_in_block i (d (i + start_block_id bm)) = (None, d (i + start_block_id bm))"
    using Cons.prems(2) by (intro alloc_in_block_None) simp
  then have "runs n H (cache_modify BLOCK_SZ (i + start_block_id bm) 0
      (\<lambda>bitmap_block. sret (alloc_in_block i bitmap_block))) d None
      (d(i + start_block_id bm := d (i + start_block_id bm)))"
    using Cons.prems(1) disk_ok_length [OF ok(2)] by (intro runs_alloc_block [OF ok(1) _ ok(2)]) auto
  moreover have "runs n H (bitmap_alloc_loop bm (ids @ js)) d r d'" using Cons by simp
  ultimately show ?case
    by (auto intro: runs_sbind [where x = None and e = d])
qed (simp add: assms(5))

lemma bm_setI:
  "i < bm_blocks bm \<Longrightarrow> j < 4096 \<Longrightarrow> i * 4096 + j \<in> bm_set bm d \<longleftrightarrow> block_bit (d (i + start_block_id bm)) j"
  by (auto simp: bm_set_def bitmap_maximum_def)

lemma runs_bitmap_alloc_Some:
  assumes ok: "bm_ok n H bm" "disk_ok d" and k: "k < bitmap_maximum bm" "k \<notin> bm_set bm d"
    and least: "\<forall>j < k. j \<in> bm_set bm d"
  shows "runs n H (bitmap_alloc bm) d (Some k) (bm_put bm True k d)"
proof -
  let ?i = "k div 4096" and ?j = "k mod 4096" and ?B = "bm_blocks bm"
  have kd: "k = ?i * 4096 + ?j" by simp
  have i: "?i < ?B" using k(1) by (simp add: bitmap_maximum_def less_mult_imp_div_less)
  have "\<not> block_bit (d (?i + start_block_id bm)) ?j"
    using k(2) bm_setI [OF i, of ?j d] by simp
  moreover have "block_bit (d (?i + start_block_id bm)) j" if "j < ?j" for j
  proof -
    have "?j < 4096" by simp
    with that have "j < 4096" by simp
    moreover have "?i * 4096 + j < k" using that kd by linarith
    ultimately show ?thesis using least bm_setI [OF i, of j d] by blast
  qed
  ultimately have "alloc_in_block ?i (d (?i + start_block_id bm)) =
      (Some k, put_bit True (d (?i + start_block_id bm)) ?j)"
    using alloc_in_block_Some [of ?j "d (?i + start_block_id bm)" ?i] by simp
  then have "runs n H (cache_modify BLOCK_SZ (?i + start_block_id bm) 0
      (\<lambda>bitmap_block. sret (alloc_in_block ?i bitmap_block))) d (Some k) (bm_put bm True k d)"
    using runs_alloc_block [OF ok(1) i ok(2)] disk_ok_length [OF ok(2)]
    by (simp add: bm_put_def Let_def)
  then have one: "runs n H (bitmap_alloc_loop bm (?i # [Suc ?i..<?B])) d (Some k) (bm_put bm True k d)"
    by (auto intro: runs_sbind)
  have "block_bit (d (i + start_block_id bm)) j" if "i < ?i" "j < 4096" for i j
  proof -
    have "Suc i * 4096 \<le> ?i * 4096" using that(1) by (intro mult_le_mono1) simp
    with that(2) kd have "i * 4096 + j < k" by simp
    with least that \<open>?i < ?B\<close> bm_setI [of i bm j d] show ?thesis by auto
  qed
  then have "runs n H (bitmap_alloc_loop bm ([0..<?i] @ ?i # [Suc ?i..<?B])) d (Some k) (bm_put bm True k d)"
    using i by (intro runs_alloc_loop_append [OF ok _ _ one]) auto
  moreover have "[0..<?B] = [0..<?i] @ ?i # [Suc ?i..<?B]"
    using i upt_add_eq_append [of 0 ?i "?B - ?i"] upt_conv_Cons [of ?i ?B] by simp
  ultimately show ?thesis by (simp add: bitmap_alloc_def)
qed

lemma runs_bitmap_alloc_None:
  assumes ok: "bm_ok n H bm" "disk_ok d" and full: "bm_set bm d = {..<bitmap_maximum bm}"
  shows "runs n H (bitmap_alloc bm) d None d"
proof -
  have "block_bit (d (i + start_block_id bm)) j" if "i < bm_blocks bm" "j < 4096" for i j
  proof -
    have "Suc i * 4096 \<le> bm_blocks bm * 4096" using that(1) by (intro mult_le_mono1) simp
    then show ?thesis using bm_setI [OF that, of d] full that(2) by (simp add: bitmap_maximum_def)
  qed
  then show ?thesis
    using runs_alloc_loop_append [OF ok, of "[0..<bm_blocks bm]" "[]" None d] by (simp add: bitmap_alloc_def lessThan_atLeast0)
qed

section \<open>Release\<close>

lemma minus_push_bit: "bit w r \<Longrightarrow> (w :: 64 word) - push_bit r 1 = unset_bit r w"
proof -
  assume r: "bit w r"
  have "unset_bit r w + push_bit r 1 = unset_bit r w OR push_bit r 1"
    by (rule disjunctive_add) (auto simp: bit_simps)
  also have "\<dots> = w" using r by (intro bit_eqI) (auto simp: bit_simps)
  finally show ?thesis by (metis add_diff_cancel_right')
qed

lemma and_push_bit_gt: "(w :: 64 word) AND push_bit r 1 > 0 \<longleftrightarrow> bit w r"
  by (simp add: word_gt_0 bit_iff_and_push_bit_not_eq_0)

lemma runs_bitmap_dealloc:
  assumes ok: "bm_ok n H bm" "disk_ok d" and k: "k \<in> bm_set bm d"
  shows "runs n H (bitmap_dealloc bm k) d () (bm_put bm False k d)"
proof -
  let ?b = "k div 4096 + start_block_id bm" and ?j = "k mod 4096"
  have "k div 4096 < bm_blocks bm"
    using k by (simp add: bm_set_def bitmap_maximum_def less_mult_imp_div_less)
  then have b: "?b < n" "?b \<notin> H" "card H < BLOCK_CACHE_SIZE" using ok(1) by (auto simp: bm_ok_def)
  have len: "length (d ?b) = 512" by (rule disk_ok_length [OF ok(2)])
  have bit: "bit (bits64 (d ?b) (?j div 64)) (?j mod 64)" using k by (simp add: bm_set_def block_bit_def)
  have "set_bits64 (d ?b) (?j div 64) (bits64 (d ?b) (?j div 64) - push_bit (?j mod 64) 1) = put_bit False (d ?b) ?j"
    unfolding put_bit_def minus_push_bit [OF bit] by simp
  then show ?thesis
    unfolding bitmap_dealloc_def decomposition_def Let_def split using b len bit
    by (intro runs_cache_modify [where e = d and bs = "put_bit False (d ?b) ?j"])
      (auto simp: and_push_bit_gt BLOCK_SZ_def bm_put_def Let_def simp del: push_bit_of_1)
qed

lemma fails_bitmap_dealloc:
  assumes ok: "bm_ok n H bm" "disk_ok d" and k: "k < bitmap_maximum bm" "k \<notin> bm_set bm d"
  shows "fails n H (bitmap_dealloc bm k) d Assertion_Failed"
proof -
  let ?b = "k div 4096 + start_block_id bm" and ?j = "k mod 4096"
  have "k div 4096 < bm_blocks bm" using k(1) by (simp add: bitmap_maximum_def less_mult_imp_div_less)
  then have b: "?b < n" "?b \<notin> H" "card H < BLOCK_CACHE_SIZE" using ok(1) by (auto simp: bm_ok_def)
  have "\<not> bit (bits64 (d ?b) (?j div 64)) (?j mod 64)" using k by (simp add: bm_set_def block_bit_def)
  then show ?thesis
    unfolding bitmap_dealloc_def decomposition_def Let_def split using b disk_ok_length [OF ok(2), of ?b]
    by (intro fails_cache_modify) (auto simp: and_push_bit_gt BLOCK_SZ_def intro: fails_sbind1 simp del: push_bit_of_1)
qed

section \<open>The bitmap as an allocator of identifiers\<close>

definition bitmap_alloc_or_none :: "Bitmap \<Rightarrow> store \<Rightarrow> nat option \<times> store" where
  "bitmap_alloc_or_none bm s = (case bitmap_alloc bm s of Inr r \<Rightarrow> r | Inl _ \<Rightarrow> (None, s))"

definition bitmap_release :: "Bitmap \<Rightarrow> nat \<Rightarrow> store \<Rightarrow> store res" where
  "bitmap_release bm k s = rbind (bitmap_dealloc bm k s) (\<lambda>(_, s). Inr s)"

definition bm_inv :: "Bitmap \<Rightarrow> store \<Rightarrow> bool" where
  "bm_inv bm s \<longleftrightarrow>
     cache_ok s \<and> arcs s = [] \<and> start_block_id bm + bm_blocks bm \<le> bf_len (store_file s)"

lemma bm_inv_at:
  assumes "bm_inv bm s"
  shows "at_disk (bf_len (store_file s)) {} (view s) s" "bm_ok (bf_len (store_file s)) {} bm"
    "disk_ok (view s)"
proof -
  show at: "at_disk (bf_len (store_file s)) {} (view s) s" using assms by (simp add: bm_inv_def at_disk_def)
  show "bm_ok (bf_len (store_file s)) {} bm"
    using assms by (simp add: bm_inv_def bm_ok_def BLOCK_CACHE_SIZE_def)
  show "disk_ok (view s)" using at_disk_length [OF at] by (simp add: disk_ok_def)
qed

lemma at_bm_inv:
  "at_disk (bf_len (store_file s)) {} d s' \<Longrightarrow> bm_inv bm s \<Longrightarrow> bm_inv bm s'"
  by (simp add: at_disk_def bm_inv_def)

lemma bm_set_pool: "bm_set bm d \<subseteq> {..<bitmap_maximum bm}"
  by (auto simp: bm_set_def)

lemma bitmap_alloc_cases [consumes 1]:
  assumes inv: "bm_inv bm s"
  obtains (full) s' where "bm_set bm (view s) = {..<bitmap_maximum bm}" "bitmap_alloc bm s = Inr (None, s')"
    "bm_inv bm s'" "view s' = view s" "bf_len (store_file s') = bf_len (store_file s)"
  | (free) k s' where "k < bitmap_maximum bm" "k \<notin> bm_set bm (view s)" "\<forall>j < k. j \<in> bm_set bm (view s)"
    "bitmap_alloc bm s = Inr (Some k, s')" "bm_inv bm s'" "view s' = bm_put bm True k (view s)"
    "bf_len (store_file s') = bf_len (store_file s)"
proof (cases "bm_set bm (view s) = {..<bitmap_maximum bm}")
  case True
  from runsD [OF runs_bitmap_alloc_None [OF bm_inv_at(2,3) [OF inv] True] bm_inv_at(1) [OF inv]]
  obtain s' where s': "bitmap_alloc bm s = Inr (None, s')" "at_disk (bf_len (store_file s)) {} (view s) s'" .
  show ?thesis
    using full [OF True s'(1) at_bm_inv [OF s'(2) inv]] s'(2) by (simp add: at_disk_def)
next
  case False
  define k where "k = (LEAST j. j \<notin> bm_set bm (view s))"
  have least: "\<forall>j < k. j \<in> bm_set bm (view s)" using not_less_Least by (auto simp: k_def)
  from False bm_set_pool have "\<exists>j. j < bitmap_maximum bm \<and> j \<notin> bm_set bm (view s)" by blast
  then obtain j where j: "j < bitmap_maximum bm" "j \<notin> bm_set bm (view s)" by blast
  then have k: "k \<notin> bm_set bm (view s)" "k \<le> j"
    unfolding k_def using LeastI [of "\<lambda>j. j \<notin> bm_set bm (view s)" j]
      Least_le [of "\<lambda>j. j \<notin> bm_set bm (view s)" j] by auto
  with j have kmax: "k < bitmap_maximum bm" by simp
  from runsD [OF runs_bitmap_alloc_Some [OF bm_inv_at(2,3) [OF inv] kmax k(1) least] bm_inv_at(1) [OF inv]]
  obtain s' where s': "bitmap_alloc bm s = Inr (Some k, s')"
    "at_disk (bf_len (store_file s)) {} (bm_put bm True k (view s)) s'" .
  show ?thesis
    using free [OF kmax k(1) least s'(1) at_bm_inv [OF s'(2) inv]] s'(2) by (simp add: at_disk_def)
qed

lemma bitmap_release_live:
  assumes inv: "bm_inv bm s" and k: "k \<in> bm_set bm (view s)"
  shows "\<exists>s'. bitmap_dealloc bm k s = Inr ((), s') \<and> bm_inv bm s' \<and> view s' = bm_put bm False k (view s) \<and>
    bf_len (store_file s') = bf_len (store_file s)"
proof -
  from runsD [OF runs_bitmap_dealloc [OF bm_inv_at(2,3) [OF inv] k] bm_inv_at(1) [OF inv]]
  obtain s' where "bitmap_dealloc bm k s = Inr ((), s')"
    "at_disk (bf_len (store_file s)) {} (bm_put bm False k (view s)) s'" .
  with at_bm_inv [OF this(2) inv] show ?thesis by (simp add: at_disk_def)
qed

lemma bm_set_put_view:
  "bm_inv bm s \<Longrightarrow> k < bitmap_maximum bm \<Longrightarrow>
   bm_set bm (bm_put bm v k (view s)) = (if v then insert k (bm_set bm (view s)) else bm_set bm (view s) - {k})"
  using bm_set_put disk_ok_length [OF bm_inv_at(3)] by blast

interpretation bits: bounded_id_allocator "bitmap_alloc_or_none bm" "bitmap_release bm"
  "\<lambda>s. bm_set bm (view s)" "bm_inv bm" "\<lambda>_. True" "{..<bitmap_maximum bm}" "{..<bitmap_maximum bm}" for bm
proof unfold_locales
  fix s k s'
  assume inv: "bm_inv bm s"
  show "bitmap_alloc_or_none bm s = (Some k, s') \<Longrightarrow>
      k \<notin> bm_set bm (view s) \<and> k \<in> {..<bitmap_maximum bm} \<and>
      bm_set bm (view s') = insert k (bm_set bm (view s)) \<and> bm_inv bm s'"
    by (cases rule: bitmap_alloc_cases [OF inv]) (auto simp: bitmap_alloc_or_none_def bm_set_put_view [OF inv])
  show "bitmap_alloc_or_none bm s = (None, s') \<Longrightarrow> bm_set bm (view s) = {..<bitmap_maximum bm}"
    by (cases rule: bitmap_alloc_cases [OF inv]) (auto simp: bitmap_alloc_or_none_def)
  show "bm_set bm (view s) \<subseteq> {..<bitmap_maximum bm}" by (rule bm_set_pool)
  show "k \<in> bm_set bm (view s) \<Longrightarrow> \<exists>s'. bitmap_release bm k s = Inr s' \<and>
      bm_set bm (view s') = bm_set bm (view s) - {k} \<and> bm_inv bm s'"
    using bitmap_release_live [OF inv, of k] bm_set_put_view [OF inv, of k False] bm_set_pool [of bm "view s"]
    by (auto simp: bitmap_release_def)
  show "k \<in> {..<bitmap_maximum bm} \<Longrightarrow> k \<notin> bm_set bm (view s) \<Longrightarrow> \<exists>e. bitmap_release bm k s = Inl e"
    using fails_bitmap_dealloc [OF bm_inv_at(2,3) [OF inv], of k] bm_inv_at(1) [OF inv]
    by (auto simp: fails_def bitmap_release_def)
qed simp_all

section \<open>Properties of the bitmap\<close>

text \<open>
  C15: \<open>Bitmap::alloc\<close> returns the least free bit, sets exactly that bit, and changes no block
  outside the bitmap; it returns \<open>None\<close>, changing nothing, exactly when every bit is set.
\<close>

theorem bitmap_alloc_least_free:
  assumes "bm_inv bm s"
  shows "\<exists>r s'. bitmap_alloc bm s = Inr (r, s') \<and> bm_inv bm s' \<and>
    (case r of
       None \<Rightarrow> bm_set bm (view s) = {..<bitmap_maximum bm} \<and> view s' = view s
     | Some k \<Rightarrow> k < bitmap_maximum bm \<and> k \<notin> bm_set bm (view s) \<and> (\<forall>j < k. j \<in> bm_set bm (view s)) \<and>
         bm_set bm (view s') = insert k (bm_set bm (view s)) \<and>
         (\<forall>b. b \<notin> {start_block_id bm ..< start_block_id bm + bm_blocks bm} \<longrightarrow> view s' b = view s b))"
  using assms
proof (cases rule: bitmap_alloc_cases)
  case (full s')
  then show ?thesis by simp
next
  case (free k s')
  have "k div 4096 < bm_blocks bm"
    using free(1) by (simp add: bitmap_maximum_def less_mult_imp_div_less)
  then have "bm_put bm True k (view s) b = view s b"
    if "b \<notin> {start_block_id bm ..< start_block_id bm + bm_blocks bm}" for b
    using that by (auto simp: bm_put_def Let_def)
  with free bm_set_put_view [OF assms free(1), of True] show ?thesis by auto
qed

definition sample_bitmap :: Bitmap where
  "sample_bitmap = \<lparr>start_block_id = 1, bm_blocks = 2\<rparr>"

lemma sample_bitmap_inv: "bm_inv sample_bitmap (empty_store (sample_file 20))"
  using empty_store_ok by (simp add: bm_inv_def sample_bitmap_def sample_file_def)

lemma sample_bitmap_free: "bm_set sample_bitmap (view (empty_store (sample_file 20))) = {}"
  by (auto simp: bm_set_def view_def empty_store_def sample_file_def block_bit_def bits64_def)

theorem bitmap_alloc_least_free_witness:
  "\<exists>s'. bitmap_alloc sample_bitmap (empty_store (sample_file 20)) = Inr (Some 0, s') \<and>
     bm_set sample_bitmap (view s') = {0}"
proof -
  have "0 \<in> {..<bitmap_maximum sample_bitmap}" by (simp add: bitmap_maximum_def sample_bitmap_def)
  then have "bm_set sample_bitmap (view (empty_store (sample_file 20))) \<noteq> {..<bitmap_maximum sample_bitmap}"
    unfolding sample_bitmap_free by blast
  with bitmap_alloc_least_free [OF sample_bitmap_inv] sample_bitmap_free show ?thesis
    by (auto split: option.splits)
qed

text \<open>
  \<open>Bitmap::dealloc\<close> clears an allocated bit and only that one; on a bit that is free it
  panics, so no bit can be released twice.
\<close>

theorem bitmap_dealloc_exact:
  assumes "bm_inv bm s" and "k < bitmap_maximum bm"
  shows "(k \<in> bm_set bm (view s) \<longrightarrow>
      (\<exists>s'. bitmap_dealloc bm k s = Inr ((), s') \<and> bm_inv bm s' \<and>
        bm_set bm (view s') = bm_set bm (view s) - {k} \<and> bitmap_dealloc bm k s' = Inl Assertion_Failed)) \<and>
    (k \<notin> bm_set bm (view s) \<longrightarrow> bitmap_dealloc bm k s = Inl Assertion_Failed)"
proof -
  have dead: "bitmap_dealloc bm k t = Inl Assertion_Failed" if "bm_inv bm t" "k \<notin> bm_set bm (view t)" for t
    using fails_bitmap_dealloc [OF bm_inv_at(2,3) [OF that(1)] assms(2) that(2)] bm_inv_at(1) [OF that(1)]
    by (simp add: fails_def)
  show ?thesis
    using dead [OF assms(1)] bitmap_release_live [OF assms(1), of k] bm_set_put_view [OF assms, of False] dead
    by fastforce
qed

theorem bitmap_dealloc_exact_witness:
  "bitmap_dealloc sample_bitmap 77 (empty_store (sample_file 20)) = Inl Assertion_Failed"
proof -
  have "77 < bitmap_maximum sample_bitmap" by (simp add: bitmap_maximum_def sample_bitmap_def)
  with bitmap_dealloc_exact [OF sample_bitmap_inv this] sample_bitmap_free show ?thesis by simp
qed

end
