(* ===== verification/Inode_Tree.thy ===== *)
theory Inode_Tree
  imports Layout_Codec Bitmap
begin

text \<open>
  The block index of an inode as one list. \<open>chunk d di k\<close> is what data block \<open>k\<close> of the file adds
  to the index: the index blocks that are needed for the first time, then the data block itself.
  \<open>tree d di m\<close> lists all blocks of a file with \<open>m\<close> data blocks in this order. The operations
  of \<open>DiskInode\<close> are then operations on this list: \<open>get_block_id\<close> looks up an element,
  \<open>increase_size\<close> appends the new blocks, \<open>clear_size\<close> returns the list.
\<close>

section \<open>Index as a list\<close>

definition sub_index :: "disk \<Rightarrow> DiskInode \<Rightarrow> nat \<Rightarrow> nat" where
  "sub_index d di k = read_u 4 (d (di_indirect2 di)) ((k - 156) div 128)"

definition index_part :: "disk \<Rightarrow> DiskInode \<Rightarrow> nat \<Rightarrow> nat list" where
  "index_part d di k =
     (if k = 28 then [di_indirect1 di] else []) @
     (if k = 156 then [di_indirect2 di] else []) @
     (if 156 \<le> k \<and> (k - 156) mod 128 = 0 then [sub_index d di k] else [])"

definition data_block_at :: "disk \<Rightarrow> DiskInode \<Rightarrow> nat \<Rightarrow> nat" where
  "data_block_at d di k =
     (if k < 28 then di_direct di ! k
      else if k < 156 then read_u 4 (d (di_indirect1 di)) (k - 28)
      else read_u 4 (d (sub_index d di k)) ((k - 156) mod 128))"

definition chunk :: "disk \<Rightarrow> DiskInode \<Rightarrow> nat \<Rightarrow> nat list" where
  "chunk d di k = index_part d di k @ [data_block_at d di k]"

definition tree :: "disk \<Rightarrow> DiskInode \<Rightarrow> nat \<Rightarrow> nat list" where
  "tree d di m = concat (map (chunk d di) [0..<m])"

definition need :: "nat \<Rightarrow> nat" where
  "need k = (if k = 28 then 2 else if k = 156 then 3 else if 156 < k \<and> (k - 156) mod 128 = 0 then 2 else 1)"

definition need_upto :: "nat \<Rightarrow> nat" where
  "need_upto m =
     m + (if m > 28 then 1 else 0) + (if m > 156 then 1 + (m - 156 + 127) div 128 else 0)"

lemma length_chunk [simp]: "length (chunk d di k) = need k"
  by (auto simp: chunk_def index_part_def need_def)

lemma tree_Suc: "tree d di (Suc m) = tree d di m @ chunk d di m"
  by (simp add: tree_def)

lemma tree_0 [simp]: "tree d di 0 = []"
  by (simp add: tree_def)

lemma need_upto_Suc: "need_upto (Suc m) = need_upto m + need m"
proof (cases "m < 156")
  case True
  then show ?thesis by (auto simp: need_upto_def need_def)
next
  case False
  define x where "x = m - 156"
  have m: "m = x + 156" using False by (simp add: x_def)
  have "(x + 128) div 128 = (x + 127) div 128 + (if x mod 128 = 0 then 1 else 0)"
  proof -
    have "(x mod 128 + 127) div 128 = (if x mod 128 = 0 then 0 else 1)"
      by (simp add: div_nat_eqI)
    moreover have "(x + 127) div 128 = (x mod 128 + 127 + x div 128 * 128) div 128" by simp
    moreover have "(x mod 128 + 127 + x div 128 * 128) div 128 = x div 128 + (x mod 128 + 127) div 128"
      by (rule div_mult_self1) simp
    moreover have "(x + 128) div 128 = x div 128 + 1" by (rule div_add_self2) simp
    ultimately show ?thesis by (simp only:) (simp split: if_splits)
  qed
  then show ?thesis by (cases "x = 0") (auto simp: m need_upto_def need_def)
qed

lemma length_tree [simp]: "length (tree d di m) = need_upto m"
proof (induction m)
  case 0
  then show ?case by (simp add: need_upto_def)
next
  case (Suc m)
  then show ?case by (simp add: tree_Suc need_upto_Suc)
qed

text \<open>The sources' block counts agree with the length of the list.\<close>

lemma data_blocks_of_eq: "sz + 511 < 2 ^ 32 \<Longrightarrow> data_blocks_of sz = (sz + 511) div 512"
  by (simp add: data_blocks_of_def BLOCK_SZ_def)

lemma need_upto_mono: "m \<le> m' \<Longrightarrow> need_upto m \<le> need_upto m'"
  by (rule lift_Suc_mono_le [of need_upto]) (simp_all add: need_upto_Suc)

lemma need_upto_less: "m < 2 ^ 23 \<Longrightarrow> need_upto m < 2 ^ 32"
  using need_upto_mono [of m "2 ^ 23"] by (simp add: need_upto_def)

lemma total_blocks_eq:
  assumes "sz + 511 < 2 ^ 32"
  shows "total_blocks sz = need_upto (data_blocks_of sz)"
proof -
  have "data_blocks_of sz < 2 ^ 23" using assms by (simp add: data_blocks_of_eq)
  then have "need_upto (data_blocks_of sz) mod 2 ^ 32 = need_upto (data_blocks_of sz)"
    using need_upto_less by simp
  moreover have "total_blocks sz = need_upto (data_blocks_of sz) mod 2 ^ 32"
    unfolding total_blocks_def Let_def need_upto_def layout_consts
    by (intro arg_cong [where f = "\<lambda>x. x mod 2 ^ 32"]) simp
  ultimately show ?thesis by simp
qed

lemma chunk_in_tree: "k < m \<Longrightarrow> set (chunk d di k) \<subseteq> set (tree d di m)"
  by (auto simp: tree_def)

lemma tree_members:
  assumes "k < m"
  shows "data_block_at d di k \<in> set (tree d di m)"
    and "28 \<le> k \<Longrightarrow> di_indirect1 di \<in> set (tree d di m)"
    and "156 \<le> k \<Longrightarrow> di_indirect2 di \<in> set (tree d di m)"
    and "156 \<le> k \<Longrightarrow> sub_index d di k \<in> set (tree d di m)"
proof -
  show "data_block_at d di k \<in> set (tree d di m)"
    using chunk_in_tree [OF assms, of d di] by (simp add: chunk_def)
  show "28 \<le> k \<Longrightarrow> di_indirect1 di \<in> set (tree d di m)"
    using chunk_in_tree [of 28 m d di] assms by (simp add: chunk_def index_part_def)
  show "156 \<le> k \<Longrightarrow> di_indirect2 di \<in> set (tree d di m)"
    using chunk_in_tree [of 156 m d di] assms by (simp add: chunk_def index_part_def)
  assume k: "156 \<le> k"
  let ?j = "156 + (k - 156) div 128 * 128"
  have "(k - 156) div 128 * 128 \<le> k - 156" by simp
  then have "?j \<le> k" using k by linarith
  then have "?j < m" using assms by simp
  moreover have "sub_index d di ?j = sub_index d di k" by (simp add: sub_index_def)
  ultimately show "sub_index d di k \<in> set (tree d di m)"
    using chunk_in_tree [of ?j m d di] by (auto simp: chunk_def index_part_def)
qed

section \<open>Lookup\<close>

text \<open>The blocks of the list can be requested: on the device and not in use.\<close>

definition usable :: "nat \<Rightarrow> nat set \<Rightarrow> nat list \<Rightarrow> bool" where
  "usable n H bs \<longleftrightarrow> (\<forall>b \<in> set bs. b < n \<and> b \<notin> H)"

lemma runs_read_index:
  assumes "b < n" "b \<notin> H" and "card H < BLOCK_CACHE_SIZE" and "i < 128" and "disk_ok d"
  shows "runs n H (cache_read BLOCK_SZ b 0 (\<lambda>bs. slift (ib_get bs i))) d (read_u 4 (d b) i) d"
proof -
  have "slice 0 BLOCK_SZ (d b) = d b" using assms(5) by (simp add: disk_ok_def)
  with assms show ?thesis
    by (intro runs_cache_read) (simp_all add: ib_get_def BLOCK_SZ_def)
qed

lemma runs_get_block_id:
  assumes "k < m" and "m \<le> 16540" and us: "usable n H (tree d di m)" and H: "card H < BLOCK_CACHE_SIZE"
    and d: "disk_ok d"
  shows "runs n H (get_block_id di k) d (data_block_at d di k) d"
proof -
  have us: "b < n" "b \<notin> H" if "b \<in> set (tree d di m)" for b using us that by (auto simp: usable_def)
  note mem = us [OF tree_members(2) [OF assms(1)]] us [OF tree_members(3) [OF assms(1)]]
    us [OF tree_members(4) [OF assms(1)]]
  consider "k < 28" | "28 \<le> k" "k < 156" | "156 \<le> k" by linarith
  then show ?thesis
  proof cases
    case 1
    then show ?thesis by (simp add: get_block_id_def data_block_at_def)
  next
    case 2
    then show ?thesis
      using mem runs_read_index [OF _ _ H _ d] by (simp add: get_block_id_def data_block_at_def)
  next
    case 3
    then have "(k - 156) div 128 < 128" using assms(1,2) by simp
    with 3 have "runs n H (cache_read BLOCK_SZ (di_indirect2 di) 0
        (\<lambda>bs. slift (ib_get bs ((k - 156) div 128)))) d (sub_index d di k) d"
      unfolding sub_index_def using mem by (intro runs_read_index H d)
    moreover have "runs n H (cache_read BLOCK_SZ (sub_index d di k) 0
        (\<lambda>bs. slift (ib_get bs ((k - 156) mod 128)))) d (data_block_at d di k) d"
      unfolding data_block_at_def using 3 mem runs_read_index [OF _ _ H _ d] by simp
    ultimately show ?thesis
      unfolding get_block_id_def Let_def using 3 by (auto intro: runs_sbind)
  qed
qed

section \<open>Adding one data block\<close>

text \<open>The effect of adding data block \<open>k\<close>, with the blocks \<open>c\<close> this takes.\<close>

definition grow1 :: "nat \<Rightarrow> nat list \<Rightarrow> DiskInode \<times> disk \<Rightarrow> DiskInode \<times> disk" where
  "grow1 k c = (\<lambda>(di, d).
     if k < 28 then (di\<lparr>di_direct := (di_direct di)[k := last c]\<rparr>, d)
     else if k < 156 then
       let di = (if k = 28 then di\<lparr>di_indirect1 := hd c\<rparr> else di)
       in (di, d(di_indirect1 di := write_u 4 (d (di_indirect1 di)) (k - 28) (last c)))
     else
       let di = (if k = 156 then di\<lparr>di_indirect2 := hd c\<rparr> else di);
           d = (if (k - 156) mod 128 = 0
                then d(di_indirect2 di :=
                   write_u 4 (d (di_indirect2 di)) ((k - 156) div 128) (last (butlast c)))
                else d);
           s = sub_index d di k
       in (di, d(s := write_u 4 (d s) ((k - 156) mod 128) (last c))))"

lemma chunk_cong:
  assumes "j < 28 \<Longrightarrow> di_direct di' ! j = di_direct di ! j"
    and "28 \<le> j \<Longrightarrow> j < 156 \<Longrightarrow> di_indirect1 di' = di_indirect1 di \<and>
      read_u 4 (d' (di_indirect1 di)) (j - 28) = read_u 4 (d (di_indirect1 di)) (j - 28)"
    and "156 \<le> j \<Longrightarrow> di_indirect2 di' = di_indirect2 di \<and> sub_index d' di' j = sub_index d di j \<and>
      read_u 4 (d' (sub_index d di j)) ((j - 156) mod 128) = read_u 4 (d (sub_index d di j)) ((j - 156) mod 128)"
  shows "chunk d' di' j = chunk d di j"
  using assms by (auto simp: chunk_def index_part_def data_block_at_def not_less)

lemma tree_cong: "(\<And>j. j < m \<Longrightarrow> chunk d' di' j = chunk d di j) \<Longrightarrow> tree d' di' m = tree d di m"
  unfolding tree_def by (intro arg_cong [where f = concat] map_cong) auto

lemma distinct_chunks:
  assumes "distinct (tree d di m)" and "i < j" and "j < m"
  shows "set (chunk d di i) \<inter> set (chunk d di j) = {}" "distinct (chunk d di j)"
proof -
  have "distinct (tree d di (Suc j))"
    using assms(1,3)
  proof (induction m)
    case (Suc m)
    then show ?case by (cases "j = m") (simp_all add: tree_Suc [of _ _ m])
  qed simp
  then show "set (chunk d di i) \<inter> set (chunk d di j) = {}" "distinct (chunk d di j)"
    using chunk_in_tree [OF assms(2), of d di] by (auto simp: tree_Suc)
qed

lemma sub_index_chunk:
  assumes "156 \<le> k"
  shows "sub_index d di k \<in> set (chunk d di (156 + (k - 156) div 128 * 128))"
  using assms by (simp add: chunk_def index_part_def sub_index_def)

text \<open>The index blocks of a file are pairwise different.\<close>

lemma index_distinct:
  assumes "distinct (tree d di m)" and "156 \<le> j" and "j < m"
  shows "di_indirect1 di \<noteq> di_indirect2 di" "sub_index d di j \<noteq> di_indirect1 di"
    "sub_index d di j \<noteq> di_indirect2 di"
    "156 \<le> i \<Longrightarrow> i < m \<Longrightarrow> (i - 156) div 128 \<noteq> (j - 156) div 128 \<Longrightarrow> sub_index d di i \<noteq> sub_index d di j"
proof -
  let ?c = "\<lambda>k. 156 + (k - 156) div 128 * 128"
  have le: "?c k < m" if "156 \<le> k" "k < m" for k
    using that div_mult_mod_eq [of "k - 156" 128] by linarith
  have i1: "di_indirect1 di \<in> set (chunk d di 28)" and i2: "di_indirect2 di \<in> set (chunk d di 156)"
    by (simp_all add: chunk_def index_part_def)
  have d0: "distinct (chunk d di 156)" and dis: "set (chunk d di 28) \<inter> set (chunk d di 156) = {}"
    using distinct_chunks [OF assms(1), of 28 156] assms(2,3) by auto
  show "di_indirect1 di \<noteq> di_indirect2 di" using i1 i2 dis by auto
  have sj: "sub_index d di j \<in> set (chunk d di (?c j))" using sub_index_chunk [OF assms(2)] .
  show "sub_index d di j \<noteq> di_indirect1 di"
    using distinct_chunks(1) [OF assms(1), of 28 "?c j"] le [OF assms(2,3)] i1 sj by auto
  show "sub_index d di j \<noteq> di_indirect2 di"
  proof (cases "(j - 156) div 128 = 0")
    case True
    then have "sub_index d di j = sub_index d di 156" by (simp add: sub_index_def)
    then show ?thesis using d0 by (auto simp: chunk_def index_part_def)
  next
    case False
    then have "156 < ?c j" by simp
    from distinct_chunks(1) [OF assms(1) this le [OF assms(2,3)]] i2 sj show ?thesis by auto
  qed
  assume i: "156 \<le> i" "i < m" "(i - 156) div 128 \<noteq> (j - 156) div 128"
  have si: "sub_index d di i \<in> set (chunk d di (?c i))" using sub_index_chunk [OF i(1)] .
  have "?c i < ?c j \<or> ?c j < ?c i" using i(3) by auto
  then show "sub_index d di i \<noteq> sub_index d di j"
    using distinct_chunks(1) [OF assms(1) _ le [OF assms(2,3)], of "?c i"]
      distinct_chunks(1) [OF assms(1) _ le [OF i(1,2)], of "?c j"] si sj by auto
qed

definition index_set :: "disk \<Rightarrow> DiskInode \<Rightarrow> nat \<Rightarrow> nat set" where
  "index_set d di m = (\<Union>j < m. set (index_part d di j))"

definition grown :: "nat \<Rightarrow> nat list \<Rightarrow> DiskInode \<times> disk \<Rightarrow> DiskInode \<times> disk \<Rightarrow> bool" where
  "grown k c = (\<lambda>(di, d) (di', d').
     (\<forall>j < k. chunk d' di' j = chunk d di j) \<and> chunk d' di' k = c \<and>
     (\<forall>b. b \<notin> index_set d' di' (Suc k) \<longrightarrow> d' b = d b) \<and> disk_ok d' \<and> dinode_wf di' \<and>
     di_size di' = di_size di \<and> di_type di' = di_type di)"

lemma read_write_u32:
  "length bs = 512 \<Longrightarrow> i < 128 \<Longrightarrow> j < 128 \<Longrightarrow> v < 2 ^ 32 \<Longrightarrow>
   read_u 4 (write_u 4 bs i v) j = (if i = j then v else read_u 4 bs j)"
  using read_write_u [of 4 i bs j v] by simp

lemma disk_ok_write_u32:
  "disk_ok d \<Longrightarrow> i < 128 \<Longrightarrow> disk_ok (d(b := write_u 4 (d b) i v))"
  by (simp add: disk_ok_def BLOCK_SZ_def)

lemma chunk_list:
  assumes "length c = need k"
  shows "need k = 1 \<Longrightarrow> c = [last c]" "need k = 2 \<Longrightarrow> c = [hd c, last c]"
    "need k = 2 \<Longrightarrow> last (butlast c) = hd c"
    "need k = 3 \<Longrightarrow> c = [hd c, last (butlast c), last c]"
  using assms by (auto simp: length_Suc_conv numeral_eq_Suc)

lemma grow1_direct:
  assumes "k < 28" and "length c = need k" and "\<forall>b \<in> set c. b < 2 ^ 32" and "disk_ok d" and "dinode_wf di"
  shows "grown k c (di, d) (grow1 k c (di, d))"
proof -
  have c: "c = [last c]" using assms(1,2) chunk_list(1) [of c k] by (simp add: need_def)
  then have "last c < 2 ^ 32" using assms(3) by (metis list.set_intros(1))
  then have "dinode_wf (di\<lparr>di_direct := (di_direct di)[k := last c]\<rparr>)"
    using assms(5) set_update_subset_insert [of "di_direct di" k "last c"] by (auto simp: dinode_wf_def)
  moreover have "chunk d (di\<lparr>di_direct := (di_direct di)[k := last c]\<rparr>) j = chunk d di j" if "j < k" for j
    using that assms(1) by (intro chunk_cong) auto
  moreover have "chunk d (di\<lparr>di_direct := (di_direct di)[k := last c]\<rparr>) k = c"
    using c assms(1,5) by (simp add: chunk_def index_part_def data_block_at_def dinode_wf_def)
  ultimately show ?thesis using assms(1,4) by (simp add: grow1_def grown_def)
qed

lemma grow1_indirect1:
  assumes k: "28 \<le> k" "k < 156" and "length c = need k" and "\<forall>b \<in> set c. b < 2 ^ 32" and "disk_ok d" and "dinode_wf di"
  shows "grown k c (di, d) (grow1 k c (di, d))"
proof -
  define di' where "di' = (if k = 28 then di\<lparr>di_indirect1 := hd c\<rparr> else di)"
  define d' where "d' = d(di_indirect1 di' := write_u 4 (d (di_indirect1 di')) (k - 28) (last c))"
  have "c \<noteq> []" using assms(3) by (auto simp: need_def split: if_splits)
  then have lt: "last c < 2 ^ 32" "hd c < 2 ^ 32" using assms(4) by auto
  have len: "length (d b) = 512" for b using assms(5) by (rule disk_ok_length)
  have rd: "read_u 4 (d' (di_indirect1 di')) j =
      (if k - 28 = j then last c else read_u 4 (d (di_indirect1 di')) j)" if "j < 128" for j
    using that k lt(1) by (simp add: d'_def read_write_u32 len)
  have "chunk d' di' j = chunk d di j" if "j < k" for j
    using that k rd [of "j - 28"] by (intro chunk_cong) (auto simp: di'_def split: if_splits)
  moreover have "chunk d' di' k = c"
    using k rd [of "k - 28"] chunk_list(1,2) [OF assms(3)]
    by (auto simp: chunk_def index_part_def data_block_at_def need_def di'_def)
  moreover have "di_indirect1 di' \<in> index_set d' di' (Suc k)"
    using k by (auto simp: index_set_def index_part_def)
  then have "\<forall>b. b \<notin> index_set d' di' (Suc k) \<longrightarrow> d' b = d b" by (auto simp: d'_def)
  moreover have "disk_ok d'" using assms(5) k by (simp add: d'_def disk_ok_write_u32)
  moreover have "dinode_wf di'" using assms(6) lt by (simp add: di'_def dinode_wf_def)
  moreover have "grow1 k c (di, d) = (di', d')" using k by (simp add: grow1_def di'_def d'_def Let_def)
  ultimately show ?thesis by (simp add: grown_def di'_def)
qed

lemma div_less_block: "(j - 156) div 128 = (k - 156) div 128 \<Longrightarrow> 156 \<le> j \<Longrightarrow> j < k \<Longrightarrow> (j - 156) mod 128 \<noteq> (k - 156 :: nat) mod 128"
  by (metis diff_less_mono div_mult_mod_eq less_irrefl)

lemma div_new_block:
  assumes "156 \<le> j" and "j < k" and "(k - 156) mod 128 = (0 :: nat)"
  shows "(j - 156) div 128 < (k - 156) div 128"
proof -
  have "j - 156 < k - 156" using assms(1,2) by simp
  also have "\<dots> = (k - 156) div 128 * 128" using assms(3) div_mult_mod_eq [of "k - 156" 128] by linarith
  finally show ?thesis by (rule less_mult_imp_div_less)
qed

lemma grow1_new_sub:
  assumes k: "156 \<le> k" "k < 16540" "(k - 156) mod 128 = 0" and c: "length c = need k" "\<forall>b \<in> set c. b < 2 ^ 32"
    and dis: "distinct (tree d di k @ c)" and d: "disk_ok d" and di: "dinode_wf di"
  shows "grown k c (di, d) (grow1 k c (di, d))"
proof -
  define di' where "di' = (if k = 156 then di\<lparr>di_indirect2 := hd c\<rparr> else di)"
  define i2 where "i2 = di_indirect2 di'"
  define a where "a = (k - 156) div 128"
  define s where "s = last (butlast c)"
  define d1 where "d1 = d(i2 := write_u 4 (d i2) a s)"
  define d' where "d' = d1(s := write_u 4 (d1 s) 0 (last c))"
  have a: "a < 128" using k(2) by (simp add: a_def)
  have cl: "c = (if k = 156 then [hd c] else []) @ [s, last c]"
    using chunk_list(2,3,4) [OF c(1)] k by (auto simp: need_def s_def split: if_splits)
  then have sc: "s \<in> set c" "last c \<in> set c" "k = 156 \<Longrightarrow> hd c \<in> set c"
    by (metis append_is_Nil_conv in_set_conv_decomp last_in_set list.distinct(1),
        metis append_is_Nil_conv last_in_set list.distinct(1),
        metis append_is_Nil_conv hd_in_set list.distinct(1))
  then have lt: "s < 2 ^ 32" "last c < 2 ^ 32" "k = 156 \<Longrightarrow> hd c < 2 ^ 32" using c(2) by auto
  have fresh: "b \<notin> set (tree d di k)" if "b \<in> set c" for b using dis that by auto
  have si2: "s \<noteq> i2"
  proof (cases "k = 156")
    case True
    have "distinct c" using dis by simp
    with cl True have "hd c \<noteq> s" by (metis append_Cons append_Nil distinct_length_2_or_more)
    with True show ?thesis by (auto simp: i2_def di'_def)
  next
    case False
    then have "i2 \<in> set (tree d di k)" using k(1) tree_members(3) [of 156 k di d] by (simp add: i2_def di'_def)
    with fresh [OF sc(1)] show ?thesis by auto
  qed
  have i1: "di_indirect1 di \<noteq> i2" "di_indirect1 di \<noteq> s"
  proof -
    have mem: "di_indirect1 di \<in> set (tree d di k)" using k(1) tree_members(2) [of 28 k di d] by simp
    then show "di_indirect1 di \<noteq> s" using fresh [OF sc(1)] by auto
    show "di_indirect1 di \<noteq> i2"
      using mem fresh [OF sc(3)] index_distinct(1) [of d di k 156] dis k(1)
      by (cases "k = 156") (auto simp: i2_def di'_def)
  qed
  have len: "length (d b) = 512" "length (d1 b) = 512" for b
    using disk_ok_length [OF d] disk_ok_length [OF disk_ok_write_u32 [OF d a, of i2 s]] by (auto simp: d1_def)
  have rd2: "read_u 4 (d' i2) j = (if a = j then s else read_u 4 (d i2) j)" if "j < 128" for j
    using that si2 a lt(1) by (simp add: d'_def d1_def read_write_u32 len)
  have "chunk d' di' j = chunk d di j" if "j < k" for j
  proof (rule chunk_cong)
    show "di_direct di' ! j = di_direct di ! j" by (simp add: di'_def)
    show "di_indirect1 di' = di_indirect1 di \<and>
      read_u 4 (d' (di_indirect1 di)) (j - 28) = read_u 4 (d (di_indirect1 di)) (j - 28)"
      using i1 by (simp add: di'_def d'_def d1_def)
    assume j: "156 \<le> j"
    with that have di': "di' = di" "i2 = di_indirect2 di" by (simp_all add: di'_def i2_def)
    have "(j - 156) div 128 < a" using div_new_block [OF j that k(3)] by (simp add: a_def)
    then have sub: "sub_index d' di' j = sub_index d di j"
      using rd2 [of "(j - 156) div 128"] a by (simp add: sub_index_def di')
    have "sub_index d di j \<in> set (tree d di k)" by (rule tree_members(4) [OF that j])
    then have "sub_index d di j \<noteq> s" using fresh [OF sc(1)] by auto
    moreover have "sub_index d di j \<noteq> i2" using index_distinct(3) [of d di k j] dis j that di' by simp
    ultimately have "d' (sub_index d di j) = d (sub_index d di j)" by (simp add: d'_def d1_def)
    with sub di' show "di_indirect2 di' = di_indirect2 di \<and> sub_index d' di' j = sub_index d di j \<and>
      read_u 4 (d' (sub_index d di j)) ((j - 156) mod 128) = read_u 4 (d (sub_index d di j)) ((j - 156) mod 128)"
      by simp
  qed
  moreover have subk: "sub_index d' di' k = s" using rd2 [OF a] by (simp add: sub_index_def i2_def a_def)
  moreover have "read_u 4 (d' s) 0 = last c" using lt(2) by (simp add: d'_def read_write_u32 len)
  ultimately have ch: "\<forall>j < k. chunk d' di' j = chunk d di j" "chunk d' di' k = c"
    using k cl by (auto simp: chunk_def index_part_def data_block_at_def di'_def)
  have "sub_index d1 di' k = s"
    using rd2 [OF a] si2 by (simp add: sub_index_def d'_def i2_def a_def)
  then have "grow1 k c (di, d) = (di', d')"
    using k by (simp add: grow1_def di'_def [symmetric] d1_def [symmetric] d'_def Let_def i2_def [symmetric]
        a_def [symmetric] s_def [symmetric]) (use si2 in \<open>simp add: d1_def\<close>)
  moreover have "i2 \<in> index_set d' di' (Suc k)" "s \<in> index_set d' di' (Suc k)"
    using k subk by (auto simp: index_set_def index_part_def i2_def intro: bexI [of _ 156] bexI [of _ k])
  then have "\<forall>b. b \<notin> index_set d' di' (Suc k) \<longrightarrow> d' b = d b" by (auto simp: d'_def d1_def)
  moreover have "disk_ok d'" unfolding d'_def d1_def using d a by (intro disk_ok_write_u32) simp_all
  moreover have "dinode_wf di'" using di lt(3) by (simp add: di'_def dinode_wf_def)
  ultimately show ?thesis using ch by (simp add: grown_def di'_def)
qed

lemma grow1_old_sub:
  assumes k: "156 \<le> k" "k < 16540" "(k - 156) mod 128 \<noteq> 0" and c: "length c = need k" "\<forall>b \<in> set c. b < 2 ^ 32"
    and dis: "distinct (tree d di k @ c)" and d: "disk_ok d" and di: "dinode_wf di"
  shows "grown k c (di, d) (grow1 k c (di, d))"
proof -
  let ?s = "sub_index d di k" and ?r = "(k - 156) mod 128"
  let ?d = "d(?s := write_u 4 (d ?s) ?r (last c))"
  let ?k = "156 + (k - 156) div 128 * 128"
  have k0: "156 \<le> ?k" "?k < k" using k(1,3) div_mult_mod_eq [of "k - 156" 128] by linarith+
  have ke: "k \<noteq> 156" using k(3) by auto
  then have cl: "c = [last c]" using k chunk_list(1) [OF c(1)] by (simp add: need_def)
  then have lt: "last c < 2 ^ 32" using c(2) by (metis list.set_intros(1))
  have dt: "distinct (tree d di k)" using dis by simp
  have sk: "?s = sub_index d di ?k" by (simp add: sub_index_def)
  have ne: "?s \<noteq> di_indirect1 di" "?s \<noteq> di_indirect2 di"
    using index_distinct(2,3) [OF dt k0] sk by simp_all
  have len: "length (d b) = 512" for b using d by (rule disk_ok_length)
  have sub: "sub_index ?d di j = sub_index d di j" for j using ne by (simp add: sub_index_def)
  have "chunk ?d di j = chunk d di j" if "j < k" for j
  proof (rule chunk_cong)
    assume j: "156 \<le> j"
    have "read_u 4 (?d (sub_index d di j)) ((j - 156) mod 128) = read_u 4 (d (sub_index d di j)) ((j - 156) mod 128)"
    proof (cases "sub_index d di j = ?s")
      case True
      have "(?k - 156) div 128 = (k - 156) div 128" by simp
      with True sk index_distinct(4) [OF dt k0 j that] have "(j - 156) div 128 = (k - 156) div 128" by metis
      from div_less_block [OF this j that] True lt show ?thesis by (simp add: read_write_u32 len)
    qed simp
    with sub [of j] show "di_indirect2 di = di_indirect2 di \<and> sub_index ?d di j = sub_index d di j \<and>
      read_u 4 (?d (sub_index d di j)) ((j - 156) mod 128) = read_u 4 (d (sub_index d di j)) ((j - 156) mod 128)"
      by simp
  qed (use ne in auto)
  moreover have "chunk ?d di k = c"
    using k ke cl lt sub [of k] by (simp add: chunk_def index_part_def data_block_at_def read_write_u32 len)
  moreover have "grow1 k c (di, d) = (di, ?d)" using k ke by (simp add: grow1_def Let_def)
  moreover have "?s \<in> set (index_part ?d di ?k)" using k0 sub [of ?k] sk by (simp add: index_part_def)
  then have "?s \<in> index_set ?d di (Suc k)" using k0(2) unfolding index_set_def by (intro UN_I [of ?k]) simp_all
  then have "\<forall>b. b \<notin> index_set ?d di (Suc k) \<longrightarrow> ?d b = d b" by auto
  moreover have "disk_ok ?d" using d by (intro disk_ok_write_u32) simp_all
  ultimately show ?thesis using di by (simp add: grown_def)
qed

lemma grow1_ok:
  assumes "k < 16540" and "length c = need k" "\<forall>b \<in> set c. b < 2 ^ 32"
    and "distinct (tree d di k @ c)" and "disk_ok d" and "dinode_wf di"
  shows "grown k c (di, d) (grow1 k c (di, d))"
proof -
  consider "k < 28" | "28 \<le> k" "k < 156" | "156 \<le> k" "(k - 156) mod 128 = 0" | "156 \<le> k" "(k - 156) mod 128 \<noteq> 0"
    by linarith
  then show ?thesis
  proof cases
    case 1
    then show ?thesis using assms by (intro grow1_direct)
  next
    case 2
    then show ?thesis using assms by (intro grow1_indirect1)
  next
    case 3
    then show ?thesis using assms by (intro grow1_new_sub)
  next
    case 4
    then show ?thesis using assms by (intro grow1_old_sub)
  qed
qed

section \<open>Adding several data blocks\<close>

fun grows :: "nat \<Rightarrow> nat \<Rightarrow> nat list \<Rightarrow> DiskInode \<times> disk \<Rightarrow> DiskInode \<times> disk" where
  "grows k 0 xs st = st"
| "grows k (Suc m) xs st = grows (Suc k) m (drop (need k) xs) (grow1 k (take (need k) xs) st)"

lemma index_part_chunk: "index_part d di k = butlast (chunk d di k)"
  by (simp add: chunk_def)

lemma index_set_cong: "(\<And>j. j < m \<Longrightarrow> chunk d' di' j = chunk d di j) \<Longrightarrow> index_set d' di' m = index_set d di m"
  by (simp add: index_set_def index_part_chunk)

lemma index_set_mono: "m \<le> m' \<Longrightarrow> index_set d di m \<subseteq> index_set d di m'"
  unfolding index_set_def by (intro UN_mono) auto

lemma index_set_tree: "index_set d di m \<subseteq> set (tree d di m)"
  by (auto simp: index_set_def tree_def chunk_def)

lemma grows_ok:
  assumes "k + m \<le> 16540" and "length xs = need_upto (k + m) - need_upto k" and "\<forall>b \<in> set xs. b < 2 ^ 32"
    and "distinct (tree d di k @ xs)" and "disk_ok d" and "dinode_wf di" and "grows k m xs (di, d) = (di', d')"
  shows "tree d' di' (k + m) = tree d di k @ xs \<and> (\<forall>j < k. chunk d' di' j = chunk d di j) \<and>
    (\<forall>b. b \<notin> index_set d' di' (k + m) \<longrightarrow> d' b = d b) \<and> disk_ok d' \<and> dinode_wf di' \<and>
    di_size di' = di_size di \<and> di_type di' = di_type di"
  using assms
proof (induction m arbitrary: k xs di d)
  case 0
  then show ?case by simp
next
  case (Suc m)
  let ?c = "take (need k) xs" and ?ys = "drop (need k) xs"
  obtain di1 d1 where g: "grow1 k ?c (di, d) = (di1, d1)" by fastforce
  have mono: "need_upto (Suc k) \<le> need_upto (k + Suc m)" by (rule need_upto_mono) simp
  then have len: "length ?c = need k" "length ?ys = need_upto (Suc k + m) - need_upto (Suc k)"
    using Suc.prems(2) by (simp_all add: need_upto_Suc)
  have u32: "\<forall>b \<in> set ?c. b < 2 ^ 32" "\<forall>b \<in> set ?ys. b < 2 ^ 32"
    using Suc.prems(3) by (auto dest: in_set_takeD in_set_dropD)
  have dis: "distinct (tree d di k @ ?c)" "distinct ((tree d di k @ ?c) @ ?ys)"
    using Suc.prems(4) by (auto dest: in_set_takeD)
  have "grown k ?c (di, d) (di1, d1)"
    using grow1_ok [OF _ len(1) u32(1) dis(1) Suc.prems(5,6)] Suc.prems(1) g by simp
  then have g1: "\<forall>j < k. chunk d1 di1 j = chunk d di j" "chunk d1 di1 k = ?c"
    "\<forall>b. b \<notin> index_set d1 di1 (Suc k) \<longrightarrow> d1 b = d b" "disk_ok d1" "dinode_wf di1"
    "di_size di1 = di_size di" "di_type di1 = di_type di" by (auto simp: grown_def)
  then have t1: "tree d1 di1 (Suc k) = tree d di k @ ?c"
    using tree_cong [of k d1 di1 d di] by (simp add: tree_Suc)
  have ih: "tree d' di' (Suc k + m) = tree d1 di1 (Suc k) @ ?ys" "\<forall>j < Suc k. chunk d' di' j = chunk d1 di1 j"
    "\<forall>b. b \<notin> index_set d' di' (Suc k + m) \<longrightarrow> d' b = d1 b" "disk_ok d'" "dinode_wf di'"
    "di_size di' = di_size di1" "di_type di' = di_type di1"
    using Suc.IH [of "Suc k" ?ys d1 di1] len(2) u32(2) dis(2) t1 g1(4,5) g Suc.prems(1,7) by simp_all
  have "index_set d1 di1 (Suc k) \<subseteq> index_set d' di' (k + Suc m)"
    using index_set_cong [of "Suc k" d' di' d1 di1] ih(2) index_set_mono [of "Suc k" "k + Suc m" d' di'] by auto
  then have "\<forall>b. b \<notin> index_set d' di' (k + Suc m) \<longrightarrow> d' b = d b" using ih(3) g1(3) by auto
  then show ?case using ih t1 g1 by auto
qed

end
