(* ===== verification/Inode_Grow.thy ===== *)
theory Inode_Grow
  imports Inode_Tree
begin

text \<open>
  \<open>DiskInode::increase_size\<close> appends the new blocks to the block list of the inode, and
  \<open>DiskInode::clear_size\<close> returns the list. The loops of \<open>increase_size\<close> are matched, one per
  level of the index, with adding the data blocks one at a time.
\<close>

section \<open>The loops of increase\_size\<close>

lemma need_direct [simp]: "k < 28 \<Longrightarrow> need k = 1"
  and need_indirect1 [simp]: "28 < k \<Longrightarrow> k < 156 \<Longrightarrow> need k = 1"
  and need_28 [simp]: "need 28 = 2"
  by (simp_all add: need_def)

lemma grows_add:
  "grows k (m + m') xs st = grows (k + m) m' (drop (need_upto (k + m) - need_upto k) xs) (grows k m xs st)"
proof (induction m arbitrary: k xs st)
  case (Suc m)
  have "need_upto (Suc k) \<le> need_upto (k + Suc m)" by (rule need_upto_mono) simp
  then have "need_upto (k + Suc m) - need_upto (Suc k) + need k = need_upto (k + Suc m) - need_upto k"
    by (simp add: need_upto_Suc)
  with Suc show ?case by (simp add: add.commute)
qed simp

lemma fill_direct_done: "\<not> k < bound \<Longrightarrow> fill_direct k bound dir xs = Inr (k, dir, xs)"
  by (simp add: fill_direct.simps)

lemma fill_direct_grows:
  assumes "k + m \<le> 28" and "m \<le> length xs"
  shows "\<exists>dir. fill_direct k (k + m) (di_direct di) xs = Inr (k + m, dir, drop m xs) \<and>
    grows k m xs (di, d) = (di\<lparr>di_direct := dir\<rparr>, d)"
  using assms
proof (induction m arbitrary: k xs di)
  case 0
  then show ?case by (simp add: fill_direct_done)
next
  case (Suc m)
  then obtain x ys where xs: "xs = x # ys" by (cases xs) auto
  let ?di = "di\<lparr>di_direct := (di_direct di)[k := x]\<rparr>"
  obtain dir where dir: "fill_direct (Suc k) (Suc k + m) (di_direct ?di) ys = Inr (Suc k + m, dir, drop m ys)"
    "grows (Suc k) m ys (?di, d) = (?di\<lparr>di_direct := dir\<rparr>, d)"
    using Suc.IH [of "Suc k" ys ?di] Suc.prems xs by auto
  have "fill_direct k (k + Suc m) (di_direct di) xs = fill_direct (Suc k) (Suc k + m) (di_direct ?di) ys"
    by (subst fill_direct.simps) (simp add: xs)
  moreover have "grow1 k (take (need k) xs) (di, d) = (?di, d)"
    using Suc.prems(1) by (simp add: grow1_def xs)
  ultimately show ?case using dir Suc.prems(1) xs by simp
qed

fun writes4 :: "nat \<Rightarrow> u8 list \<Rightarrow> nat list \<Rightarrow> u8 list" where
  "writes4 j bs [] = bs"
| "writes4 j bs (y # ys) = writes4 (Suc j) (write_u 4 bs j y) ys"

lemma length_writes4: "length bs = 512 \<Longrightarrow> j + length ys \<le> 128 \<Longrightarrow> length (writes4 j bs ys) = 512"
  by (induction j bs ys rule: writes4.induct) simp_all

lemma fill_indirect_done: "\<not> j < bound \<Longrightarrow> fill_indirect j bound bs xs = Inr (j, bs, xs)"
  by (simp add: fill_indirect.simps)

lemma fill_indirect_writes:
  "j + length ys \<le> 128 \<Longrightarrow>
   fill_indirect j (j + length ys) bs (ys @ zs) = Inr (j + length ys, writes4 j bs ys, zs)"
proof (induction ys arbitrary: j bs)
  case Nil
  then show ?case by (simp add: fill_indirect_done)
next
  case (Cons y ys)
  have "fill_indirect j (j + length (y # ys)) bs ((y # ys) @ zs) =
      fill_indirect (Suc j) (Suc j + length ys) (write_u 4 bs j y) (ys @ zs)"
    using Cons.prems by (subst fill_indirect.simps) (simp add: ib_set_def)
  with Cons.IH [of "Suc j" "write_u 4 bs j y"] Cons.prems show ?case by simp
qed

lemma grows_indirect1:
  assumes "28 < k" and "k + m \<le> 156" and "m \<le> length xs"
  shows "grows k m xs (di, d) =
    (di, d(di_indirect1 di := writes4 (k - 28) (d (di_indirect1 di)) (take m xs)))"
  using assms
proof (induction m arbitrary: k xs d)
  case (Suc m)
  then obtain x ys where xs: "xs = x # ys" by (cases xs) auto
  let ?d = "d(di_indirect1 di := write_u 4 (d (di_indirect1 di)) (k - 28) x)"
  have "grow1 k (take (need k) xs) (di, d) = (di, ?d)"
    using Suc.prems by (simp add: grow1_def xs)
  moreover have "grows (Suc k) m ys (di, ?d) =
      (di, ?d(di_indirect1 di := writes4 (Suc k - 28) (?d (di_indirect1 di)) (take m ys)))"
    using Suc.prems xs by (intro Suc.IH) simp_all
  moreover have "Suc k - 28 = Suc (k - 28)" using Suc.prems(1) by simp
  ultimately show ?case using xs Suc.prems(1,2) by (simp add: fun_eq_iff)
qed simp

lemma grows_indirect1_28:
  assumes "Suc m \<le> 128" and "m \<le> length xs"
  shows "grows 28 (Suc m) (a # b # xs) (di, d) =
    (di\<lparr>di_indirect1 := a\<rparr>, d(a := writes4 0 (d a) (b # take m xs)))"
proof -
  have "grow1 28 [a, b] (di, d) = (di\<lparr>di_indirect1 := a\<rparr>, d(a := write_u 4 (d a) 0 b))"
    by (simp add: grow1_def)
  then show ?thesis
    using assms grows_indirect1 [of 29 m xs "di\<lparr>di_indirect1 := a\<rparr>"] by (simp add: numeral_2_eq_2)
qed

text \<open>One round of the loop over the second level.\<close>

lemma runs_write_index:
  assumes "b < n" "b \<notin> H" and "card H < BLOCK_CACHE_SIZE" and "i < 128" and "disk_ok d"
  shows "runs n H (cache_modify BLOCK_SZ b 0 (\<lambda>bs. slift (rbind (ib_set bs i v) (\<lambda>i1. Inr (r, i1))))) d r
    (d(b := write_u 4 (d b) i v))"
proof -
  have len: "length (d b) = 512" using assms(5) by (rule disk_ok_length)
  with assms show ?thesis
    by (intro runs_cache_modify [where e = d and bs = "write_u 4 (d b) i v"])
      (auto simp: ib_set_def BLOCK_SZ_def)
qed

lemma fill_indirect2_step:
  assumes lt: "a0 < a1 \<or> a0 = a1 \<and> b0 < b1" and a0: "a0 < 128" and b0: "b0 < 128"
    and xs: "xs = (if b0 = 0 then [s] else []) @ v # rest"
    and i2: "i2' = (if b0 = 0 then write_u 4 i2 a0 s else i2)"
    and s: "read_u 4 i2' a0 < n" "read_u 4 i2' a0 \<notin> H" and H: "card H < BLOCK_CACHE_SIZE" and d: "disk_ok d"
    and step: "runs n H (if Suc b0 = 128 then fill_indirect2 fuel (Suc a0) 0 a1 b1 i2' rest
        else fill_indirect2 fuel a0 (Suc b0) a1 b1 i2' rest)
      (d(read_u 4 i2' a0 := write_u 4 (d (read_u 4 i2' a0)) b0 v)) r d'"
  shows "runs n H (fill_indirect2 (Suc fuel) a0 b0 a1 b1 i2 xs) d r d'"
proof -
  let ?s = "read_u 4 i2' a0"
  have f: "fill_indirect2 (Suc fuel) a0 b0 a1 b1 i2 xs =
      sbind (cache_modify BLOCK_SZ ?s 0 (\<lambda>bs. slift (rbind (ib_set bs b0 v) (\<lambda>i1. Inr (rest, i1)))))
        (\<lambda>new. if Suc b0 = 128 then fill_indirect2 fuel (Suc a0) 0 a1 b1 i2' new
               else fill_indirect2 fuel a0 (Suc b0) a1 b1 i2' new)"
    using lt a0 unfolding i2 xs
    by (subst fill_indirect2.simps, cases "b0 = 0")
      (auto simp: ib_set_def ib_get_def intro!: arg_cong2 [where f = sbind])
  show ?thesis unfolding f
    by (rule runs_sbind) (rule runs_write_index [OF s H b0 d], rule step)
qed

lemma next_position:
  assumes "156 \<le> k"
  shows "Suc ((k - 156) mod 128) = 128 \<Longrightarrow> (Suc k - 156) div 128 = Suc ((k - 156) div 128) \<and> (Suc k - 156) mod 128 = 0"
    and "Suc ((k - 156) mod 128) \<noteq> 128 \<Longrightarrow>
      (Suc k - 156) div 128 = (k - 156) div 128 \<and> (Suc k - 156) mod 128 = Suc ((k - 156) mod (128 :: nat))"
proof -
  have "Suc k - 156 = Suc (k - 156)" using assms by simp
  then show "Suc ((k - 156) mod 128) = 128 \<Longrightarrow> (Suc k - 156) div 128 = Suc ((k - 156) div 128) \<and> (Suc k - 156) mod 128 = 0"
    and "Suc ((k - 156) mod 128) \<noteq> 128 \<Longrightarrow>
      (Suc k - 156) div 128 = (k - 156) div 128 \<and> (Suc k - 156) mod 128 = Suc ((k - 156) mod (128 :: nat))"
    by (simp_all add: div_Suc mod_Suc)
qed

lemma position_less:
  assumes "(i :: nat) < j"
  shows "i div 128 < j div 128 \<or> i div 128 = j div 128 \<and> i mod 128 < j mod 128"
proof -
  have "i div 128 \<le> j div 128" using assms by (intro div_le_mono) simp
  moreover have "i mod 128 < j mod 128" if "i div 128 = j div 128"
    using assms that div_mult_mod_eq [of i 128] div_mult_mod_eq [of j 128] by linarith
  ultimately show ?thesis by linarith
qed

text \<open>The blocks one round takes, and the state it leaves.\<close>

lemma grow1_second_level:
  assumes k: "156 \<le> k" "k < 16540" and c: "length c = need k" "\<forall>b \<in> set c. b < 2 ^ 32"
    and dis: "distinct (tree d di k @ c)" and d: "disk_ok d" and di: "dinode_wf di"
    and i2: "k = 156 \<longrightarrow> di_indirect2 di = hd c"
  defines "a \<equiv> (k - 156) div 128" and "r \<equiv> (k - 156) mod 128" and "i \<equiv> di_indirect2 di"
  shows "\<exists>d1 s. grow1 k c (di, d) = (di, d1) \<and>
    (if k = 156 then tl c else c) = (if r = 0 then [last (butlast c)] else []) @ [last c] \<and>
    d1 i = (if r = 0 then write_u 4 (d i) a (last (butlast c)) else d i) \<and>
    s = read_u 4 (d1 i) a \<and> s \<noteq> i \<and> s \<in> set (tree d di k @ c) \<and>
    d1(i := x) = (d(i := x))(s := write_u 4 (d s) r (last c)) \<and>
    disk_ok d1 \<and> tree d1 di (Suc k) = tree d di k @ c"
proof -
  obtain di1 d1 where g: "grow1 k c (di, d) = (di1, d1)" by fastforce
  have "di\<lparr>di_indirect2 := di_indirect2 di\<rparr> = di" by simp
  with i2 have di1: "di1 = di" using g k(1) by (auto simp: grow1_def Let_def split: if_splits)
  have gr: "grown k c (di, d) (di, d1)" using grow1_ok [OF k(2) c dis d di] g di1 by simp
  then have t: "tree d1 di (Suc k) = tree d di k @ c"
    using tree_cong [of k d1 di d di] by (simp add: grown_def tree_Suc)
  define d2 where "d2 = (if r = 0 then d(i := write_u 4 (d i) a (last (butlast c))) else d)"
  define s where "s = read_u 4 (d2 i) a"
  have "(if k = 156 then di\<lparr>di_indirect2 := hd c\<rparr> else di) = di" using i2 by auto
  then have "grow1 k c (di, d) = (di, d2(s := write_u 4 (d2 s) r (last c)))"
    unfolding grow1_def Let_def d2_def s_def sub_index_def i_def a_def r_def using k(1) by simp
  then have d1: "d1 = d2(s := write_u 4 (d2 s) r (last c))" using g by simp
  have a: "a < 128" using k by (simp add: a_def)
  obtain u v where cl: "c = (if k = 156 then [i] else []) @ (if r = 0 then [u] else []) @ [v]"
  proof (cases "k = 156")
    case True
    then have "length c = 3" using c(1) by (simp add: need_def)
    then obtain x y z where "c = [x, y, z]" by (auto simp: length_Suc_conv numeral_3_eq_3)
    with True i2 show ?thesis by (intro that [of y z]) (simp add: r_def i_def)
  next
    case False
    show ?thesis
    proof (cases "r = 0")
      case True
      then have "length c = 2" using c(1) k(1) False by (simp add: need_def r_def)
      then obtain y z where "c = [y, z]" by (auto simp: length_Suc_conv numeral_2_eq_2)
      with True False show ?thesis by (intro that [of y z]) simp
    next
      case nz: False
      then have "length c = 1" using c(1) k(1) False by (simp add: need_def r_def)
      then obtain z where "c = [z]" by (auto simp: length_Suc_conv)
      with nz False show ?thesis by (intro that [of z z]) simp
    qed
  qed
  then have uv: "last c = v" "r = 0 \<Longrightarrow> last (butlast c) = u" by (auto simp: butlast_append)
  have si: "s \<noteq> i"
  proof (cases "r = 0")
    case True
    then have mem: "u \<in> set c" using cl by simp
    then have "s = u"
      using True c(2) a d uv by (simp add: s_def d2_def read_write_u32 disk_ok_length)
    moreover have "u \<noteq> i"
    proof (cases "k = 156")
      case True
      have "distinct c" using dis by simp
      with cl \<open>r = 0\<close> True show ?thesis by simp
    next
      case False
      then have "i \<in> set (tree d di k)" using tree_members(3) [of 156 k di d] k(1) by (simp add: i_def)
      with dis mem show ?thesis by auto
    qed
    ultimately show ?thesis by simp
  next
    case False
    let ?k = "156 + (k - 156) div 128 * 128"
    have "156 \<le> ?k" "?k < k" using False k(1) div_mult_mod_eq [of "k - 156" 128] unfolding r_def by linarith+
    moreover have "s = sub_index d di ?k" using False by (simp add: s_def d2_def sub_index_def a_def i_def)
    ultimately show ?thesis using index_distinct(3) [of d di k ?k] dis by (simp add: i_def)
  qed
  then have d1i: "d1 i = d2 i" by (simp add: d1)
  then have "s = sub_index d1 di k" by (simp add: s_def sub_index_def a_def i_def)
  then have "s \<in> set (tree d di k @ c)" using tree_members(4) [of k "Suc k" d1 di] t k(1) by simp
  moreover have "d1(i := x) = (d(i := x))(s := write_u 4 (d s) r (last c))"
    using si by (auto simp: d1 d2_def)
  moreover have "(if k = 156 then tl c else c) = (if r = 0 then [last (butlast c)] else []) @ [last c]"
    using cl uv by simp
  ultimately show ?thesis
    using g di1 si t gr d1i by (intro exI [of _ d1] exI [of _ s]) (simp add: d2_def s_def grown_def)
qed

lemma fill_indirect2_grows:
  assumes "156 \<le> k" and "k + m \<le> 16540" and "length xs = need_upto (k + m) - need_upto k"
    and "\<forall>b \<in> set xs. b < 2 ^ 32" and "distinct (tree d di k @ xs)" and "disk_ok d" and "dinode_wf di"
    and "usable n H (tree d di k @ xs)" and H: "card (insert (di_indirect2 di) H) < BLOCK_CACHE_SIZE"
    and "k = 156 \<Longrightarrow> 0 < m \<Longrightarrow> di_indirect2 di = hd xs" and "m \<le> fuel" and x: "length x = 512"
    and a1: "a1 = (k + m - 156) div 128" and b1: "b1 = (k + m - 156) mod 128"
  shows "\<exists>d'. grows k m xs (di, d) = (di, d') \<and>
    runs n (insert (di_indirect2 di) H) (fill_indirect2 fuel ((k - 156) div 128) ((k - 156) mod 128) a1 b1
      (d (di_indirect2 di)) (if k = 156 then tl xs else xs)) (d(di_indirect2 di := x))
      ([], d' (di_indirect2 di)) (d'(di_indirect2 di := x))"
  using assms(1-8,10,11) a1 b1
proof (induction m arbitrary: k xs d fuel)
  case 0
  then show ?case by (subst fill_indirect2.simps) simp
next
  case (Suc m)
  let ?i = "di_indirect2 di" and ?c = "take (need k) xs" and ?ys = "drop (need k) xs"
  let ?a = "(k - 156) div 128" and ?r = "(k - 156) mod 128"
  have mono: "need_upto (Suc k) \<le> need_upto (k + Suc m)" by (rule need_upto_mono) simp
  then have len: "length ?c = need k" "length ?ys = need_upto (Suc k + m) - need_upto (Suc k)"
    using Suc.prems(3) by (simp_all add: need_upto_Suc)
  have pos: "0 < need k" by (simp add: need_def)
  have u32: "\<forall>b \<in> set ?c. b < 2 ^ 32" "\<forall>b \<in> set ?ys. b < 2 ^ 32"
    using Suc.prems(4) by (auto dest: in_set_takeD in_set_dropD)
  have dis: "distinct (tree d di k @ ?c)" using Suc.prems(5) by (auto dest: in_set_takeD)
  have hd: "hd ?c = hd xs" using pos by (cases xs) (auto simp: take_Cons')
  have i2': "k = 156 \<longrightarrow> di_indirect2 di = hd ?c" using Suc.prems(9) hd by auto
  have kl: "k < 16540" using Suc.prems(2) by simp
  obtain d1 s where g: "grow1 k ?c (di, d) = (di, d1)"
    "(if k = 156 then tl ?c else ?c) = (if ?r = 0 then [last (butlast ?c)] else []) @ [last ?c]"
    "d1 ?i = (if ?r = 0 then write_u 4 (d ?i) ?a (last (butlast ?c)) else d ?i)"
    "s = read_u 4 (d1 ?i) ?a" "s \<noteq> ?i" "s \<in> set (tree d di k @ ?c)"
    "d1(?i := x) = (d(?i := x))(s := write_u 4 (d s) ?r (last ?c))"
    "disk_ok d1" "tree d1 di (Suc k) = tree d di k @ ?c"
    using grow1_second_level [OF Suc.prems(1) kl len(1) u32(1) dis Suc.prems(6,7) i2', of x]
    by blast
  have split: "tree d1 di (Suc k) @ ?ys = tree d di k @ xs" using g(9) by simp
  have k': "Suc k \<noteq> 156" using Suc.prems(1) by simp
  have "\<exists>d'. grows (Suc k) m ?ys (di, d1) = (di, d') \<and>
    runs n (insert ?i H) (fill_indirect2 (fuel - 1) ((Suc k - 156) div 128) ((Suc k - 156) mod 128) a1 b1
      (d1 ?i) (if Suc k = 156 then tl ?ys else ?ys)) (d1(?i := x)) ([], d' ?i) (d'(?i := x))"
  proof (rule Suc.IH)
    show "distinct (tree d1 di (Suc k) @ ?ys)" unfolding split by (rule Suc.prems(5))
    show "usable n H (tree d1 di (Suc k) @ ?ys)" unfolding split by (rule Suc.prems(8))
    show "156 \<le> Suc k" "Suc k + m \<le> 16540" "m \<le> fuel - 1" using Suc.prems(1,2,10) by simp_all
    show "a1 = (Suc k + m - 156) div 128" "b1 = (Suc k + m - 156) mod 128" using Suc.prems(11,12) by simp_all
  qed (use len(2) u32(2) g(8) Suc.prems(7) k' in \<open>simp_all only:\<close>)
  then obtain d' where d': "grows (Suc k) m ?ys (di, d1) = (di, d')"
    "runs n (insert ?i H) (fill_indirect2 (fuel - 1) ((Suc k - 156) div 128) ((Suc k - 156) mod 128) a1 b1
      (d1 ?i) ?ys) (d1(?i := x)) ([], d' ?i) (d'(?i := x))"
    unfolding if_not_P [OF k'] by (elim exE conjE)
  have xs: "(if k = 156 then tl xs else xs) = (if ?r = 0 then [last (butlast ?c)] else []) @ last ?c # ?ys"
  proof -
    have "xs = ?c @ ?ys" by simp
    moreover have "tl (?c @ ?ys) = tl ?c @ ?ys" using len(1) pos by (cases ?c) auto
    ultimately have "(if k = 156 then tl xs else xs) = (if k = 156 then tl ?c else ?c) @ ?ys" by metis
    then show ?thesis unfolding g(2) by simp
  qed
  have "runs n (insert ?i H) (fill_indirect2 (Suc (fuel - 1)) ?a ?r a1 b1 (d ?i) (if k = 156 then tl xs else xs))
      (d(?i := x)) ([], d' ?i) (d'(?i := x))"
  proof (rule fill_indirect2_step [where s = "last (butlast ?c)" and v = "last ?c" and rest = ?ys and i2' = "d1 ?i"])
    show "?a < a1 \<or> ?a = a1 \<and> ?r < b1"
      using position_less [of "k - 156" "k + Suc m - 156"] Suc.prems(1,11,12) by simp
    show "?a < 128" "?r < 128" using Suc.prems(1,2) by simp_all
    show "(if k = 156 then tl xs else xs) = (if ?r = 0 then [last (butlast ?c)] else []) @ last ?c # ?ys" by (rule xs)
    show "d1 ?i = (if ?r = 0 then write_u 4 (d ?i) ?a (last (butlast ?c)) else d ?i)" by (rule g(3))
    show "read_u 4 (d1 ?i) ?a < n" "read_u 4 (d1 ?i) ?a \<notin> insert ?i H"
      using g(4,5,6) Suc.prems(8) by (auto simp: usable_def dest: in_set_takeD)
    show "card (insert ?i H) < BLOCK_CACHE_SIZE" by (rule H)
    show "disk_ok (d(?i := x))" using Suc.prems(6) x by (simp add: disk_ok_def BLOCK_SZ_def)
    have disk: "(d(?i := x))(read_u 4 (d1 ?i) ?a := write_u 4 ((d(?i := x)) (read_u 4 (d1 ?i) ?a)) ?r (last ?c)) =
        d1(?i := x)"
      using g(5) unfolding g(4) [symmetric] g(7) by simp
    have op: "(if Suc ?r = 128 then fill_indirect2 (fuel - 1) (Suc ?a) 0 a1 b1 (d1 ?i) ?ys
         else fill_indirect2 (fuel - 1) ?a (Suc ?r) a1 b1 (d1 ?i) ?ys) =
        fill_indirect2 (fuel - 1) ((Suc k - 156) div 128) ((Suc k - 156) mod 128) a1 b1 (d1 ?i) ?ys"
      using next_position [OF Suc.prems(1)] by (cases "Suc ?r = 128") (simp_all only: if_True if_False simp_thms)
    show "runs n (insert ?i H)
        (if Suc ?r = 128 then fill_indirect2 (fuel - 1) (Suc ?a) 0 a1 b1 (d1 ?i) ?ys
         else fill_indirect2 (fuel - 1) ?a (Suc ?r) a1 b1 (d1 ?i) ?ys)
        ((d(?i := x))(read_u 4 (d1 ?i) ?a := write_u 4 ((d(?i := x)) (read_u 4 (d1 ?i) ?a)) ?r (last ?c)))
        ([], d' ?i) (d'(?i := x))"
      unfolding disk op by (rule d'(2))
  qed
  moreover have "Suc (fuel - 1) = fuel" using Suc.prems(10) by simp
  moreover have "grows k (Suc m) xs (di, d) = (di, d')" using d'(1) g(1) by simp
  ultimately show ?case by metis
qed

end
