(* ===== verification/Inode_Resize.thy ===== *)
theory Inode_Resize
  imports Inode_Grow
begin

text \<open>
  The complete \<open>DiskInode::increase_size\<close> and \<open>DiskInode::clear_size\<close> over the block list of an
  inode, with the properties of both.
\<close>

section \<open>Stages of increase\_size\<close>

lemma chunk_size [simp]: "chunk d (di\<lparr>di_size := n\<rparr>) k = chunk d di k"
  by (simp add: chunk_def index_part_def data_block_at_def sub_index_def)

lemma tree_size [simp]: "tree d (di\<lparr>di_size := n\<rparr>) m = tree d di m"
  by (rule tree_cong) simp

lemma need_upto_direct: "m \<le> 28 \<Longrightarrow> need_upto m = m"
  by (simp add: need_upto_def)

lemma need_upto_indirect1: "28 < m \<Longrightarrow> m \<le> 156 \<Longrightarrow> need_upto m = Suc m"
  by (simp add: need_upto_def)

lemma stage_direct:
  assumes "k \<le> K" and "length xs = need_upto K - need_upto k"
  defines "k1 \<equiv> max k (min K 28)"
  shows "\<exists>dir. fill_direct k (min K 28) (di_direct di) xs =
      Inr (k1, dir, drop (need_upto k1 - need_upto k) xs) \<and>
    grows k (k1 - k) xs (di, d) = (di\<lparr>di_direct := dir\<rparr>, d)"
proof (cases "k \<le> min K 28")
  case True
  then have "k1 = k + (min K 28 - k)" "need_upto k1 - need_upto k = min K 28 - k"
    by (simp_all add: k1_def need_upto_direct)
  moreover have "min K 28 - k \<le> length xs"
  proof -
    have "need_upto (min K 28) \<le> need_upto K" by (rule need_upto_mono) simp
    with True assms(2) show ?thesis by (simp add: need_upto_direct)
  qed
  ultimately show ?thesis using fill_direct_grows [of k "min K 28 - k" xs di d] True by simp
next
  case False
  then show ?thesis by (auto simp: k1_def fill_direct_done)
qed

definition take_indirect1 :: "nat \<Rightarrow> nat list \<Rightarrow> DiskInode \<Rightarrow> (DiskInode \<times> nat list) op" where
  "take_indirect1 k xs di =
     (if k = 28 then case xs of [] \<Rightarrow> slift (Inl Unwrap_None) | b # bs \<Rightarrow> sret (di\<lparr>di_indirect1 := b\<rparr>, bs)
      else sret (di, xs))"

definition fill_first_level :: "nat \<Rightarrow> nat \<Rightarrow> nat list \<Rightarrow> DiskInode \<Rightarrow> (nat \<times> nat list) op" where
  "fill_first_level k K xs di =
     cache_modify BLOCK_SZ (di_indirect1 di) 0 (\<lambda>indirect1.
       slift (rbind (fill_indirect (k - 28) (min (K - 28) 128) indirect1 xs)
         (\<lambda>(c, i1, bs). Inr ((c, bs), i1))))"

lemma runs_fill_first_level:
  assumes "di_indirect1 di < n" "di_indirect1 di \<notin> H" "card H < BLOCK_CACHE_SIZE" and "disk_ok d"
    and fill: "fill_indirect (k - 28) (min (K - 28) 128) (d (di_indirect1 di)) xs = Inr (c, bs, rest)"
    and "length bs = 512"
  shows "runs n H (fill_first_level k K xs di) d (c, rest) (d(di_indirect1 di := bs))"
proof -
  have len: "length (d (di_indirect1 di)) = 512" using assms(4) by (rule disk_ok_length)
  have "slice 0 BLOCK_SZ (d (di_indirect1 di)) = d (di_indirect1 di)" using len by (simp add: BLOCK_SZ_def)
  with assms len show ?thesis
    unfolding fill_first_level_def
    by (intro runs_cache_modify [where e = d and bs = bs]) (simp_all add: BLOCK_SZ_def)
qed

lemma stage_indirect1:
  assumes k: "28 \<le> k" "k \<le> K" "28 < K" and xs: "length xs = need_upto K - need_upto k"
    and us: "usable n H (tree d di k @ xs)" and H: "card H < BLOCK_CACHE_SIZE" and d: "disk_ok d"
  defines "k2 \<equiv> max k (min K 156)"
  shows "\<exists>di2 d2 xs'. grows k (k2 - k) xs (di, d) = (di2, d2) \<and> take_indirect1 k xs di = sret (di2, xs') \<and>
    runs n H (fill_first_level k K xs' di2) d (k2 - 28, drop (need_upto k2 - need_upto k) xs) d2"
proof -
  have len: "length (d b) = 512" for b using d by (rule disk_ok_length)
  have k2: "k2 \<le> K" "k \<le> k2" using k(2) by (simp_all add: k2_def)
  have enough: "need_upto k2 - need_upto k \<le> length xs"
    using need_upto_mono [OF k2(1)] xs by simp
  consider "k = 28" | "28 < k" "k \<le> 156" | "156 < k" using k(1) by linarith
  then show ?thesis
  proof cases
    case 1
    define m where "m = k2 - 29"
    have m: "k2 = 28 + Suc m" "Suc m \<le> 128" "min (K - 28) 128 = Suc m"
      using 1 k(3) by (auto simp: m_def k2_def)
    then have nd: "need_upto k2 - need_upto k = Suc (Suc m)"
      using 1 by (simp add: need_upto_indirect1 need_upto_direct)
    with enough obtain a b ys where xs': "xs = a # b # ys" and ys: "m \<le> length ys"
      by (metis Suc_le_length_iff)
    have "fill_indirect 0 (0 + length (b # take m ys)) (d a) ((b # take m ys) @ drop m ys) =
        Inr (0 + length (b # take m ys), writes4 0 (d a) (b # take m ys), drop m ys)"
      using m(2) ys by (intro fill_indirect_writes) simp
    then have "fill_indirect 0 (Suc m) (d a) (b # ys) = Inr (Suc m, writes4 0 (d a) (b # take m ys), drop m ys)"
      using ys by simp
    moreover have "length (writes4 0 (d a) (b # take m ys)) = 512"
      using len m(2) by (intro length_writes4) simp_all
    moreover have "a < n" "a \<notin> H" using us xs' by (simp_all add: usable_def)
    ultimately have "runs n H (fill_first_level k K (b # ys) (di\<lparr>di_indirect1 := a\<rparr>)) d (k2 - 28, drop m ys)
        (d(a := writes4 0 (d a) (b # take m ys)))"
      using runs_fill_first_level [of "di\<lparr>di_indirect1 := a\<rparr>" n H d k K "b # ys"] 1 m H d by simp
    moreover have "k2 - k = Suc m" using 1 m(1) by simp
    ultimately show ?thesis
      using grows_indirect1_28 [of m ys a b di d] m(2) ys 1 nd xs' by (auto simp: take_indirect1_def)
  next
    case 2
    define m where "m = k2 - k"
    have m: "k2 = k + m" "k + m \<le> 156" "min (K - 28) 128 = k - 28 + m"
      using 2 k(2) by (auto simp: m_def k2_def)
    then have nd: "need_upto k2 - need_upto k = m" using 2 by (simp add: need_upto_indirect1)
    let ?i = "di_indirect1 di"
    have ml: "m \<le> length xs" using enough nd by simp
    have "fill_indirect (k - 28) (k - 28 + length (take m xs)) (d ?i) (take m xs @ drop m xs) =
        Inr (k - 28 + length (take m xs), writes4 (k - 28) (d ?i) (take m xs), drop m xs)"
      using m(2) 2(1) ml by (intro fill_indirect_writes) simp
    then have "fill_indirect (k - 28) (min (K - 28) 128) (d ?i) xs =
        Inr (k2 - 28, writes4 (k - 28) (d ?i) (take m xs), drop m xs)"
      using ml m 2(1) by simp
    moreover have "length (writes4 (k - 28) (d ?i) (take m xs)) = 512"
      using len m(2) 2(1) by (intro length_writes4) simp_all
    moreover have "?i \<in> set (tree d di k)" using tree_members(2) [of 28 k di d] 2(1) by simp
    then have "?i < n" "?i \<notin> H" using us by (simp_all add: usable_def)
    ultimately show ?thesis
      using runs_fill_first_level [of di n H d k K xs] grows_indirect1 [OF 2(1) m(2) ml, of di d] 2 m_def nd H d
      by (auto simp: take_indirect1_def)
  next
    case 3
    then have k2k: "k2 = k" by (simp add: k2_def)
    let ?i = "di_indirect1 di"
    have "fill_indirect (k - 28) (min (K - 28) 128) (d ?i) xs = Inr (k2 - 28, d ?i, xs)"
      using 3 k2k by (subst fill_indirect_done) auto
    moreover have "?i \<in> set (tree d di k)" using tree_members(2) [of 28 k di d] 3 by simp
    then have "?i < n" "?i \<notin> H" using us by (simp_all add: usable_def)
    ultimately show ?thesis
      using runs_fill_first_level [of di n H d k K xs] 3 H d k2k len by (auto simp: take_indirect1_def)
  qed
qed


definition take_indirect2 :: "nat \<Rightarrow> nat list \<Rightarrow> DiskInode \<Rightarrow> (DiskInode \<times> nat list) op" where
  "take_indirect2 c xs di =
     (if c = 128 then case xs of [] \<Rightarrow> slift (Inl Unwrap_None) | b # bs \<Rightarrow> sret (di\<lparr>di_indirect2 := b\<rparr>, bs)
      else sret (di, xs))"

definition fill_second_level :: "nat \<Rightarrow> nat \<Rightarrow> nat list \<Rightarrow> DiskInode \<Rightarrow> nat list op" where
  "fill_second_level c t xs di =
     cache_modify BLOCK_SZ (di_indirect2 di) 0 (\<lambda>indirect2.
       fill_indirect2 (t - c) (c div 128) (c mod 128) (t div 128) (t mod 128) indirect2 xs)"

lemma chunk_indirect2: "k < 156 \<Longrightarrow> chunk d (di\<lparr>di_indirect2 := b\<rparr>) k = chunk d di k"
  by (simp add: chunk_def index_part_def data_block_at_def)

lemma grows_take_indirect2: "0 < m \<Longrightarrow> grows 156 m (b # xs) (di\<lparr>di_indirect2 := b\<rparr>, d) = grows 156 m (b # xs) (di, d)"
  by (cases m) (simp_all add: grow1_def need_def take_Cons')

lemma stage_indirect2:
  assumes k: "156 \<le> k" "k \<le> K" "156 < K" "K \<le> 16540" and xs: "length xs = need_upto K - need_upto k"
    and u32: "\<forall>b \<in> set xs. b < 2 ^ 32" and dist: "distinct (tree d di k @ xs)" and d: "disk_ok d"
    and wf: "dinode_wf di" and us: "usable n H (tree d di k @ xs)" and H: "card H + 1 < BLOCK_CACHE_SIZE" "finite H"
  shows "\<exists>di2 d2 xs'. grows k (K - k) xs (di, d) = (di2, d2) \<and> take_indirect2 (k - 28) xs di = sret (di2, xs') \<and>
    runs n H (fill_second_level (k - 156) (K - 156) xs' di2) d [] d2"
proof -
  define b where "b = (if k = 156 then hd xs else di_indirect2 di)"
  define di2 where "di2 = di\<lparr>di_indirect2 := b\<rparr>"
  define xs' where "xs' = (if k = 156 then tl xs else xs)"
  have ne: "xs \<noteq> []" if "k = 156"
  proof -
    have "need_upto 157 \<le> need_upto K" by (rule need_upto_mono) (use k in simp)
    then have "0 < length xs" using xs that by (simp add: need_upto_def)
    then show ?thesis by simp
  qed
  have tree: "tree d di2 k = tree d di k"
  proof (cases "k = 156")
    case True
    then show ?thesis unfolding di2_def by (intro tree_cong chunk_indirect2) simp
  qed (simp add: di2_def b_def)
  have take: "take_indirect2 (k - 28) xs di = sret (di2, xs')"
    using k(1) ne by (auto simp: take_indirect2_def di2_def b_def xs'_def split: list.splits)
  have gr: "grows k (K - k) xs (di2, d) = grows k (K - k) xs (di, d)"
  proof (cases "k = 156")
    case True
    then show ?thesis using ne k(3) grows_take_indirect2 [of "K - 156" "hd xs" "tl xs" di d]
      by (simp add: di2_def b_def)
  qed (simp add: di2_def b_def)
  have bin: "b \<in> set (tree d di k @ xs)"
  proof (cases "k = 156")
    case False
    then show ?thesis using tree_members(3) [of 156 k di d] k(1) by (simp add: b_def)
  qed (use ne in \<open>simp add: b_def\<close>)
  then have b: "b < n" "b \<notin> H" using us by (auto simp: usable_def)
  have b32: "b < 2 ^ 32" using u32 ne wf by (auto simp: b_def dinode_wf_def)
  have wf2: "dinode_wf di2" using wf b32 by (simp add: dinode_wf_def di2_def)
  have len: "length (d b) = 512" using d by (rule disk_ok_length)
  have card_b: "card (insert b H) < BLOCK_CACHE_SIZE" using H b by simp
  have i2: "di_indirect2 di2 = b" by (simp add: di2_def)
  obtain d2 where d2: "grows k (K - k) xs (di2, d) = (di2, d2)"
    "runs n (insert b H) (fill_indirect2 (K - k) ((k - 156) div 128) ((k - 156) mod 128)
      ((K - 156) div 128) ((K - 156) mod 128) (d b) xs') (d(b := d b)) ([], d2 b) (d2(b := d b))"
    using fill_indirect2_grows [of k "K - k" xs d di2 n H "K - k" "d b" "(K - 156) div 128" "(K - 156) mod 128"]
      k xs u32 dist d wf2 us H len card_b b
    unfolding tree i2 xs'_def [symmetric] by (auto simp: b_def)
  have "disk_ok d2" using grows_ok [of k "K - k" xs d di2 di2 d2] k xs u32 dist d wf2 d2(1) unfolding tree by auto
  then have l2: "length (d2 b) = 512" by (rule disk_ok_length)
  have "runs n H (fill_second_level (k - 156) (K - 156) xs' di2) d [] d2"
    unfolding fill_second_level_def i2
    using d2(2) len l2 b H k(1,2)
    by (intro runs_cache_modify [where e = "d2(b := d b)" and bs = "d2 b"]) (simp_all add: BLOCK_SZ_def)
  then show ?thesis using d2(1) gr take by auto
qed


lemma grows_take: "grows k m (take (need_upto (k + m) - need_upto k) xs) st = grows k m xs st"
proof (induction m arbitrary: k xs st)
  case (Suc m)
  have mono: "need_upto (Suc k) \<le> need_upto (k + Suc m)" by (rule need_upto_mono) simp
  let ?n = "need_upto (k + Suc m) - need_upto k"
  have "?n = need k + (need_upto (Suc k + m) - need_upto (Suc k))" using mono by (simp add: need_upto_Suc)
  then have "take (need k) (take ?n xs) = take (need k) xs"
    "drop (need k) (take ?n xs) = take (need_upto (Suc k + m) - need_upto (Suc k)) (drop (need k) xs)"
    by (simp_all add: drop_take)
  then show ?case using Suc.IH [of "Suc k" "drop (need k) xs"] by simp
qed simp

lemma grows_prefix:
  assumes k: "k \<le> k'" "k' \<le> K" "K \<le> 16540" and xs: "length xs = need_upto K - need_upto k"
    and u32: "\<forall>b \<in> set xs. b < 2 ^ 32" and dist: "distinct (tree d di k @ xs)" and d: "disk_ok d" "dinode_wf di"
    and g: "grows k (k' - k) xs (di, d) = (di', d')"
  defines "ys \<equiv> drop (need_upto k' - need_upto k) xs"
  shows "tree d' di' k' @ ys = tree d di k @ xs" and "disk_ok d'" and "dinode_wf di'"
    and "length ys = need_upto K - need_upto k'" and "\<forall>b \<in> set ys. b < 2 ^ 32"
    and "grows k (K - k) xs (di, d) = grows k' (K - k') ys (di', d')"
proof -
  let ?n = "need_upto k' - need_upto k"
  have mono: "need_upto k \<le> need_upto k'" "need_upto k' \<le> need_upto K"
    using k by (simp_all add: need_upto_mono)
  then have len: "length (take ?n xs) = need_upto (k + (k' - k)) - need_upto k" using xs k by simp
  have "distinct (tree d di k @ take ?n xs)" using dist by (auto dest: in_set_takeD)
  moreover have "\<forall>b \<in> set (take ?n xs). b < 2 ^ 32" using u32 by (auto dest: in_set_takeD)
  moreover have "grows k (k' - k) (take ?n xs) (di, d) = (di', d')"
    using g grows_take [of k "k' - k" xs "(di, d)"] k by simp
  ultimately have ok: "tree d' di' (k + (k' - k)) = tree d di k @ take ?n xs \<and> disk_ok d' \<and> dinode_wf di'"
    using grows_ok [OF _ len, of d di di' d'] d k by auto
  show "tree d' di' k' @ ys = tree d di k @ xs" "disk_ok d'" "dinode_wf di'" using ok k by (simp_all add: ys_def)
  show "length ys = need_upto K - need_upto k'" using xs mono by (simp add: ys_def)
  show "\<forall>b \<in> set ys. b < 2 ^ 32" using u32 by (auto simp: ys_def dest: in_set_dropD)
  have "K - k = (k' - k) + (K - k')" using k by simp
  then show "grows k (K - k) xs (di, d) = grows k' (K - k') ys (di', d')"
    using grows_add [of k "k' - k" "K - k'" xs "(di, d)"] g k by (simp add: ys_def)
qed

section \<open>increase\_size\<close>

lemma increase_size_stages:
  "increase_size new_size xs di =
    (let K = data_blocks_of new_size; di0 = di\<lparr>di_size := new_size\<rparr>
     in sbind (slift (fill_direct (data_blocks di) (min K 28) (di_direct di0) xs)) (\<lambda>(c, dir, xs).
        let di = di0\<lparr>di_direct := dir\<rparr>
        in if 28 < K
           then sbind (take_indirect1 c xs di) (\<lambda>(di, xs). sbind (fill_first_level c K xs di) (\<lambda>(c, xs).
             if 128 < K - 28
             then sbind (take_indirect2 c xs di) (\<lambda>(di, xs).
               sbind (fill_second_level (c - 128) (K - 28 - 128) xs di) (\<lambda>_. sret di))
             else sret di))
           else sret di))"
  unfolding increase_size_def take_indirect1_def take_indirect2_def fill_first_level_def fill_second_level_def
    Let_def
  by (simp add: data_blocks_def layout_consts BLOCK_SZ_def cong: if_cong)

lemma runs_increase_size:
  assumes k: "k = data_blocks di" "K = data_blocks_of new_size" "k \<le> K" "K \<le> 16540"
    and xs: "length xs = need_upto K - need_upto k" and u32: "\<forall>b \<in> set xs. b < 2 ^ 32" "new_size < 2 ^ 32"
    and dist: "distinct (tree d di k @ xs)" and d: "disk_ok d" "dinode_wf di" 
    and us: "usable n H (tree d di k @ xs)" and H: "card H + 1 < BLOCK_CACHE_SIZE" "finite H"
  shows "\<exists>di' d'. grows k (K - k) xs (di\<lparr>di_size := new_size\<rparr>, d) = (di', d') \<and>
    runs n H (increase_size new_size xs di) d di' d'"
proof -
  let ?di = "di\<lparr>di_size := new_size\<rparr>"
  define k1 where "k1 = max k (min K 28)"
  define k2 where "k2 = max k1 (min K 156)"
  have ks: "k \<le> k1" "k1 \<le> K" "k1 \<le> k2" "k2 \<le> K" using k(3) by (auto simp: k1_def k2_def)
  have wf: "dinode_wf ?di" using d(2) u32(2) by (simp add: dinode_wf_def)
  have dist0: "distinct (tree d ?di k @ xs)" using dist by simp
  obtain dir where A: "fill_direct k (min K 28) (di_direct ?di) xs = Inr (k1, dir, drop (need_upto k1 - need_upto k) xs)"
    "grows k (k1 - k) xs (?di, d) = (?di\<lparr>di_direct := dir\<rparr>, d)"
    using stage_direct [OF k(3) xs, of ?di d] unfolding k1_def by blast
  note pA = grows_prefix [OF ks(1,2) k(4) xs u32(1) dist0 d(1) wf A(2)]
  let ?di1 = "?di\<lparr>di_direct := dir\<rparr>" and ?xs1 = "drop (need_upto k1 - need_upto k) xs"
  show ?thesis
  proof (cases "28 < K")
    case False
    then have "k1 = K" using k(3) by (simp add: k1_def)
    with False A show ?thesis
      unfolding increase_size_stages Let_def k(1,2) [symmetric]
      by (auto intro!: runs_sbind [OF runs_slift])
  next
    case True
    then have k1: "28 \<le> k1" by (simp add: k1_def)
    have us1: "usable n H (tree d ?di1 k1 @ ?xs1)" using us pA(1) by simp
    obtain di2 d2 xs' where B: "grows k1 (k2 - k1) ?xs1 (?di1, d) = (di2, d2)"
      "take_indirect1 k1 ?xs1 ?di1 = sret (di2, xs')"
      "runs n H (fill_first_level k1 K xs' di2) d (k2 - 28, drop (need_upto k2 - need_upto k1) ?xs1) d2"
      using stage_indirect1 [OF k1 ks(2) True pA(4) us1 _ d(1)] H(1) unfolding k2_def by auto
    have dist1: "distinct (tree d ?di1 k1 @ ?xs1)" using dist0 pA(1) by simp
    note pB = grows_prefix [OF ks(3,4) k(4) pA(4) pA(5) dist1 pA(2,3) B(1)]
    let ?xs2 = "drop (need_upto k2 - need_upto k1) ?xs1"
    have step: "runs n H (increase_size new_size xs di) d r e"
      if "runs n H (if 128 < K - 28
             then sbind (take_indirect2 (k2 - 28) ?xs2 di2) (\<lambda>(di, xs).
               sbind (fill_second_level (k2 - 28 - 128) (K - 28 - 128) xs di) (\<lambda>_. sret di))
             else sret di2) d2 r e" for r e
      unfolding increase_size_stages Let_def k(1,2) [symmetric] A(1)
      by (rule runs_sbind [OF runs_slift], simp only: prod.case True if_True B(2))
        (rule runs_sbind [OF runs_sret], simp only: prod.case, rule runs_sbind [OF B(3)], simp only: prod.case, rule that)
    show ?thesis
    proof (cases "156 < K")
      case False
      then have "k2 = K" using k1 ks by (simp add: k2_def)
      moreover have "runs n H (increase_size new_size xs di) d di2 d2"
        by (rule step) (use False in auto)
      ultimately show ?thesis using pA(6) pB(6) by auto
    next
      case k156: True
      then have k2: "156 \<le> k2" by (simp add: k2_def)
      have "usable n H (tree d2 di2 k2 @ ?xs2)" "distinct (tree d2 di2 k2 @ ?xs2)"
        unfolding pB(1) using us1 dist1 by simp_all
      from stage_indirect2 [OF k2 ks(4) k156 k(4) pB(4,5) this(2) pB(2,3) this(1) H]
      obtain di3 d3 xs3 where C: "grows k2 (K - k2) ?xs2 (di2, d2) = (di3, d3)"
        "take_indirect2 (k2 - 28) ?xs2 di2 = sret (di3, xs3)"
        "runs n H (fill_second_level (k2 - 156) (K - 156) xs3 di3) d2 [] d3" by blast
      have "runs n H (increase_size new_size xs di) d di3 d3"
        by (rule step) (use k156 C(2,3) in \<open>auto intro!: runs_sbind\<close>)
      with pA(6) pB(6) C(1) show ?thesis by auto
    qed
  qed
qed


section \<open>clear\_size\<close>

lemma tree_segment:
  assumes "chunk d di m = pre @ [f 0]" and "\<And>i. 0 < i \<Longrightarrow> i \<le> j \<Longrightarrow> chunk d di (m + i) = [f i]"
  shows "tree d di (m + Suc j) = tree d di m @ pre @ map f [0..<Suc j]"
  using assms(2)
proof (induction j)
  case 0
  then show ?case using assms(1) by (simp add: tree_Suc)
next
  case (Suc j)
  have "chunk d di (Suc (m + j)) = [f (Suc j)]" using Suc.prems [of "Suc j"] by simp
  with Suc show ?case by (simp add: tree_Suc)
qed

lemma tree_direct: "m \<le> 28 \<Longrightarrow> tree d di m = map ((!) (di_direct di)) [0..<m]"
proof (induction m)
  case (Suc m)
  then show ?case by (simp add: tree_Suc chunk_def index_part_def data_block_at_def)
qed simp

lemma tree_first_level:
  assumes "28 < m" "m \<le> 156"
  shows "tree d di m = tree d di 28 @ [di_indirect1 di] @ map (read_u 4 (d (di_indirect1 di))) [0..<m - 28]"
proof -
  have "tree d di (28 + Suc (m - 29)) =
      tree d di 28 @ [di_indirect1 di] @ map (read_u 4 (d (di_indirect1 di))) [0..<Suc (m - 29)]"
    using assms by (intro tree_segment) (auto simp: chunk_def index_part_def data_block_at_def)
  moreover have "28 + Suc (m - 29) = m" "Suc (m - 29) = m - 28" using assms by simp_all
  ultimately show ?thesis by (simp only:)
qed

definition leaf_run :: "disk \<Rightarrow> nat \<Rightarrow> nat \<Rightarrow> nat list" where
  "leaf_run d e j = e # map (read_u 4 (d e)) [0..<j]"

lemma tree_second_level_run:
  assumes "0 < j" "j \<le> 128" and e_def: "e = read_u 4 (d (di_indirect2 di)) a"
  shows "tree d di (156 + 128 * a + j) =
    tree d di (156 + 128 * a) @ (if a = 0 then [di_indirect2 di] else []) @ leaf_run d e j"
proof -
  have div: "(128 * a + i) div 128 = a" "(128 * a + i) mod 128 = i" if "i < 128" for i using that by simp_all
  have "tree d di (156 + 128 * a + Suc (j - 1)) =
      tree d di (156 + 128 * a) @ ((if a = 0 then [di_indirect2 di] else []) @ [e]) @ map (read_u 4 (d e)) [0..<Suc (j - 1)]"
  proof (rule tree_segment)
    show "chunk d di (156 + 128 * a) = ((if a = 0 then [di_indirect2 di] else []) @ [e]) @ [read_u 4 (d e) 0]"
      by (simp add: chunk_def index_part_def data_block_at_def sub_index_def e_def)
    fix i assume i: "0 < i" "i \<le> j - 1"
    then have i': "i < 128" using assms(2) by simp
    have "156 + 128 * a + i - 156 = 128 * a + i" by simp
    with i div [OF i'] show "chunk d di (156 + 128 * a + i) = [read_u 4 (d e) i]"
      by (simp add: chunk_def index_part_def data_block_at_def sub_index_def e_def)
  qed
  moreover have "Suc (j - 1) = j" using assms(1) by simp
  ultimately show ?thesis by (simp add: leaf_run_def)
qed

lemma tree_second_level:
  "0 < a \<Longrightarrow> tree d di (156 + 128 * a) = tree d di 156 @ [di_indirect2 di] @
     concat (map (\<lambda>e. leaf_run d e 128) (map (read_u 4 (d (di_indirect2 di))) [0..<a]))"
proof (induction a)
  case (Suc a)
  have "tree d di (156 + 128 * Suc a) = tree d di (156 + 128 * a + 128)" by (simp add: algebra_simps)
  also have "\<dots> = tree d di (156 + 128 * a) @ (if a = 0 then [di_indirect2 di] else []) @
      leaf_run d (read_u 4 (d (di_indirect2 di)) a) 128" by (rule tree_second_level_run) simp_all
  finally show ?case using Suc.IH by (cases "a = 0") simp_all
qed simp

lemma clear_direct_eq:
  "j \<le> b \<Longrightarrow> b \<le> length dir \<Longrightarrow>
   clear_direct j b dir v = (take j dir @ replicate (b - j) 0 @ drop b dir, v @ map ((!) dir) [j..<b])"
proof (induction "b - j" arbitrary: j dir v)
  case 0
  then show ?case by (subst clear_direct.simps) simp
next
  case (Suc i)
  then have j: "j < b" "j < length dir" by simp_all
  have "clear_direct j b dir v = clear_direct (Suc j) b (dir[j := 0]) (v @ [dir ! j])"
    using j by (subst clear_direct.simps) (simp add: vec_push_def)
  also have "\<dots> = (take (Suc j) (dir[j := 0]) @ replicate (b - Suc j) 0 @ drop b (dir[j := 0]),
      (v @ [dir ! j]) @ map ((!) (dir[j := 0])) [Suc j..<b])"
    using Suc by (intro Suc.hyps(1)) simp_all
  also have "take (Suc j) (dir[j := 0]) = take j dir @ [0]" using j by (simp add: take_Suc_conv_app_nth)
  finally have "clear_direct j b dir v = ((take j dir @ [0]) @ replicate (b - Suc j) 0 @ drop b (dir[j := 0]),
      (v @ [dir ! j]) @ map ((!) (dir[j := 0])) [Suc j..<b])" .
  moreover have "replicate (b - j) (0 :: nat) = 0 # replicate (b - Suc j) 0" using j by (simp add: Suc_diff_Suc [symmetric])
  moreover have "map ((!) (dir[j := 0])) [Suc j..<b] = map ((!) dir) [Suc j..<b]" by (rule map_cong) auto
  ultimately show ?case using j by (simp add: upt_rec [of j b])
qed


lemma runs_read_block:
  assumes "e < n" "e \<notin> H" "card H < BLOCK_CACHE_SIZE" "disk_ok d"
  shows "runs n H (cache_modify BLOCK_SZ e 0 (\<lambda>b. sret (g b, b))) d (g (d e)) d"
proof -
  have "length (d e) = 512" using assms(4) by (rule disk_ok_length)
  then show ?thesis using assms
    by (intro runs_cache_modify [where e = d and bs = "d e"]) (simp_all add: BLOCK_SZ_def)
qed

lemma runs_leaf_fold:
  assumes "\<forall>e \<in> set es. e < n \<and> e \<notin> H" "card H < BLOCK_CACHE_SIZE" "disk_ok d"
  shows "runs n H (sfold (\<lambda>entry v. cache_modify BLOCK_SZ entry 0 (\<lambda>b.
      sret (vec_push v entry @ map (read_u 4 b) [0..<INODE_INDIRECT1_COUNT], b))) es v) d
      (v @ concat (map (\<lambda>e. leaf_run d e 128) es)) d"
  using assms(1)
proof (induction es arbitrary: v)
  case (Cons e es)
  have "runs n H (cache_modify BLOCK_SZ e 0 (\<lambda>b. sret (vec_push v e @ map (read_u 4 b) [0..<INODE_INDIRECT1_COUNT], b))) d
      (vec_push v e @ map (read_u 4 (d e)) [0..<INODE_INDIRECT1_COUNT]) d"
    using Cons.prems assms(2,3) by (intro runs_read_block) auto
  moreover have "vec_push v e @ map (read_u 4 (d e)) [0..<INODE_INDIRECT1_COUNT] = v @ leaf_run d e 128"
    by (simp add: vec_push_def leaf_run_def)
  ultimately show ?case using Cons.IH [of "v @ leaf_run d e 128"] Cons.prems by (auto intro: runs_sbind)
qed simp

definition second_level_blocks :: "disk \<Rightarrow> DiskInode \<Rightarrow> nat \<Rightarrow> nat list" where
  "second_level_blocks d di t =
     concat (map (\<lambda>e. leaf_run d e 128) (map (read_u 4 (d (di_indirect2 di))) [0..<t div 128])) @
     (if 0 < t mod 128 then leaf_run d (read_u 4 (d (di_indirect2 di)) (t div 128)) (t mod 128) else [])"

lemma tree_second_level_blocks:
  assumes "0 < t"
  shows "tree d di (156 + t) = tree d di 156 @ [di_indirect2 di] @ second_level_blocks d di t"
proof -
  define a r where ar: "a = t div 128" "r = t mod 128"
  have t: "t = 128 * a + r" "r < 128" by (simp_all add: ar)
  show ?thesis
  proof (cases "r = 0")
    case True
    then have "0 < a" using assms t by simp
    with True show ?thesis using tree_second_level [of a d di] t by (simp add: second_level_blocks_def)
  next
    case False
    then have "tree d di (156 + 128 * a + r) = tree d di (156 + 128 * a) @ (if a = 0 then [di_indirect2 di] else []) @
        leaf_run d (read_u 4 (d (di_indirect2 di)) a) r"
      using t by (intro tree_second_level_run) simp_all
    with False show ?thesis using tree_second_level [of a d di] t
      by (cases "a = 0") (simp_all add: second_level_blocks_def add.assoc)
  qed
qed

definition clear_second_level :: "nat \<Rightarrow> nat list \<Rightarrow> u8 list \<Rightarrow> (nat list \<times> u8 list) op" where
  "clear_second_level t v indirect2 =
     sbind (sfold (\<lambda>entry v. cache_modify BLOCK_SZ entry 0 (\<lambda>b.
             sret (vec_push v entry @ map (read_u 4 b) [0..<INODE_INDIRECT1_COUNT], b)))
           (map (read_u 4 indirect2) [0..<min (t div INODE_INDIRECT1_COUNT) INODE_INDIRECT1_COUNT]) v) (\<lambda>v.
     sbind (if t mod INODE_INDIRECT1_COUNT > 0 then
              sbind (slift (ib_get indirect2 (t div INODE_INDIRECT1_COUNT))) (\<lambda>entry.
              cache_modify BLOCK_SZ entry 0 (\<lambda>b.
                sret (vec_push v entry @ map (read_u 4 b) [0..<t mod INODE_INDIRECT1_COUNT], b)))
            else sret v) (\<lambda>v.
     sret (v, indirect2)))"

lemma runs_clear_second_level:
  assumes t: "t \<le> 16384" and us: "\<forall>e \<in> set (second_level_blocks d di t). e < n \<and> e \<notin> H"
    and H: "card H < BLOCK_CACHE_SIZE" and d: "disk_ok d"
  shows "runs n H (clear_second_level t v (d (di_indirect2 di))) d
      (v @ second_level_blocks d di t, d (di_indirect2 di)) d"
proof -
  let ?i = "d (di_indirect2 di)" and ?a = "t div 128" and ?r = "t mod 128"
  let ?full = "concat (map (\<lambda>e. leaf_run d e 128) (map (read_u 4 ?i) [0..<?a]))"
  have a: "min ?a 128 = ?a" using t by simp
  have "\<forall>e \<in> set (map (read_u 4 ?i) [0..<?a]). e < n \<and> e \<notin> H"
    using us by (auto simp: second_level_blocks_def leaf_run_def)
  from runs_leaf_fold [OF this H d, of v] have fold: "runs n H (sfold (\<lambda>entry v. cache_modify BLOCK_SZ entry 0 (\<lambda>b.
      sret (vec_push v entry @ map (read_u 4 b) [0..<INODE_INDIRECT1_COUNT], b))) (map (read_u 4 ?i) [0..<?a]) v) d
      (v @ ?full) d" .
  show ?thesis
  proof (cases "0 < ?r")
    case False
    then show ?thesis using fold a unfolding clear_second_level_def layout_consts
      by (auto intro!: runs_sbind [OF fold] simp: second_level_blocks_def)
  next
    case True
    have "?a < 128"
    proof (rule ccontr)
      assume "\<not> ?a < 128"
      then have "128 * 128 \<le> 128 * ?a" by simp
      with True t mult_div_mod_eq [of 128 t] show False by linarith
    qed
    moreover have "length ?i = 512" using d by (rule disk_ok_length)
    ultimately have get: "ib_get ?i ?a = Inr (read_u 4 ?i ?a)" by (simp add: ib_get_def)
    let ?e = "read_u 4 ?i ?a"
    have e: "?e < n" "?e \<notin> H" using us True by (simp_all add: second_level_blocks_def leaf_run_def)
    have "runs n H (cache_modify BLOCK_SZ ?e 0 (\<lambda>b. sret (vec_push w ?e @ map (read_u 4 b) [0..<?r], b))) d
        (vec_push w ?e @ map (read_u 4 (d ?e)) [0..<?r]) d" for w
      using e H d by (rule runs_read_block)
    then have last: "runs n H (sbind (slift (ib_get ?i ?a)) (\<lambda>e. cache_modify BLOCK_SZ e 0 (\<lambda>b. 
        sret (vec_push w e @ map (read_u 4 b) [0..<?r], b)))) d (w @ leaf_run d ?e ?r) d" for w
      unfolding get by (auto intro!: runs_sbind [OF runs_slift] simp: vec_push_def leaf_run_def)
    show ?thesis using True a unfolding clear_second_level_def
      apply (simp only: layout_consts if_True)
      apply (rule runs_sbind [OF fold [unfolded layout_consts]], rule runs_sbind [OF last])
      by (simp add: second_level_blocks_def True)
  qed
qed


definition cleared :: "nat \<Rightarrow> DiskInode \<Rightarrow> DiskInode" where
  "cleared k di = di\<lparr>di_size := 0, di_direct := replicate (min k 28) 0 @ drop (min k 28) (di_direct di),
     di_indirect1 := (if 28 < k then 0 else di_indirect1 di),
     di_indirect2 := (if 156 < k then 0 else di_indirect2 di)\<rparr>"

lemma clear_size_stages:
  assumes "length (di_direct di) = 28" and "k = data_blocks di" and "di0 = di\<lparr>di_size := 0,
     di_direct := replicate (min k 28) 0 @ drop (min k 28) (di_direct di)\<rparr>"
  shows "clear_size di =
    (if 28 < k
     then sbind (cache_modify BLOCK_SZ (di_indirect1 di) 0 (\<lambda>b.
            sret (tree d di 28 @ [di_indirect1 di] @ map (read_u 4 b) [0..<min (k - 28) 128], b))) (\<lambda>v.
          if 156 < k
          then sbind (slift (rassert (k - 156 \<le> 16384))) (\<lambda>_.
               sbind (cache_modify BLOCK_SZ (di_indirect2 di) 0 (clear_second_level (k - 156) (v @ [di_indirect2 di])))
                 (\<lambda>v. sret (v, di0\<lparr>di_indirect1 := 0, di_indirect2 := 0\<rparr>)))
          else sret (v, di0\<lparr>di_indirect1 := 0\<rparr>))
     else sret (tree d di k, di0))"
proof -
  have cd: "clear_direct 0 (min k 28) (di_direct di) [] =
      (replicate (min k 28) 0 @ drop (min k 28) (di_direct di), tree d di (min k 28))"
    using assms(1) by (simp add: clear_direct_eq tree_direct)
  have "128 < k - 28 \<longleftrightarrow> 156 < k" by auto
  then show ?thesis
    unfolding clear_size_def clear_second_level_def Let_def assms(2) [symmetric]
    using cd by (cases "28 < k") (simp_all add: vec_push_def assms(3) cong: if_cong)
qed

lemma runs_clear_size:
  assumes k: "k = data_blocks di" "k \<le> 16540" and us: "usable n H (tree d di k)" "distinct (tree d di k)"
    and H: "card H + 1 < BLOCK_CACHE_SIZE" "finite H" and d: "disk_ok d" "dinode_wf di"
  shows "runs n H (clear_size di) d (tree d di k, cleared k di) d"
proof -
  have len: "length (di_direct di) = 28" using d(2) by (simp add: dinode_wf_def)
  note stages = clear_size_stages [OF len k(1) refl, of d]
  show ?thesis
  proof (cases "28 < k")
    case False
    then show ?thesis by (simp add: stages cleared_def)
  next
    case True
    let ?i = "di_indirect1 di" and ?t = "min k 156"
    have "?i < n" "?i \<notin> H" using us(1) tree_members(2) [of 28 k di d] True by (simp_all add: usable_def)
    then have "runs n H (cache_modify BLOCK_SZ ?i 0 (\<lambda>b.
        sret (tree d di 28 @ [?i] @ map (read_u 4 b) [0..<min (k - 28) 128], b))) d
        (tree d di 28 @ [?i] @ map (read_u 4 (d ?i)) [0..<min (k - 28) 128]) d"
      using H d by (intro runs_read_block) simp_all
    moreover have "min (k - 28) 128 = ?t - 28" by auto
    ultimately have first: "runs n H (cache_modify BLOCK_SZ ?i 0 (\<lambda>b.
        sret (tree d di 28 @ [?i] @ map (read_u 4 b) [0..<min (k - 28) 128], b))) d (tree d di ?t) d"
      using tree_first_level [of ?t d di] True by simp
    show ?thesis
    proof (cases "156 < k")
      case False
      then show ?thesis unfolding stages if_P [OF True]
        by (intro runs_sbind [OF first]) (use True in \<open>simp add: cleared_def\<close>)
    next
      case k156: True
      let ?j = "di_indirect2 di" and ?s = "second_level_blocks d di (k - 156)"
      have tree: "tree d di k = tree d di 156 @ [?j] @ ?s"
        using tree_second_level_blocks [of "k - 156" d di] k156 by simp
      have us2: "\<forall>e \<in> set ?s. e < n \<and> e \<notin> insert ?j H" and j: "?j < n" "?j \<notin> H"
        using us unfolding tree by (auto simp: usable_def)
      have "card (insert ?j H) < BLOCK_CACHE_SIZE" using H j by simp
      then have "runs n (insert ?j H) (clear_second_level (k - 156) (tree d di 156 @ [?j]) (d ?j)) d
          (tree d di k, d ?j) d"
        using runs_clear_second_level [OF _ us2 _ d(1), of "tree d di 156 @ [?j]"] k(2) tree by simp
      moreover have "length (d ?j) = 512" using d(1) by (rule disk_ok_length)
      ultimately have second: "runs n H (cache_modify BLOCK_SZ ?j 0
          (clear_second_level (k - 156) (tree d di 156 @ [?j]))) d (tree d di k) d"
        using j H by (intro runs_cache_modify [where e = d and bs = "d ?j"]) (simp_all add: BLOCK_SZ_def)
      have chk: "runs n H (slift (rassert (k - 156 \<le> 16384))) d () d" using k(2) by (auto simp: rassert_def)
      have "runs n H (sbind (cache_modify BLOCK_SZ ?j 0 (clear_second_level (k - 156) (tree d di ?t @ [?j]))) (\<lambda>v.
          sret (v, cleared k di))) d (tree d di k, cleared k di) d"
        by (rule runs_sbind) (use second k156 in \<open>auto simp: min_def\<close>)
      then show ?thesis unfolding stages if_P [OF True] if_P [OF k156]
        using first second by (intro runs_sbind [OF first] runs_sbind [OF chk])
          (use True k156 in \<open>simp add: cleared_def\<close>)
    qed
  qed
qed

end
