(* ===== verification/File_Content.thy ===== *)
theory File_Content
  imports Inode_Resize
begin

text \<open>
  The contents of a file as one list of bytes, read off the blocks that the index of its inode
  names. \<open>DiskInode::read_at\<close> returns a slice of the list, \<open>write_at\<close> overwrites one,
  \<open>increase_size\<close> keeps it as a prefix.
\<close>

section \<open>Blocks of the index and blocks of data\<close>

definition data_set :: "disk \<Rightarrow> DiskInode \<Rightarrow> nat \<Rightarrow> nat set" where
  "data_set d di m = data_block_at d di ` {..<m}"

lemma data_block_in_chunk: "data_block_at d di k \<in> set (chunk d di k)"
  and index_part_in_chunk: "set (index_part d di k) \<subseteq> set (chunk d di k)"
  by (auto simp: chunk_def)

lemma data_block_not_index:
  assumes "distinct (tree d di m)" and "k < m"
  shows "data_block_at d di k \<notin> index_set d di m"
proof
  assume "data_block_at d di k \<in> index_set d di m"
  then obtain j where j: "j < m" "data_block_at d di k \<in> set (index_part d di j)" by (auto simp: index_set_def)
  consider "j = k" | "j < k" | "k < j" by linarith
  then show False
  proof cases
    case 1
    have "distinct (chunk d di k)"
    proof (cases k)
      case 0
      then show ?thesis by (simp add: chunk_def index_part_def)
    next
      case (Suc i)
      then show ?thesis using distinct_chunks(2) [OF assms(1), of i k] assms(2) by simp
    qed
    with 1 j show False by (simp add: chunk_def)
  next
    case 2
    then show False using distinct_chunks(1) [OF assms(1) 2 assms(2)] j data_block_in_chunk [of d di k]
        index_part_in_chunk [of d di j] by blast
  next
    case 3
    then show False using distinct_chunks(1) [OF assms(1) 3 j(1)] j data_block_in_chunk [of d di k]
        index_part_in_chunk [of d di j] by blast
  qed
qed

lemma data_set_index_set: "distinct (tree d di m) \<Longrightarrow> data_set d di m \<inter> index_set d di m = {}"
  using data_block_not_index by (auto simp: data_set_def)

lemma data_block_inj:
  assumes "distinct (tree d di m)" and "j < m" and "k < m"
  shows "data_block_at d di j = data_block_at d di k \<longleftrightarrow> j = k"
proof -
  have "data_block_at d di j \<noteq> data_block_at d di k" if "j < k" "k < m" for j k
    using distinct_chunks(1) [OF assms(1) that] data_block_in_chunk [of d di j] data_block_in_chunk [of d di k]
    by (metis disjoint_iff)
  then show ?thesis using assms(2,3) by (metis linorder_neqE_nat)
qed

lemma index_members:
  assumes "k < m"
  shows "28 \<le> k \<Longrightarrow> di_indirect1 di \<in> index_set d di m" and "156 \<le> k \<Longrightarrow> di_indirect2 di \<in> index_set d di m"
    and "156 \<le> k \<Longrightarrow> sub_index d di k \<in> index_set d di m"
proof -
  show "28 \<le> k \<Longrightarrow> di_indirect1 di \<in> index_set d di m"
    using assms by (auto simp: index_set_def index_part_def intro: bexI [of _ 28])
  show "156 \<le> k \<Longrightarrow> di_indirect2 di \<in> index_set d di m"
    using assms by (auto simp: index_set_def index_part_def intro: bexI [of _ 156])
  assume k: "156 \<le> k"
  let ?c = "156 + (k - 156) div 128 * 128"
  have "(k - 156) div 128 * 128 \<le> k - 156" by (rule div_times_less_eq_dividend)
  then have "?c < m" using k assms by linarith
  moreover have "sub_index d di k \<in> set (index_part d di ?c)" by (simp add: index_part_def sub_index_def)
  ultimately show "sub_index d di k \<in> index_set d di m" unfolding index_set_def by blast
qed

lemma chunk_agree:
  assumes "k < m" and "\<forall>b \<in> index_set d di m. d' b = d b"
  shows "chunk d' di k = chunk d di k"
proof (rule chunk_cong)
  show "28 \<le> k \<Longrightarrow> k < 156 \<Longrightarrow> di_indirect1 di = di_indirect1 di \<and>
      read_u 4 (d' (di_indirect1 di)) (k - 28) = read_u 4 (d (di_indirect1 di)) (k - 28)"
    using index_members(1) [OF assms(1)] assms(2) by simp
  assume k: "156 \<le> k"
  then have "d' (di_indirect2 di) = d (di_indirect2 di)" "d' (sub_index d di k) = d (sub_index d di k)"
    using index_members(2,3) [OF assms(1)] assms(2) by blast+
  then show "di_indirect2 di = di_indirect2 di \<and> sub_index d' di k = sub_index d di k \<and>
      read_u 4 (d' (sub_index d di k)) ((k - 156) mod 128) = read_u 4 (d (sub_index d di k)) ((k - 156) mod 128)"
    by (simp add: sub_index_def)
qed simp

lemma chunk_data: "chunk d' di' k = chunk d di k \<Longrightarrow> data_block_at d' di' k = data_block_at d di k"
  by (simp add: chunk_def)

section \<open>Bytes of a file\<close>

definition byte_at :: "disk \<Rightarrow> DiskInode \<Rightarrow> nat \<Rightarrow> u8" where
  "byte_at d di i = d (data_block_at d di (i div 512)) ! (i mod 512)"

definition content :: "disk \<Rightarrow> DiskInode \<Rightarrow> u8 list" where
  "content d di = map (byte_at d di) [0..<di_size di]"

definition written :: "disk \<Rightarrow> DiskInode \<Rightarrow> nat \<Rightarrow> nat \<Rightarrow> u8 list \<Rightarrow> disk \<Rightarrow> bool" where
  "written d di m start bs d' \<longleftrightarrow> disk_ok d' \<and> (\<forall>b. b \<notin> data_set d di m \<longrightarrow> d' b = d b) \<and>
     (\<forall>i < 512 * m. byte_at d' di i =
        (if start \<le> i \<and> i < start + length bs then bs ! (i - start) else byte_at d di i))"

lemma written_chunk:
  assumes "distinct (tree d di m)" and "written d di m start bs d'" and "k < m"
  shows "chunk d' di k = chunk d di k"
proof (rule chunk_agree [OF assms(3)])
  show "\<forall>b \<in> index_set d di m. d' b = d b"
    using assms(2) data_set_index_set [OF assms(1)] unfolding written_def by blast
qed

lemma written_tree:
  assumes "distinct (tree d di m)" and "written d di m start bs d'"
  shows "tree d' di m = tree d di m" and "data_set d' di m = data_set d di m"
proof -
  note ch = written_chunk [OF assms]
  show "tree d' di m = tree d di m" using ch by (rule tree_cong)
  show "data_set d' di m = data_set d di m"
    unfolding data_set_def by (rule image_cong [OF refl], rule chunk_data, rule ch) simp
qed

lemma written_append:
  assumes "distinct (tree d di m)" and "written d di m start bs d1" and "written d1 di m (start + length bs) cs d2"
  shows "written d di m start (bs @ cs) d2"
  using assms(2,3) unfolding written_def written_tree(2) [OF assms(1,2)]
  by (auto simp: nth_append)

lemma written_block:
  assumes dist: "distinct (tree d di m)" and d: "disk_ok d" and start: "start < 512 * m"
    and fits: "start mod 512 + length bs \<le> 512"
  shows "written d di m start bs (d(data_block_at d di (start div 512) :=
    splice (start mod 512) bs (d (data_block_at d di (start div 512)))))"
proof -
  let ?k = "start div 512"
  define b where "b = data_block_at d di ?k"
  let ?d = "d(b := splice (start mod 512) bs (d b))"
  have k: "?k < m" using start by (simp add: div_less_iff_less_mult mult.commute)
  have len: "length (d c) = 512" for c using d by (rule disk_ok_length)
  have b: "b \<notin> index_set d di m" unfolding b_def by (rule data_block_not_index [OF dist k])
  have ch: "data_block_at ?d di j = data_block_at d di j" if "j < m" for j
    using chunk_agree [OF that, of d di ?d] b by (auto intro!: chunk_data)
  have "byte_at ?d di i = (if start \<le> i \<and> i < start + length bs then bs ! (i - start) else byte_at d di i)"
    if i: "i < 512 * m" for i
  proof -
    have im: "i div 512 < m" using i by (simp add: div_less_iff_less_mult mult.commute)
    have s: "start = 512 * ?k + start mod 512" "i = 512 * (i div 512) + i mod 512" by simp_all
    show ?thesis
    proof (cases "i div 512 = ?k")
      case True
      then have "byte_at ?d di i = splice (start mod 512) bs (d b) ! (i mod 512)"
        using ch [OF im] by (simp add: byte_at_def b_def [symmetric])
      also have "\<dots> = (if start mod 512 \<le> i mod 512 \<and> i mod 512 < start mod 512 + length bs
          then bs ! (i mod 512 - start mod 512) else d b ! (i mod 512))"
        using len fits by (intro nth_splice) simp_all
      also have "i mod 512 - start mod 512 = i - start" using s True by linarith
      also have "start mod 512 \<le> i mod 512 \<longleftrightarrow> start \<le> i" using s True by linarith
      also have "i mod 512 < start mod 512 + length bs \<longleftrightarrow> i < start + length bs" using s True by linarith
      also have "d b ! (i mod 512) = byte_at d di i" using True by (simp add: byte_at_def b_def)
      finally show ?thesis .
    next
      case False
      then have "data_block_at d di (i div 512) \<noteq> b" unfolding b_def using data_block_inj [OF dist im k] by simp
      moreover have "\<not> (start \<le> i \<and> i < start + length bs)"
      proof
        assume r: "start \<le> i \<and> i < start + length bs"
        then have "?k \<le> i div 512" by (simp add: div_le_mono)
        with False have "512 * ?k + 512 \<le> 512 * (i div 512)" by simp
        with s r fits show False by linarith
      qed
      ultimately show ?thesis using ch [OF im] by (auto simp: byte_at_def)
    qed
  qed
  moreover have "disk_ok ?d" using d len fits by (simp add: disk_ok_def)
  moreover have "b \<in> data_set d di m" using k by (simp add: data_set_def b_def)
  ultimately show ?thesis unfolding written_def b_def [symmetric] by auto
qed


section \<open>The loops of read\_at and write\_at\<close>

lemma splice_splice:
  "i + length xs + length ys \<le> length bs \<Longrightarrow> splice (i + length xs) ys (splice i xs bs) = splice i (xs @ ys) bs"
  by (simp add: splice_def ac_simps)

lemma slice_add: "slice i n bs @ slice (i + n) k bs = slice i (n + k) bs"
  unfolding slice_def take_add drop_drop by (simp add: add.commute)

lemma round_bounds:
  fixes start stop m :: nat
  assumes e_def: "e = min ((start div 512 + 1) * 512) stop"
    and "start \<le> stop" and "stop \<le> 512 * m" and "start < 512 * m"
  shows "start div 512 < m" and "start \<le> e" and "e \<le> stop" and "start mod 512 + (e - start) \<le> 512"
    and "e \<noteq> stop \<Longrightarrow> e div 512 = start div 512 + 1 \<and> start < e \<and> e < stop"
proof -
  define k r where kr: "k = start div 512" "r = start mod 512"
  have s: "start = 512 * k + r" "r < 512" by (simp_all add: kr)
  show "start div 512 < m" using assms(4) by (simp add: div_less_iff_less_mult mult.commute)
  show "start \<le> e" "e \<le> stop" using assms(2) s unfolding e_def kr(1) [symmetric] by simp_all
  show "start mod 512 + (e - start) \<le> 512" using s unfolding e_def kr [symmetric] by simp
  assume ne: "e \<noteq> stop"
  then have e: "e = (k + 1) * 512" "e < stop" unfolding e_def kr(1) by (simp_all add: min_def split: if_splits)
  then show "e div 512 = start div 512 + 1 \<and> start < e \<and> e < stop" using s unfolding kr(1) [symmetric] by simp
qed

lemma slice_bytes:
  assumes "start mod 512 + j \<le> 512" and "length (d (data_block_at d di (start div 512))) = 512"
  shows "slice (start mod 512) j (d (data_block_at d di (start div 512))) = map (byte_at d di) [start..<start + j]"
proof (rule nth_equalityI)
  fix i assume "i < length (slice (start mod 512) j (d (data_block_at d di (start div 512))))"
  then have i: "i < j" "start mod 512 + i < 512" using assms by simp_all
  have "start + i = start mod 512 + i + 512 * (start div 512)" by simp
  then have "(start + i) div 512 = start div 512" "(start + i) mod 512 = start mod 512 + i"
    using i(2) by (metis add.right_neutral div_less div_mult_self2 mod_less mod_mult_self2 add.commute zero_neq_numeral)+
  with i assms show "slice (start mod 512) j (d (data_block_at d di (start div 512))) ! i =
      map (byte_at d di) [start..<start + j] ! i"
    by (simp add: byte_at_def nth_slice)
qed (use assms in simp)

lemma runs_read_loop:
  assumes m: "m \<le> 16540" "usable n H (tree d di m)" "card H < BLOCK_CACHE_SIZE" "disk_ok d"
    and "start < stop" and stop: "stop \<le> 512 * m" and "rs + (stop - start) \<le> length buf"
  shows "runs n H (read_loop di stop start (start div 512) rs buf) d
    (rs + (stop - start), splice rs (map (byte_at d di) [start..<stop]) buf) d"
  using assms(5,7)
proof (induction "stop - start" arbitrary: start rs buf rule: less_induct)
  case less
  let ?k = "start div 512" and ?e = "min ((start div 512 + 1) * 512) stop"
  define e where "e = ?e"
  let ?b = "data_block_at d di ?k" and ?xs = "map (byte_at d di) [start..<e]"
  have "start \<le> stop" "start < 512 * m" using less.prems(1) stop by linarith+
  note r = round_bounds [OF e_def this(1) stop this(2)]
  have len: "length (d ?b) = 512" using m(4) by (rule disk_ok_length)
  have km: "?k mod 2 ^ 32 = ?k" using r(1) m(1) by simp
  have b: "?b < n" "?b \<notin> H" using m(2) tree_members(1) [OF r(1)] by (auto simp: usable_def)
  have sl: "slice (start mod 512) (e - start) (d ?b) = ?xs"
    using slice_bytes [of start "e - start" d di] r(2,4) len by simp
  have rd: "runs n H (cache_read BLOCK_SZ ?b 0 (\<lambda>data_block.
      sret (splice rs (slice (start mod BLOCK_SZ) (e - start) data_block) buf))) d (splice rs ?xs buf) d"
    using b m(3) len sl by (intro runs_cache_read) (simp_all add: BLOCK_SZ_def)
  have chk: "runs n H (slift (if rs + (e - start) \<le> length buf then Inr () else Inl Index_Out_Of_Range)) d () d"
  proof -
    have "rs + (e - start) \<le> length buf" using less.prems(2) r(2,3) by linarith
    then show ?thesis by (simp only: if_True runs_slift)
  qed
  have next': "runs n H (if e = stop then sret (rs + (e - start), splice rs ?xs buf)
      else read_loop di stop e (?k + 1) (rs + (e - start)) (splice rs ?xs buf)) d
      (rs + (stop - start), splice rs (map (byte_at d di) [start..<stop]) buf) d"
  proof (cases "e = stop")
    case False
    have e: "e div 512 = ?k + 1" "start < e" "e < stop" using r(5) [OF False] by auto
    have "runs n H (read_loop di stop e (e div 512) (rs + (e - start)) (splice rs ?xs buf)) d
        (rs + (e - start) + (stop - e), splice (rs + (e - start)) (map (byte_at d di) [e..<stop]) (splice rs ?xs buf)) d"
    proof (rule less.hyps)
      show "stop - e < stop - start" "e < stop" using e by linarith+
      have "length (splice rs ?xs buf) = length buf" using less.prems(2) e by (intro length_splice) simp
      then show "rs + (e - start) + (stop - e) \<le> length (splice rs ?xs buf)" using less.prems(2) e by simp
    qed
    moreover have "splice (rs + (e - start)) (map (byte_at d di) [e..<stop]) (splice rs ?xs buf) =
        splice rs (?xs @ map (byte_at d di) [e..<stop]) buf"
      using splice_splice [of rs ?xs "map (byte_at d di) [e..<stop]" buf] less.prems(2) r(2,3) by simp
    moreover have "?xs @ map (byte_at d di) [e..<stop] = map (byte_at d di) [start..<stop]"
      using r(2,3) by (metis le_add_diff_inverse map_append upt_add_eq_append)
    ultimately show ?thesis using False e by simp
  qed simp
  have id: "runs n H (get_block_id di (?k mod 2 ^ 32)) d ?b d"
    unfolding km by (rule runs_get_block_id [OF r(1) m])
  show ?case
    apply (subst read_loop.simps)
    unfolding Let_def BLOCK_SZ_def e_def [symmetric]
    by (intro runs_sbind [OF chk] runs_sbind [OF id] runs_sbind [OF rd [unfolded BLOCK_SZ_def]] next')
qed

lemma runs_write_loop:
  assumes m: "m \<le> 16540" "usable n H (tree d di m)" "card H < BLOCK_CACHE_SIZE" "disk_ok d" "distinct (tree d di m)"
    and "start \<le> stop" "start < 512 * m" and stop: "stop \<le> 512 * m" and "ws + (stop - start) \<le> length buf"
  shows "\<exists>d'. runs n H (write_loop di stop start (start div 512) ws buf) d (ws + (stop - start)) d' \<and>
    written d di m start (slice ws (stop - start) buf) d'"
  using m(2,4,5) assms(6,7,9)
proof (induction "stop - start" arbitrary: start ws d rule: less_induct)
  case less
  let ?k = "start div 512" and ?e = "min ((start div 512 + 1) * 512) stop"
  define e where "e = ?e"
  define b where "b = data_block_at d di ?k"
  let ?xs = "slice ws (e - start) buf"
  note r = round_bounds [OF e_def less.prems(4) stop less.prems(5)]
  have len: "length (d b) = 512" using less.prems(2) by (rule disk_ok_length)
  have km: "?k mod 2 ^ 32 = ?k" using r(1) m(1) by simp
  have b: "b < n" "b \<notin> H" using less.prems(1) tree_members(1) [OF r(1)] by (auto simp: usable_def b_def)
  have xs: "length ?xs = e - start" using less.prems(6) r(3) by simp
  let ?d = "d(b := splice (start mod 512) ?xs (d b))"
  have w: "written d di m start ?xs ?d"
    unfolding b_def using less.prems r(4) xs by (intro written_block) simp_all
  have fits: "ws + (e - start) \<le> length buf" using less.prems(6) r(3) by simp
  have mo: "runs n H (cache_modify BLOCK_SZ b 0 (\<lambda>data_block.
      slift (if ws + (e - start) \<le> length buf
             then Inr ((), splice (start mod BLOCK_SZ) (slice ws (e - start) buf) data_block)
             else Inl Index_Out_Of_Range))) d () ?d"
    using b m(3) len fits xs r(4) by (intro runs_cache_modify [where e = d and bs = "splice (start mod 512) ?xs (d b)"])
      (simp_all add: BLOCK_SZ_def)
  have id: "runs n H (get_block_id di (?k mod 2 ^ 32)) d b d"
    unfolding km b_def by (rule runs_get_block_id [OF r(1) m(1) less.prems(1) m(3) less.prems(2)])
  have "\<exists>d'. runs n H (if e = stop then sret (ws + (e - start))
      else write_loop di stop e (?k + 1) (ws + (e - start)) buf) ?d (ws + (stop - start)) d' \<and>
      written d di m start (slice ws (stop - start) buf) d'"
  proof (cases "e = stop")
    case True
    then show ?thesis using w by auto
  next
    case False
    have e: "e div 512 = ?k + 1" "start < e" "e < stop" using r(5) [OF False] by auto
    note wt = written_tree [OF less.prems(3) w]
    have "\<exists>d'. runs n H (write_loop di stop e (e div 512) (ws + (e - start)) buf) ?d (ws + (e - start) + (stop - e)) d' \<and>
        written ?d di m e (slice (ws + (e - start)) (stop - e) buf) d'"
    proof (rule less.hyps)
      show "stop - e < stop - start" "e \<le> stop" "e < 512 * m" using e stop by linarith+
      show "usable n H (tree ?d di m)" "distinct (tree ?d di m)" unfolding wt(1) by (rule less.prems)+
      show "disk_ok ?d" using w unfolding written_def by (rule conjunct1)
      show "ws + (e - start) + (stop - e) \<le> length buf" using less.prems(6) e by linarith
    qed
    then obtain d' where d': "runs n H (write_loop di stop e (?k + 1) (ws + (e - start)) buf) ?d (ws + (stop - start)) d'"
      "written ?d di m (start + length ?xs) (slice (ws + (e - start)) (stop - e) buf) d'"
      using e xs by (auto simp: add.assoc)
    have "?xs @ slice (ws + (e - start)) (stop - e) buf = slice ws (stop - start) buf"
      using slice_add [of ws "e - start" buf "stop - e"] r(2,3) by simp
    with written_append [OF less.prems(3) w d'(2)] d'(1) False show ?thesis by auto
  qed
  then obtain d' where d': "runs n H (if e = stop then sret (ws + (e - start))
      else write_loop di stop e (?k + 1) (ws + (e - start)) buf) ?d (ws + (stop - start)) d'"
    "written d di m start (slice ws (stop - start) buf) d'" by blast
  have "runs n H (write_loop di stop start ?k ws buf) d (ws + (stop - start)) d'"
    apply (subst write_loop.simps)
    unfolding Let_def BLOCK_SZ_def e_def [symmetric]
    by (intro runs_sbind [OF id] runs_sbind [OF mo [unfolded BLOCK_SZ_def]] d'(1))
  with d'(2) show ?case by blast
qed


section \<open>Operations on a well-formed file\<close>

text \<open>
  A file is well formed on a disk when its inode is, its size is at most the capacity of the index
  (16540 blocks), and the blocks of its index and data are distinct blocks of the device that no
  caller holds.
\<close>

definition MAX_FILE_SIZE :: nat where
  "MAX_FILE_SIZE = 16540 * 512"

definition blocks_of :: "disk \<Rightarrow> DiskInode \<Rightarrow> nat list" where
  "blocks_of d di = tree d di (data_blocks di)"

definition file_ok :: "nat \<Rightarrow> nat set \<Rightarrow> disk \<Rightarrow> DiskInode \<Rightarrow> bool" where
  "file_ok n H d di \<longleftrightarrow> disk_ok d \<and> dinode_wf di \<and> di_size di \<le> MAX_FILE_SIZE \<and>
     distinct (blocks_of d di) \<and> usable n H (blocks_of d di)"

lemma blocks_bound:
  assumes "sz \<le> MAX_FILE_SIZE"
  shows "data_blocks_of sz = (sz + 511) div 512" and "data_blocks_of sz \<le> 16540" and "sz \<le> 512 * data_blocks_of sz"
    and "total_blocks sz = need_upto (data_blocks_of sz)"
proof -
  have lt: "sz + 511 < 2 ^ 32" using assms by (simp add: MAX_FILE_SIZE_def)
  show eq: "data_blocks_of sz = (sz + 511) div 512" by (rule data_blocks_of_eq [OF lt])
  have "(sz + 511) div 512 < 16541" using assms by (simp add: MAX_FILE_SIZE_def div_less_iff_less_mult)
  with eq show "data_blocks_of sz \<le> 16540" by simp
  have "(sz + 511) mod 512 < 512" by simp
  then show "sz \<le> 512 * data_blocks_of sz" unfolding eq using mult_div_mod_eq [of 512 "sz + 511"] by linarith
  show "total_blocks sz = need_upto (data_blocks_of sz)" by (rule total_blocks_eq [OF lt])
qed

lemma data_blocks_mono: "sz \<le> sz' \<Longrightarrow> sz' \<le> MAX_FILE_SIZE \<Longrightarrow> data_blocks_of sz \<le> data_blocks_of sz'"
  using blocks_bound(1) [of sz] blocks_bound(1) [of sz'] by (simp add: div_le_mono)

lemma length_content [simp]: "length (content d di) = di_size di"
  by (simp add: content_def)

lemma length_blocks_of: "di_size di \<le> MAX_FILE_SIZE \<Longrightarrow> length (blocks_of d di) = total_blocks (di_size di)"
  using blocks_bound(4) by (simp add: blocks_of_def data_blocks_def)

lemma runs_di_read_at:
  assumes ok: "file_ok n H d di" and H: "card H < BLOCK_CACHE_SIZE" and buf: "off + length buf < 2 ^ 64"
  defines "c \<equiv> min (length buf) (di_size di - off)"
  shows "runs n H (di_read_at off buf di) d (c, splice 0 (slice off c (content d di)) buf) d"
proof -
  let ?stop = "min (off + length buf) (di_size di)"
  have sz: "di_size di \<le> MAX_FILE_SIZE" and d: "disk_ok d" and us: "usable n H (tree d di (data_blocks di))"
    using ok by (simp_all add: file_ok_def blocks_of_def)
  note bb = blocks_bound [OF sz, folded data_blocks_def]
  have st: "min ((off + length buf) mod 2 ^ 64) (di_size di) = ?stop" using buf by simp
  show ?thesis
  proof (cases "off < ?stop")
    case False
    then have "c = 0" by (auto simp: c_def min_def split: if_splits)
    moreover have "?stop \<le> off" using False by (rule leI)
    ultimately show ?thesis unfolding di_read_at_def Let_def st by (simp only: if_True) (simp add: splice_def slice_def)
  next
    case True
    then have c: "?stop - off = c" by (auto simp: c_def min_def split: if_splits)
    have "runs n H (read_loop di ?stop off (off div 512) 0 buf) d
        (0 + (?stop - off), splice 0 (map (byte_at d di) [off..<?stop]) buf) d"
      using True bb(3) by (intro runs_read_loop [OF bb(2) us H d]) auto
    moreover have "map (byte_at d di) [off..<s] = slice off (s - off) (content d di)" if "off < s" "s \<le> di_size di" for s
      using that by (intro nth_equalityI) (auto simp: content_def nth_slice)
    from this [OF True] have "map (byte_at d di) [off..<?stop] = slice off c (content d di)" unfolding c by simp
    moreover have "(off \<ge> ?stop) = False" using True by (simp only: not_le [symmetric] simp_thms)
    ultimately show ?thesis unfolding di_read_at_def Let_def st by (simp only: if_False c BLOCK_SZ_def add_0)
  qed
qed

lemma runs_di_write_at:
  assumes ok: "file_ok n H d di" and H: "card H < BLOCK_CACHE_SIZE"
    and off: "off < di_size di" "off + length buf \<le> di_size di"
  shows "\<exists>d'. runs n H (di_write_at off buf di) d (length buf) d' \<and> file_ok n H d' di \<and>
    content d' di = splice off buf (content d di) \<and> blocks_of d' di = blocks_of d di \<and>
    (\<forall>b. b \<notin> set (blocks_of d di) \<longrightarrow> d' b = d b)"
proof -
  let ?m = "data_blocks di"
  have sz: "di_size di \<le> MAX_FILE_SIZE" and d: "disk_ok d" "dinode_wf di" and us: "usable n H (tree d di ?m)"
    and dist: "distinct (tree d di ?m)"
    using ok by (simp_all add: file_ok_def blocks_of_def)
  note bb = blocks_bound [OF sz, folded data_blocks_def]
  have st: "min ((off + length buf) mod 2 ^ 64) (di_size di) = off + length buf"
    using off sz by (simp add: MAX_FILE_SIZE_def)
  have "off + length buf \<le> 512 * ?m" "off < 512 * ?m" using bb(3) off by linarith+
  then obtain d' where d': "runs n H (write_loop di (off + length buf) off (off div 512) 0 buf) d (length buf) d'"
    "written d di ?m off buf d'"
    using runs_write_loop [OF bb(2) us H d(1) dist, of off "off + length buf" 0 buf] by auto
  have "runs n H (di_write_at off buf di) d (length buf) d'"
    unfolding di_write_at_def Let_def st using d'(1) by (auto intro!: runs_sbind [OF runs_slift] simp: rassert_def BLOCK_SZ_def)
  moreover note wt = written_tree [OF dist d'(2)]
  have "content d' di = splice off buf (content d di)"
    using d'(2) bb(3) off by (intro nth_equalityI) (auto simp: content_def nth_splice written_def)
  moreover have "d' b = d b" if "b \<notin> set (tree d di ?m)" for b
  proof -
    have "b \<notin> data_set d di ?m" using that tree_members(1) [of _ ?m d di] unfolding data_set_def by blast
    then show ?thesis using d'(2) unfolding written_def by blast
  qed
  moreover have "file_ok n H d' di" using ok d'(2) wt by (simp add: file_ok_def blocks_of_def written_def)
  ultimately show ?thesis using wt by (auto simp: blocks_of_def)
qed

lemma runs_increase_size_file:
  assumes ok: "file_ok n H d di" and H: "card H + 1 < BLOCK_CACHE_SIZE" "finite H"
    and sz: "di_size di \<le> new_size" "new_size \<le> MAX_FILE_SIZE"
    and xs: "length xs = total_blocks new_size - total_blocks (di_size di)" "\<forall>b \<in> set xs. b < 2 ^ 32"
      "distinct (blocks_of d di @ xs)" "usable n H xs"
  shows "\<exists>di' d'. runs n H (increase_size new_size xs di) d di' d' \<and> file_ok n H d' di' \<and>
    di_size di' = new_size \<and> di_type di' = di_type di \<and> blocks_of d' di' = blocks_of d di @ xs \<and>
    (\<exists>rest. content d' di' = content d di @ rest) \<and> (\<forall>b. b \<notin> set (blocks_of d di @ xs) \<longrightarrow> d' b = d b)"
proof -
  let ?k = "data_blocks di" and ?K = "data_blocks_of new_size"
  have szd: "di_size di \<le> MAX_FILE_SIZE" and d: "disk_ok d" "dinode_wf di" and us: "usable n H (tree d di ?k @ xs)"
    and dist: "distinct (tree d di ?k @ xs)"
    using ok xs(3,4) by (auto simp: file_ok_def blocks_of_def usable_def)
  note bk = blocks_bound [OF szd, folded data_blocks_def] and bK = blocks_bound [OF sz(2)]
  have kK: "?k \<le> ?K" using data_blocks_mono [OF sz] by (simp add: data_blocks_def)
  have len: "length xs = need_upto ?K - need_upto ?k" using xs(1) bk(4) bK(4) by simp
  have n32: "new_size < 2 ^ 32" using sz(2) by (simp add: MAX_FILE_SIZE_def)
  obtain di' d' where g: "grows ?k (?K - ?k) xs (di\<lparr>di_size := new_size\<rparr>, d) = (di', d')"
    "runs n H (increase_size new_size xs di) d di' d'"
    using runs_increase_size [OF refl refl kK bK(2) len xs(2) n32 dist d us H] by blast
  have kk: "?k + (?K - ?k) = ?K" using kK by simp
  have "dinode_wf (di\<lparr>di_size := new_size\<rparr>)" using d(2) n32 by (simp add: dinode_wf_def)
  with grows_ok [of ?k "?K - ?k" xs d "di\<lparr>di_size := new_size\<rparr>" di' d'] g(1) len xs(2) dist d(1) bK(2)
  have gr: "tree d' di' ?K = tree d di ?k @ xs" "\<forall>j < ?k. chunk d' di' j = chunk d di j"
    "\<forall>b. b \<notin> index_set d' di' ?K \<longrightarrow> d' b = d b" "disk_ok d'" "dinode_wf di'" "di_size di' = new_size"
    "di_type di' = di_type di" unfolding kk by simp_all
  have bl: "blocks_of d' di' = blocks_of d di @ xs" using gr(1,6) by (simp add: blocks_of_def data_blocks_def)
  have idx: "index_set d' di' ?K \<subseteq> set (tree d' di' ?K)"
    using index_part_in_chunk by (fastforce simp: index_set_def tree_def)
  have byte: "byte_at d' di' i = byte_at d di i" if "i < di_size di" for i
  proof -
    have j: "i div 512 < ?k" using that bk(3) by (simp add: div_less_iff_less_mult mult.commute)
    then have b: "data_block_at d' di' (i div 512) = data_block_at d di (i div 512)" using gr(2) by (intro chunk_data) simp
    have "data_block_at d' di' (i div 512) \<notin> index_set d' di' ?K"
      using dist gr(1) j kK by (intro data_block_not_index) simp_all
    with gr(3) have "d' (data_block_at d di (i div 512)) = d (data_block_at d di (i div 512))" unfolding b by blast
    with b show ?thesis by (simp add: byte_at_def)
  qed
  have "content d' di' = content d di @ map (byte_at d' di') [di_size di..<new_size]"
    using sz(1) byte by (intro nth_equalityI) (auto simp: content_def gr(6) nth_append)
  moreover have "file_ok n H d' di'" using gr sz(2) bl dist us by (simp add: file_ok_def blocks_of_def)
  moreover have "\<forall>b. b \<notin> set (blocks_of d di @ xs) \<longrightarrow> d' b = d b"
    using gr(1,3) idx by (auto simp: blocks_of_def)
  ultimately show ?thesis using g(2) gr(6,7) bl by blast
qed


lemma blocks_num_needed_eq:
  assumes "di_size di \<le> new_size" and "new_size \<le> MAX_FILE_SIZE"
  shows "blocks_num_needed di new_size = Inr (total_blocks new_size - total_blocks (di_size di))"
proof -
  have sz: "di_size di \<le> MAX_FILE_SIZE" using assms by simp
  have m: "need_upto (data_blocks_of new_size) < 2 ^ 32"
    using need_upto_less [of "data_blocks_of new_size"] blocks_bound(2) [OF assms(2)] by simp
  have le: "total_blocks (di_size di) \<le> total_blocks new_size"
    unfolding blocks_bound(4) [OF sz] blocks_bound(4) [OF assms(2)] by (rule need_upto_mono [OF data_blocks_mono [OF assms]])
  moreover have "total_blocks new_size < 2 ^ 32" using m blocks_bound(4) [OF assms(2)] by simp
  moreover have "total_blocks new_size + 2 ^ 32 - total_blocks (di_size di) =
      total_blocks new_size - total_blocks (di_size di) + 2 ^ 32" using le by simp
  ultimately have "(total_blocks new_size + 2 ^ 32 - total_blocks (di_size di)) mod 2 ^ 32 =
      total_blocks new_size - total_blocks (di_size di)" by (simp only: mod_add_self2) simp
  then show ?thesis using assms(1) unfolding blocks_num_needed_def by (simp only: rassert_def if_True rbind_simps)
qed

section \<open>Properties\<close>

text \<open>
  \<open>DiskInode::increase_size\<close>, given exactly the number of fresh blocks that
  \<open>blocks_num_needed\<close> asks for, returns without running out of blocks; it appends the blocks, index
  blocks included, to the blocks of the file in the order in which they were given, keeps the old
  contents as a prefix of the new ones, changes no other block of the disk and leaves the file well
  formed at its new size.
\<close>

theorem increase_size_appends_blocks:
  assumes "file_ok n H d di" and "card H + 1 < BLOCK_CACHE_SIZE" "finite H"
    and "di_size di \<le> new_size" "new_size \<le> MAX_FILE_SIZE"
    and "blocks_num_needed di new_size = Inr (length xs)" "\<forall>b \<in> set xs. b < 2 ^ 32"
      "distinct (blocks_of d di @ xs)" "usable n H xs"
  shows "\<exists>di' d'. runs n H (increase_size new_size xs di) d di' d' \<and> file_ok n H d' di' \<and>
    di_size di' = new_size \<and> di_type di' = di_type di \<and> blocks_of d' di' = blocks_of d di @ xs \<and>
    (\<exists>rest. content d' di' = content d di @ rest) \<and> (\<forall>b. b \<notin> set (blocks_of d di @ xs) \<longrightarrow> d' b = d b)"
  using assms blocks_num_needed_eq [OF assms(4,5)] by (intro runs_increase_size_file) simp_all

definition zero_disk :: disk where
  "zero_disk = (\<lambda>_. replicate 512 0)"

definition empty_inode :: DiskInode where
  "empty_inode = \<lparr>di_size = 0, di_direct = replicate 28 0, di_indirect1 = 0, di_indirect2 = 0, di_type = 0,
     di_padding = [0, 0, 0]\<rparr>"

lemma empty_inode_ok: "file_ok 100 {} zero_disk empty_inode" "blocks_of zero_disk empty_inode = []"
  by (simp_all add: file_ok_def empty_inode_def zero_disk_def disk_ok_def dinode_wf_def blocks_of_def
      data_blocks_def data_blocks_of_def BLOCK_SZ_def usable_def)

theorem increase_size_appends_blocks_witness:
  "\<exists>di' d'. runs 100 {} (increase_size 15000 [10..<41] empty_inode) zero_disk di' d' \<and> file_ok 100 {} d' di' \<and>
    di_size di' = 15000 \<and> blocks_of d' di' = [10..<41]"
proof -
  have "\<exists>di' d'. runs 100 {} (increase_size 15000 [10..<41] empty_inode) zero_disk di' d' \<and> file_ok 100 {} d' di' \<and>
    di_size di' = 15000 \<and> di_type di' = di_type empty_inode \<and>
    blocks_of d' di' = blocks_of zero_disk empty_inode @ [10..<41] \<and>
    (\<exists>rest. content d' di' = content zero_disk empty_inode @ rest) \<and>
    (\<forall>b. b \<notin> set (blocks_of zero_disk empty_inode @ [10..<41]) \<longrightarrow> d' b = zero_disk b)"
    by (rule increase_size_appends_blocks)
      (simp_all add: empty_inode_ok BLOCK_CACHE_SIZE_def MAX_FILE_SIZE_def usable_def blocks_num_needed_def
        rassert_def total_blocks_def data_blocks_of_def BLOCK_SZ_def empty_inode_def [THEN arg_cong [of _ _ di_size]])
  then show ?thesis by (auto simp: empty_inode_ok)
qed

lemma runs_clear_size_file:
  assumes "file_ok n H d di" and "card H + 1 < BLOCK_CACHE_SIZE" "finite H"
  shows "runs n H (clear_size di) d (blocks_of d di, cleared (data_blocks di) di) d \<and>
    distinct (blocks_of d di) \<and> length (blocks_of d di) = total_blocks (di_size di) \<and>
    di_size (cleared (data_blocks di) di) = 0 \<and> file_ok n H d (cleared (data_blocks di) di) \<and>
    blocks_of d (cleared (data_blocks di) di) = [] \<and>
    dinode_wf (cleared (data_blocks di) di) \<and> di_type (cleared (data_blocks di) di) = di_type di"
proof -
  have ok: "disk_ok d" "dinode_wf di" "di_size di \<le> MAX_FILE_SIZE" "distinct (blocks_of d di)" "usable n H (blocks_of d di)"
    using assms(1) by (simp_all add: file_ok_def)
  have le: "data_blocks di \<le> 16540" using blocks_bound(2) [OF ok(3)] by (simp add: data_blocks_def)
  have empty: "blocks_of d (cleared (data_blocks di) di) = []"
    by (simp add: blocks_of_def cleared_def data_blocks_def data_blocks_of_def BLOCK_SZ_def)
  have wf: "dinode_wf (cleared (data_blocks di) di)"
    using ok(2) by (auto simp: dinode_wf_def cleared_def dest: in_set_dropD)
  then have "file_ok n H d (cleared (data_blocks di) di)"
    using ok(1) empty by (simp add: file_ok_def usable_def) (simp add: cleared_def)
  moreover have "runs n H (clear_size di) d (blocks_of d di, cleared (data_blocks di) di) d"
    unfolding blocks_of_def
    using runs_clear_size [OF refl le _ _ assms(2,3) ok(1,2)] ok(4,5) by (simp add: blocks_of_def)
  ultimately show ?thesis using wf ok(4) length_blocks_of [OF ok(3)] empty by (simp add: cleared_def)
qed

text \<open>
  \<open>DiskInode::clear_size\<close> returns every block of the file, index blocks included, each exactly
  once and as many as \<open>total_blocks\<close> counts; the inode is left empty, with no blocks, and no block
  of the disk changes.
\<close>

theorem clear_size_returns_blocks:
  assumes "file_ok n H d di" and "card H + 1 < BLOCK_CACHE_SIZE" "finite H"
  shows "runs n H (clear_size di) d (blocks_of d di, cleared (data_blocks di) di) d \<and>
    distinct (blocks_of d di) \<and> length (blocks_of d di) = total_blocks (di_size di) \<and>
    di_size (cleared (data_blocks di) di) = 0 \<and> file_ok n H d (cleared (data_blocks di) di) \<and>
    blocks_of d (cleared (data_blocks di) di) = []"
  using runs_clear_size_file [OF assms] by blast

definition small_inode :: DiskInode where
  "small_inode = empty_inode\<lparr>di_size := 600, di_direct := [7, 5] @ replicate 26 0\<rparr>"

lemma small_inode_blocks: "blocks_of zero_disk small_inode = [7, 5]" "di_size small_inode = 600"
  by (simp_all add: small_inode_def empty_inode_def blocks_of_def data_blocks_def data_blocks_of_def
      BLOCK_SZ_def tree_direct upt_conv_Cons)

lemma small_inode_ok: "file_ok 100 {} zero_disk small_inode"
  unfolding file_ok_def small_inode_blocks
  by (simp add: disk_ok_def dinode_wf_def usable_def MAX_FILE_SIZE_def zero_disk_def small_inode_def BLOCK_SZ_def empty_inode_def)

theorem clear_size_returns_blocks_witness:
  "\<exists>di'. runs 100 {} (clear_size small_inode) zero_disk ([7, 5], di') zero_disk \<and> di_size di' = 0"
  using clear_size_returns_blocks [OF small_inode_ok] small_inode_blocks by (auto simp: BLOCK_CACHE_SIZE_def)

text \<open>
  C18: Reading after writing. Bytes written with \<open>DiskInode::write_at\<close> inside a file are read back
  by \<open>read_at\<close> at any offset, mixed with the older bytes around them: the read returns the slice of
  the overwritten contents, cut at the end of the file, and writing leaves the blocks of the file and
  all other blocks of the disk as they were.
\<close>

theorem read_at_after_write_at:
  assumes "file_ok n H d di" and "card H < BLOCK_CACHE_SIZE" and "off < di_size di" "off + length bs \<le> di_size di"
    and "pos + length buf < 2 ^ 64" and "c = min (length buf) (di_size di - pos)"
  shows "\<exists>d'. runs n H (sbind (di_write_at off bs di) (\<lambda>_. di_read_at pos buf di)) d
      (c, splice 0 (slice pos c (splice off bs (content d di))) buf) d' \<and>
    file_ok n H d' di \<and> blocks_of d' di = blocks_of d di \<and> (\<forall>b. b \<notin> set (blocks_of d di) \<longrightarrow> d' b = d b)"
proof -
  obtain d' where w: "runs n H (di_write_at off bs di) d (length bs) d'" "file_ok n H d' di"
    "content d' di = splice off bs (content d di)" "blocks_of d' di = blocks_of d di"
    "\<forall>b. b \<notin> set (blocks_of d di) \<longrightarrow> d' b = d b"
    using runs_di_write_at [OF assms(1-4)] by blast
  from runs_sbind [OF w(1)] runs_di_read_at [OF w(2) assms(2,5)] w(2-5) show ?thesis unfolding assms(6) by metis
qed

theorem read_at_after_write_at_witness:
  "\<exists>d'. runs 100 {} (sbind (di_write_at 510 [1, 2, 3, 4] small_inode) (\<lambda>_. di_read_at 511 [9, 9, 9, 9] small_inode))
    zero_disk (4, [2, 3, 4, 0]) d'"
proof -
  have "\<exists>d'. runs 100 {} (sbind (di_write_at 510 [1, 2, 3, 4] small_inode) (\<lambda>_. di_read_at 511 [9, 9, 9, 9] small_inode))
      zero_disk (4, splice 0 (slice 511 4 (splice 510 [1, 2, 3, 4] (content zero_disk small_inode))) [9, 9, 9, 9]) d' \<and>
    file_ok 100 {} d' small_inode \<and> blocks_of d' small_inode = blocks_of zero_disk small_inode \<and>
    (\<forall>b. b \<notin> set (blocks_of zero_disk small_inode) \<longrightarrow> d' b = zero_disk b)"
    by (rule read_at_after_write_at) (simp_all add: small_inode_ok small_inode_blocks BLOCK_CACHE_SIZE_def)
  moreover have "content zero_disk small_inode = replicate 600 0"
    by (rule nth_equalityI) (simp_all add: small_inode_blocks content_def byte_at_def zero_disk_def)
  ultimately show ?thesis by (auto simp: splice_def slice_def numeral_eq_Suc)
qed

end
