(* ===== verification/Efs.thy ===== *)
theory Efs
  imports File_Content
begin

text \<open>
  \<open>easy-fs/src/efs.rs\<close>: the disk layout (super block, inode bitmap, inode area, data bitmap, data
  area) and the allocation of inodes and data blocks. Fields of type \<open>u32\<close> are natural numbers
  with the wrap-around of release builds written out. The device is the one of the store, so the
  field \<open>block_device\<close> is left out; a file system value is never changed after it is built, so the
  mutex around it only orders threads and is left out as well.
\<close>

section \<open>EasyFileSystem\<close>

record EasyFileSystem =
  inode_bitmap :: Bitmap
  data_bitmap :: Bitmap
  inode_area_start_block :: nat
  data_area_start_block :: nat

definition get_disk_inode_pos :: "EasyFileSystem \<Rightarrow> nat \<Rightarrow> nat \<times> nat" where
  "get_disk_inode_pos efs inode_id =
     (let inode_size = DiskInode_size;
          inodes_per_block = BLOCK_SZ div inode_size;
          block_id = (inode_area_start_block efs + inode_id div inodes_per_block) mod 2 ^ 32
      in (block_id, (inode_id mod inodes_per_block) * inode_size))"

definition get_data_block_id :: "EasyFileSystem \<Rightarrow> nat \<Rightarrow> nat" where
  "get_data_block_id efs data_block_id = (data_area_start_block efs + data_block_id) mod 2 ^ 32"

definition alloc_inode :: "EasyFileSystem \<Rightarrow> nat op" where
  "alloc_inode efs =
     sbind (bitmap_alloc (inode_bitmap efs)) (\<lambda>b. sbind (slift (runwrap b)) (\<lambda>b. sret (b mod 2 ^ 32)))"

definition alloc_data :: "EasyFileSystem \<Rightarrow> nat op" where
  "alloc_data efs =
     sbind (bitmap_alloc (data_bitmap efs)) (\<lambda>b. sbind (slift (runwrap b)) (\<lambda>b.
     sret ((b mod 2 ^ 32 + data_area_start_block efs) mod 2 ^ 32)))"

definition zero_block :: "nat \<Rightarrow> unit op" where
  "zero_block block_id = cache_modify BLOCK_SZ block_id 0 (\<lambda>data_block. sret ((), map (\<lambda>_. 0) data_block))"

definition dealloc_data :: "EasyFileSystem \<Rightarrow> nat \<Rightarrow> unit op" where
  "dealloc_data efs block_id =
     sbind (zero_block block_id) (\<lambda>_.
     bitmap_dealloc (data_bitmap efs) ((block_id + 2 ^ 32 - data_area_start_block efs) mod 2 ^ 32))"

section \<open>Creating and opening\<close>

text \<open>
  The sizes of the areas that \<open>create\<close> computes: blocks of the inode area, of the data bitmap and
  of the data area.
\<close>

definition efs_areas :: "nat \<Rightarrow> nat \<Rightarrow> nat \<times> nat \<times> nat" where
  "efs_areas all_blocks inode_bitmap_blocks =
     (let inode_num = bitmap_maximum (Bitmap_new 1 inode_bitmap_blocks);
          inode_area_blocks = ((inode_num * DiskInode_size + BLOCK_SZ - 1) div BLOCK_SZ) mod 2 ^ 32;
          inode_total_blocks = (inode_bitmap_blocks + inode_area_blocks) mod 2 ^ 32;
          data_total_blocks = (all_blocks + 2 * 2 ^ 32 - 1 - inode_total_blocks) mod 2 ^ 32;
          data_bitmap_blocks = (data_total_blocks + 4096) mod 2 ^ 32 div 4097;
          data_area_blocks = (data_total_blocks + 2 ^ 32 - data_bitmap_blocks) mod 2 ^ 32
      in (inode_area_blocks, data_bitmap_blocks, data_area_blocks))"

definition efs_make :: "nat \<Rightarrow> nat \<Rightarrow> nat \<Rightarrow> EasyFileSystem" where
  "efs_make inode_bitmap_blocks inode_area_blocks data_bitmap_blocks =
     (let inode_total_blocks = (inode_bitmap_blocks + inode_area_blocks) mod 2 ^ 32
      in \<lparr>inode_bitmap = Bitmap_new 1 inode_bitmap_blocks,
          data_bitmap = Bitmap_new ((1 + inode_total_blocks) mod 2 ^ 32) data_bitmap_blocks,
          inode_area_start_block = (1 + inode_bitmap_blocks) mod 2 ^ 32,
          data_area_start_block = (1 + inode_total_blocks + data_bitmap_blocks) mod 2 ^ 32\<rparr>)"

definition init_disk_inode :: "DiskInodeType \<Rightarrow> nat \<times> nat \<Rightarrow> unit op" where
  "init_disk_inode ty pos =
     cache_modify DiskInode_size (fst pos) (snd pos) (\<lambda>bs.
       sret ((), dinode_enc (DiskInode_initialize ty (dinode_dec bs))))"

definition efs_create :: "nat \<Rightarrow> nat \<Rightarrow> EasyFileSystem op" where
  "efs_create all_blocks inode_bitmap_blocks =
     (let (inode_area_blocks, data_bitmap_blocks, data_area_blocks) = efs_areas all_blocks inode_bitmap_blocks;
          efs = efs_make inode_bitmap_blocks inode_area_blocks data_bitmap_blocks
      in sbind (sfold (\<lambda>i _. zero_block i) [0..<all_blocks] ()) (\<lambda>_.
         sbind (cache_modify SuperBlock_size 0 0 (\<lambda>_.
                  sret ((), superblock_enc (SuperBlock_initialize all_blocks inode_bitmap_blocks
                         inode_area_blocks data_bitmap_blocks data_area_blocks)))) (\<lambda>_.
         sbind (alloc_inode efs) (\<lambda>root.
         sbind (slift (rassert (root = 0))) (\<lambda>_.
         sbind (init_disk_inode Directory (get_disk_inode_pos efs 0)) (\<lambda>_.
         sbind sync_all (\<lambda>_.
         sret efs)))))))"

definition efs_open :: "EasyFileSystem op" where
  "efs_open =
     cache_read SuperBlock_size 0 0 (\<lambda>bs.
       let sb = superblock_dec bs
       in sbind (slift (rassert (SuperBlock_is_valid sb))) (\<lambda>_.
          sret (efs_make (sb_inode_bitmap_blocks sb) (sb_inode_area_blocks sb) (sb_data_bitmap_blocks sb))))"

end
