(* ===== verification/Vfs.thy ===== *)
theory Vfs
  imports Efs
begin

text \<open>
  \<open>easy-fs/src/vfs.rs\<close>: the in-memory \<open>Inode\<close>, through which the kernel and the image packer use
  the file system, and the packer's own loop (\<open>easy-fs-fuse/src/main.rs\<close>). Names are their UTF-8
  bytes. Every public operation takes the file system lock once and calls no other public
  operation, so the lock is left out.
\<close>

section \<open>Inode\<close>

record Inode =
  in_block_id :: nat
  in_block_offset :: nat
  in_fs :: EasyFileSystem

definition Inode_new :: "nat \<Rightarrow> nat \<Rightarrow> EasyFileSystem \<Rightarrow> Inode" where
  "Inode_new block_id block_offset fs = \<lparr>in_block_id = block_id, in_block_offset = block_offset, in_fs = fs\<rparr>"

definition root_inode :: "EasyFileSystem \<Rightarrow> Inode" where
  "root_inode efs = (let (block_id, block_offset) = get_disk_inode_pos efs 0 in Inode_new block_id block_offset efs)"

definition read_disk_inode :: "Inode \<Rightarrow> (DiskInode \<Rightarrow> 'v op) \<Rightarrow> 'v op" where
  "read_disk_inode ino f =
     cache_read DiskInode_size (in_block_id ino) (in_block_offset ino) (\<lambda>bs. f (dinode_dec bs))"

definition modify_disk_inode :: "Inode \<Rightarrow> (DiskInode \<Rightarrow> ('v \<times> DiskInode) op) \<Rightarrow> 'v op" where
  "modify_disk_inode ino f =
     cache_modify DiskInode_size (in_block_id ino) (in_block_offset ino) (\<lambda>bs.
       sbind (f (dinode_dec bs)) (\<lambda>(v, di). sret (v, dinode_enc di)))"

section \<open>Directories\<close>

definition read_dirent :: "nat \<Rightarrow> DirEntry \<Rightarrow> DiskInode \<Rightarrow> DirEntry op" where
  "read_dirent i dirent disk_inode =
     sbind (di_read_at (DIRENT_SZ * i) (dirent_as_bytes dirent) disk_inode) (\<lambda>(c, bs).
     sbind (slift (rassert (c = DIRENT_SZ))) (\<lambda>_.
     sret (dirent_of_bytes bs)))"

fun find_loop :: "u8 list \<Rightarrow> DiskInode \<Rightarrow> nat list \<Rightarrow> DirEntry \<Rightarrow> nat option op" where
  "find_loop name disk_inode [] dirent = sret None"
| "find_loop name disk_inode (i # is) dirent =
     sbind (read_dirent i dirent disk_inode) (\<lambda>dirent.
     sbind (slift (dirent_name dirent)) (\<lambda>entry_name.
     if entry_name = name then sret (Some (de_inode_number dirent))
     else find_loop name disk_inode is dirent))"

definition find_inode_id :: "u8 list \<Rightarrow> DiskInode \<Rightarrow> nat option op" where
  "find_inode_id name disk_inode =
     sbind (slift (rassert (is_dir disk_inode))) (\<lambda>_.
     let file_count = di_size disk_inode div DIRENT_SZ
     in find_loop name disk_inode [0..<file_count] DirEntry_empty)"

definition inode_find :: "Inode \<Rightarrow> u8 list \<Rightarrow> Inode option op" where
  "inode_find ino name =
     read_disk_inode ino (\<lambda>disk_inode.
       sbind (find_inode_id name disk_inode) (\<lambda>r.
       sret (map_option (\<lambda>inode_id.
         let (block_id, block_offset) = get_disk_inode_pos (in_fs ino) inode_id
         in Inode_new block_id block_offset (in_fs ino)) r)))"

definition inode_ls :: "Inode \<Rightarrow> u8 list list op" where
  "inode_ls ino =
     read_disk_inode ino (\<lambda>disk_inode.
       let file_count = di_size disk_inode div DIRENT_SZ
       in sfold (\<lambda>i v.
            sbind (read_dirent i DirEntry_empty disk_inode) (\<lambda>dirent.
            sbind (slift (dirent_name dirent)) (\<lambda>name.
            sret (vec_push v name)))) [0..<file_count] [])"

section \<open>Files\<close>

fun alloc_data_loop :: "EasyFileSystem \<Rightarrow> nat \<Rightarrow> nat list \<Rightarrow> nat list op" where
  "alloc_data_loop fs 0 v = sret v"
| "alloc_data_loop fs (Suc k) v = sbind (alloc_data fs) (\<lambda>b. alloc_data_loop fs k (vec_push v b))"

definition inode_increase_size :: "EasyFileSystem \<Rightarrow> nat \<Rightarrow> DiskInode \<Rightarrow> DiskInode op" where
  "inode_increase_size fs new_size disk_inode =
     (if new_size < di_size disk_inode then sret disk_inode
      else sbind (slift (blocks_num_needed disk_inode new_size)) (\<lambda>blocks_needed.
           sbind (alloc_data_loop fs blocks_needed []) (\<lambda>v.
           increase_size new_size v disk_inode)))"

definition inode_create :: "Inode \<Rightarrow> u8 list \<Rightarrow> Inode option op" where
  "inode_create ino name =
     sbind (read_disk_inode ino (\<lambda>root_inode.
              sbind (slift (rassert (is_dir root_inode))) (\<lambda>_. find_inode_id name root_inode))) (\<lambda>found.
     if found \<noteq> None then sret None
     else let fs = in_fs ino
          in sbind (alloc_inode fs) (\<lambda>new_inode_id.
             sbind (init_disk_inode File (get_disk_inode_pos fs new_inode_id)) (\<lambda>_.
             sbind (modify_disk_inode ino (\<lambda>root_inode.
                      let file_count = di_size root_inode div DIRENT_SZ;
                          new_size = (file_count + 1) * DIRENT_SZ
                      in sbind (inode_increase_size fs (new_size mod 2 ^ 32) root_inode) (\<lambda>root_inode.
                         sbind (slift (DirEntry_new name new_inode_id)) (\<lambda>dirent.
                         sbind (di_write_at (file_count * DIRENT_SZ) (dirent_as_bytes dirent) root_inode) (\<lambda>_.
                         sret ((), root_inode)))))) (\<lambda>_.
             let (block_id, block_offset) = get_disk_inode_pos fs new_inode_id
             in sbind sync_all (\<lambda>_.
                sret (Some (Inode_new block_id block_offset fs)))))))"

definition inode_read_at :: "Inode \<Rightarrow> nat \<Rightarrow> u8 list \<Rightarrow> (nat \<times> u8 list) op" where
  "inode_read_at ino off buf = read_disk_inode ino (di_read_at off buf)"

definition inode_write_at :: "Inode \<Rightarrow> nat \<Rightarrow> u8 list \<Rightarrow> nat op" where
  "inode_write_at ino off buf =
     sbind (modify_disk_inode ino (\<lambda>disk_inode.
              sbind (inode_increase_size (in_fs ino) ((off + length buf) mod 2 ^ 32) disk_inode) (\<lambda>disk_inode.
              sbind (di_write_at off buf disk_inode) (\<lambda>written_size.
              sret (written_size, disk_inode))))) (\<lambda>written_size.
     sbind sync_all (\<lambda>_.
     sret written_size))"

definition inode_clear :: "Inode \<Rightarrow> unit op" where
  "inode_clear ino =
     sbind (modify_disk_inode ino (\<lambda>disk_inode.
              sbind (clear_size disk_inode) (\<lambda>(data_blocks_dealloc, cleared_inode).
              sbind (slift (rassert (length data_blocks_dealloc = total_blocks (di_size disk_inode)))) (\<lambda>_.
              sbind (sfold (\<lambda>data_block _. dealloc_data (in_fs ino) data_block) data_blocks_dealloc ()) (\<lambda>_.
              sret ((), cleared_inode)))))) (\<lambda>_.
     sync_all)"

section \<open>Packing an image\<close>

text \<open>
  The packer's loop over the applications: names and contents come from the host's directory and
  files, which are parameters. A name is cut at its first dot; a name without one panics.
\<close>

definition strip_extension :: "u8 list \<Rightarrow> u8 list res" where
  "strip_extension name = rbind (runwrap (find_index (\<lambda>b. b = 46) name)) (\<lambda>i. Inr (take i name))"

fun strip_all :: "u8 list list \<Rightarrow> u8 list list res" where
  "strip_all [] = Inr []"
| "strip_all (n # ns) = rbind (strip_extension n) (\<lambda>a. rbind (strip_all ns) (\<lambda>as. Inr (a # as)))"

definition pack_app :: "(u8 list \<Rightarrow> u8 list option) \<Rightarrow> Inode \<Rightarrow> u8 list \<Rightarrow> unit op" where
  "pack_app host root app =
     sbind (slift (runwrap (host app))) (\<lambda>all_data.
     sbind (inode_create root app) (\<lambda>inode.
     sbind (slift (runwrap inode)) (\<lambda>inode.
     sbind (inode_write_at inode 0 all_data) (\<lambda>_.
     sret ()))))"

definition easy_fs_pack :: "u8 list list \<Rightarrow> (u8 list \<Rightarrow> u8 list option) \<Rightarrow> u8 list list op" where
  "easy_fs_pack dir_entries host =
     sbind (efs_create (16 * 2048) 1) (\<lambda>efs.
     let root = root_inode efs
     in sbind (slift (strip_all dir_entries)) (\<lambda>apps.
        sbind (sfold (\<lambda>app _. pack_app host root app) apps ()) (\<lambda>_.
        inode_ls root)))"

end
