(* ===== verification/Os_File.thy ===== *)
theory Os_File
  imports Translation Vfs
begin

text \<open>
  Open files of the kernel (\<open>os/src/fs\<close>): regular files (\<open>inode.rs\<close>) and the console
  (\<open>stdio.rs\<close>, \<open>console.rs\<close>, \<open>sbi.rs\<close>). The state is the machine, into whose pages the slices of
  a \<open>UserBuffer\<close> point, together with the store of the file system. Console output is the list of
  the code points handed to the firmware.
\<close>

unbundle bit_operations_syntax

section \<open>Slices of user memory\<close>

definition read_slice :: "machine \<Rightarrow> uslice \<Rightarrow> u8 list" where
  "read_slice m = (\<lambda>(p, a, b). slice a (b - a) (get_bytes_array m p))"

definition write_slice :: "uslice \<Rightarrow> u8 list \<Rightarrow> machine \<Rightarrow> machine" where
  "write_slice = (\<lambda>(p, a, b) bs m. set_bytes_array p (splice a bs (get_bytes_array m p)) m)"

section \<open>OSInode\<close>

record OSInode =
  os_readable :: bool
  os_writable :: bool
  os_offset :: usize
  os_inode :: Inode

definition OSInode_new :: "bool \<Rightarrow> bool \<Rightarrow> Inode \<Rightarrow> OSInode" where
  "OSInode_new readable writable inode =
     \<lparr>os_readable = readable, os_writable = writable, os_offset = 0, os_inode = inode\<rparr>"

text \<open>\<open>read_all\<close>; \<open>None\<close> would be a loop that does not end.\<close>

partial_function (option) read_all_loop ::
  "OSInode \<Rightarrow> u8 list \<Rightarrow> u8 list \<Rightarrow> store \<Rightarrow> ((u8 list \<times> OSInode) \<times> store) res option" where
  "read_all_loop f buffer v s =
     (case inode_read_at (os_inode f) (unat (os_offset f)) buffer s of
        Inl e \<Rightarrow> Some (Inl e)
      | Inr ((len, buffer), s) \<Rightarrow>
          if len = 0 then Some (Inr ((v, f), s))
          else read_all_loop (f\<lparr>os_offset := os_offset f + of_nat len\<rparr>) buffer (v @ take len buffer) s)"

definition read_all :: "OSInode \<Rightarrow> store \<Rightarrow> ((u8 list \<times> OSInode) \<times> store) res option" where
  "read_all f s = read_all_loop f (replicate 512 0) [] s"

fun osinode_read_loop :: "uslice list \<Rightarrow> nat \<Rightarrow> OSInode \<Rightarrow> machine \<Rightarrow> store \<Rightarrow>
    (nat \<times> OSInode \<times> machine \<times> store) res" where
  "osinode_read_loop [] total_read_size f m s = Inr (total_read_size, f, m, s)"
| "osinode_read_loop (sl # sls) total_read_size f m s =
     rbind (inode_read_at (os_inode f) (unat (os_offset f)) (read_slice m sl) s) (\<lambda>((read_size, bs), s).
       let m = write_slice sl bs m
       in if read_size = 0 then Inr (total_read_size, f, m, s)
          else osinode_read_loop sls (total_read_size + read_size)
                 (f\<lparr>os_offset := os_offset f + of_nat read_size\<rparr>) m s)"

definition osinode_read :: "UserBuffer \<Rightarrow> OSInode \<Rightarrow> machine \<Rightarrow> store \<Rightarrow> (nat \<times> OSInode \<times> machine \<times> store) res" where
  "osinode_read buf f m s = osinode_read_loop (buffers buf) 0 f m s"

fun osinode_write_loop :: "uslice list \<Rightarrow> nat \<Rightarrow> OSInode \<Rightarrow> machine \<Rightarrow> store \<Rightarrow> (nat \<times> OSInode \<times> store) res" where
  "osinode_write_loop [] total_write_size f m s = Inr (total_write_size, f, s)"
| "osinode_write_loop (sl # sls) total_write_size f m s =
     rbind (inode_write_at (os_inode f) (unat (os_offset f)) (read_slice m sl) s) (\<lambda>(write_size, s).
     rbind (rassert (write_size = slice_len sl)) (\<lambda>_.
     osinode_write_loop sls (total_write_size + write_size)
       (f\<lparr>os_offset := os_offset f + of_nat write_size\<rparr>) m s))"

definition osinode_write :: "UserBuffer \<Rightarrow> OSInode \<Rightarrow> machine \<Rightarrow> store \<Rightarrow> (nat \<times> OSInode \<times> store) res" where
  "osinode_write buf f m s = osinode_write_loop (buffers buf) 0 f m s"

section \<open>Opening\<close>

type_synonym OpenFlags = "32 word"

definition RDONLY :: OpenFlags where "RDONLY = 0"
definition WRONLY :: OpenFlags where "WRONLY = push_bit 0 1"
definition RDWR :: OpenFlags where "RDWR = push_bit 1 1"
definition CREATE :: OpenFlags where "CREATE = push_bit 9 1"
definition TRUNC :: OpenFlags where "TRUNC = push_bit 10 1"

definition OpenFlags_all :: OpenFlags where
  "OpenFlags_all = RDONLY OR WRONLY OR RDWR OR CREATE OR TRUNC"

definition OpenFlags_from_bits :: "32 word \<Rightarrow> OpenFlags option" where
  "OpenFlags_from_bits b = (if b AND NOT OpenFlags_all = 0 then Some b else None)"

definition OpenFlags_contains :: "OpenFlags \<Rightarrow> OpenFlags \<Rightarrow> bool" where
  "OpenFlags_contains flags other \<longleftrightarrow> flags AND other = other"

definition OpenFlags_read_write :: "OpenFlags \<Rightarrow> bool \<times> bool" where
  "OpenFlags_read_write flags =
     (if flags = 0 then (True, False)
      else if OpenFlags_contains flags WRONLY then (False, True)
      else (True, True))"

definition open_file :: "Inode \<Rightarrow> u8 list \<Rightarrow> OpenFlags \<Rightarrow> OSInode option op" where
  "open_file root name flags =
     (let (readable, writable) = OpenFlags_read_write flags
      in if OpenFlags_contains flags CREATE then
           sbind (inode_find root name) (\<lambda>found.
             case found of
               Some inode \<Rightarrow>
                 sbind (inode_clear inode) (\<lambda>_. sret (Some (OSInode_new readable writable inode)))
             | None \<Rightarrow>
                 sbind (inode_create root name) (\<lambda>r. sret (map_option (OSInode_new readable writable) r)))
         else
           sbind (inode_find root name) (\<lambda>found.
             case found of
               None \<Rightarrow> sret None
             | Some inode \<Rightarrow>
                 sbind (if OpenFlags_contains flags TRUNC then inode_clear inode else sret ()) (\<lambda>_.
                 sret (Some (OSInode_new readable writable inode)))))"

definition list_apps :: "Inode \<Rightarrow> u8 list list op" where
  "list_apps root = inode_ls root"

section \<open>Console\<close>

text \<open>\<open>str::chars\<close>: the code points of a well-formed UTF-8 sequence.\<close>

fun utf8_chars :: "u8 list \<Rightarrow> nat list" where
  "utf8_chars [] = []"
| "utf8_chars (a # bs) =
     (if a < 0x80 then unat a # utf8_chars bs
      else case bs of
        b # cs \<Rightarrow>
          if a < 0xE0 then (unat (a AND 0x1F) * 64 + unat (b AND 0x3F)) # utf8_chars cs
          else (case cs of
            c # ds \<Rightarrow>
              if a < 0xF0
              then (unat (a AND 0x0F) * 4096 + unat (b AND 0x3F) * 64 + unat (c AND 0x3F)) # utf8_chars ds
              else (case ds of
                d # es \<Rightarrow>
                  (unat (a AND 0x07) * 262144 + unat (b AND 0x3F) * 4096 + unat (c AND 0x3F) * 64 +
                   unat (d AND 0x3F)) # utf8_chars es
              | [] \<Rightarrow> [])
          | [] \<Rightarrow> [])
      | [] \<Rightarrow> [])"

definition console_write_str :: "u8 list \<Rightarrow> nat list \<Rightarrow> nat list" where
  "console_write_str str console = console @ utf8_chars str"

fun stdout_write_loop :: "uslice list \<Rightarrow> machine \<Rightarrow> nat list \<Rightarrow> nat list res" where
  "stdout_write_loop [] m console = Inr console"
| "stdout_write_loop (sl # sls) m console =
     (if utf8_valid (read_slice m sl)
      then stdout_write_loop sls m (console_write_str (read_slice m sl) console)
      else Inl Unwrap_None)"

definition stdout_write :: "UserBuffer \<Rightarrow> machine \<Rightarrow> nat list \<Rightarrow> (usize \<times> nat list) res" where
  "stdout_write user_buf m console =
     rbind (stdout_write_loop (buffers user_buf) m console) (\<lambda>console.
     Inr (UserBuffer_len user_buf, console))"

text \<open>
  One round of the loop of \<open>Stdin::read\<close>, with the firmware's answer \<open>c\<close> to
  \<open>console_getchar\<close>: \<open>None\<close> when the task is suspended to poll again.
\<close>

definition stdin_check :: "UserBuffer \<Rightarrow> unit res" where
  "stdin_check user_buf = rassert (UserBuffer_len user_buf = 1)"

definition stdin_poll :: "usize \<Rightarrow> UserBuffer \<Rightarrow> machine \<Rightarrow> machine option res" where
  "stdin_poll c user_buf m =
     (if c = 0 then Inr None
      else case buffers user_buf of
             [] \<Rightarrow> Inl Index_Out_Of_Range
           | sl # _ \<Rightarrow> Inr (Some (write_slice sl [ucast c] m)))"

end
