(* ===== verification/Kernel.thy ===== *)
theory Kernel
  imports Pid Contexts Os_File "HOL-Library.AList"
begin

text \<open>
  Processes, scheduling, system calls and traps (\<open>os/src/task\<close>, \<open>os/src/syscall\<close>,
  \<open>os/src/trap\<close>, \<open>os/src/timer.rs\<close>, \<open>os/src/sync/up.rs\<close>).

  A \<open>TaskControlBlock\<close> is known by its process identifier: \<open>k_tasks\<close> holds the control blocks
  that are alive, an \<open>Arc\<close> to one is its identifier, and the strong count is the number of places
  that hold it. A kernel control flow that has called \<open>schedule\<close> stays on its kernel stack; what it
  does when it is switched back to is the field \<open>resume\<close>. A \<open>RefCell\<close> borrowed twice is the
  panic \<open>Already_Borrowed\<close>. The firmware's answers and the addresses of functions are fields of
  the environment.
\<close>

unbundle bit_operations_syntax

section \<open>Control blocks\<close>

datatype TaskStatus = Ready | Running | Zombie

datatype file_ref = FStdin | FStdout | FInode nat

datatype resume =
    Resume_trap_return
  | Resume_syscall usize
  | Resume_stdin UserBuffer

record TaskControlBlock =
  trap_cx_ppn :: PhysPageNum
  base_size :: usize
  task_cx :: TaskContext
  task_status :: TaskStatus
  memory_set :: MemorySet
  parent :: "usize option"
  children :: "usize list"
  exit_code :: "32 word"
  fd_table :: "file_ref option list"
  resume :: resume

record environment =
  e_syms :: linker_symbols
  e_parse :: "u8 list \<Rightarrow> elf_file option"
  e_trap_return :: usize
  e_trap_handler :: usize
  e_alltraps :: usize
  e_restore :: usize
  e_sstatus :: usize
  e_clock_freq :: usize
  e_root :: Inode

record kernel =
  k_mach :: machine
  k_store :: store
  k_space :: MemorySet
  k_pids :: PidAllocator
  k_tasks :: "(usize \<times> TaskControlBlock) list"
  k_ready :: "usize list"
  k_current :: "usize option"
  k_initproc :: usize
  k_inodes :: "OSInode list"
  k_console :: "nat list"
  k_time :: usize
  k_timer :: usize

definition task :: "kernel \<Rightarrow> usize \<Rightarrow> TaskControlBlock res" where
  "task k pid = runwrap (map_of (k_tasks k) pid)"

definition put_task :: "usize \<Rightarrow> TaskControlBlock \<Rightarrow> kernel \<Rightarrow> kernel" where
  "put_task pid t k = k\<lparr>k_tasks := AList.update pid t (k_tasks k)\<rparr>"

definition is_zombie :: "TaskControlBlock \<Rightarrow> bool" where
  "is_zombie t \<longleftrightarrow> task_status t = Zombie"

definition get_user_token :: "TaskControlBlock \<Rightarrow> usize" where
  "get_user_token t = ms_token (memory_set t)"

definition alloc_fd :: "TaskControlBlock \<Rightarrow> nat \<times> TaskControlBlock" where
  "alloc_fd t =
     (case find_index (\<lambda>f. f = None) (fd_table t) of
        Some fd \<Rightarrow> (fd, t)
      | None \<Rightarrow> (length (fd_table t), t\<lparr>fd_table := vec_push (fd_table t) None\<rparr>))"

text \<open>\<open>get_trap_cx\<close>: the trap context lies at the start of its frame.\<close>

definition get_trap_cx :: "TaskControlBlock \<Rightarrow> machine \<Rightarrow> TrapContext res" where
  "get_trap_cx t m =
     rbind (pa_get_mut (pa_of_ppn (trap_cx_ppn t))) (\<lambda>_.
     Inr (trapcx_dec (get_bytes_array m (trap_cx_ppn t))))"

definition set_trap_cx :: "TaskControlBlock \<Rightarrow> TrapContext \<Rightarrow> machine \<Rightarrow> machine" where
  "set_trap_cx t cx m =
     set_bytes_array (trap_cx_ppn t) (splice 0 (trapcx_enc cx) (get_bytes_array m (trap_cx_ppn t))) m"

section \<open>Creating processes\<close>

definition trap_context_ppn :: "MemorySet \<Rightarrow> machine \<Rightarrow> PhysPageNum res" where
  "trap_context_ppn ms m =
     rbind (vpn_of_va (VirtAddr_from TRAP_CONTEXT)) (\<lambda>vpn.
     rbind (runwrap (ms_translate m ms vpn)) (\<lambda>pte.
     Inr (pte_ppn pte)))"

text \<open>\<open>pid_alloc\<close> and \<open>KernelStack::new\<close>.\<close>

definition alloc_pid_and_stack :: "kernel \<Rightarrow> (usize \<times> kernel) res" where
  "alloc_pid_and_stack k =
     (let (pid, pids) = pid_alloc (k_pids k)
      in rbind (KernelStack_new pid (k_space k, k_mach k)) (\<lambda>(space, m).
         Inr (pid, k\<lparr>k_pids := pids, k_space := space, k_mach := m\<rparr>)))"

definition task_new :: "environment \<Rightarrow> u8 list \<Rightarrow> kernel \<Rightarrow> (usize \<times> kernel) res" where
  "task_new env elf_data k =
     rbind (from_elf (strampoline (e_syms env)) (e_parse env) elf_data (k_mach k)) (\<lambda>((ms, user_sp, entry_point), m).
     rbind (trap_context_ppn ms m) (\<lambda>cx_ppn.
     rbind (alloc_pid_and_stack (k\<lparr>k_mach := m\<rparr>)) (\<lambda>(pid, k).
     let kernel_stack_top = KernelStack_get_top pid;
         t = \<lparr>trap_cx_ppn = cx_ppn, base_size = user_sp,
              task_cx = goto_trap_return (e_trap_return env) kernel_stack_top, task_status = Ready,
              memory_set = ms, parent = None, children = [], exit_code = 0,
              fd_table = [Some FStdin, Some FStdout, Some FStdout], resume = Resume_trap_return\<rparr>
     in rbind (get_trap_cx t (k_mach k)) (\<lambda>_.
        let cx = app_init_context (e_sstatus env) entry_point user_sp (ms_token (k_space k)) kernel_stack_top
                   (e_trap_handler env)
        in Inr (pid, put_task pid t (k\<lparr>k_mach := set_trap_cx t cx (k_mach k)\<rparr>))))))"

definition task_fork :: "environment \<Rightarrow> usize \<Rightarrow> kernel \<Rightarrow> (usize \<times> kernel) res" where
  "task_fork env self k =
     rbind (task k self) (\<lambda>p.
     rbind (from_existed_user (strampoline (e_syms env)) (memory_set p) (k_mach k)) (\<lambda>(ms, m).
     rbind (trap_context_ppn ms m) (\<lambda>cx_ppn.
     rbind (alloc_pid_and_stack (k\<lparr>k_mach := m\<rparr>)) (\<lambda>(pid, k).
     let kernel_stack_top = KernelStack_get_top pid;
         new_fd_table = map (\<lambda>fd. case fd of Some f \<Rightarrow> Some f | None \<Rightarrow> None) (fd_table p);
         t = \<lparr>trap_cx_ppn = cx_ppn, base_size = base_size p,
              task_cx = goto_trap_return (e_trap_return env) kernel_stack_top, task_status = Ready,
              memory_set = ms, parent = Some self, children = [], exit_code = 0,
              fd_table = new_fd_table, resume = Resume_trap_return\<rparr>;
         k = put_task self (p\<lparr>children := vec_push (children p) pid\<rparr>) (put_task pid t k)
     in rbind (get_trap_cx t (k_mach k)) (\<lambda>cx.
        Inr (pid, k\<lparr>k_mach := set_trap_cx t (cx\<lparr>tx_kernel_sp := kernel_stack_top\<rparr>) (k_mach k)\<rparr>))))))"

text \<open>\<open>exec\<close> replaces the address space; assigning it drops the old one.\<close>

definition task_exec :: "environment \<Rightarrow> usize \<Rightarrow> u8 list \<Rightarrow> kernel \<Rightarrow> kernel res" where
  "task_exec env self elf_data k =
     rbind (task k self) (\<lambda>t.
     rbind (from_elf (strampoline (e_syms env)) (e_parse env) elf_data (k_mach k)) (\<lambda>((ms, user_sp, entry_point), m).
     rbind (trap_context_ppn ms m) (\<lambda>cx_ppn.
     rbind (ms_drop (memory_set t) m) (\<lambda>m.
     let t = t\<lparr>memory_set := ms, trap_cx_ppn := cx_ppn\<rparr>
     in rbind (get_trap_cx t m) (\<lambda>_.
        let cx = app_init_context (e_sstatus env) entry_point user_sp (ms_token (k_space k))
                   (KernelStack_get_top self) (e_trap_handler env)
        in Inr (put_task self t (k\<lparr>k_mach := set_trap_cx t cx m\<rparr>)))))))"

section \<open>Scheduling\<close>

definition add_task :: "usize \<Rightarrow> kernel \<Rightarrow> kernel" where
  "add_task pid k = k\<lparr>k_ready := vec_push (k_ready k) pid\<rparr>"

definition fetch_task :: "kernel \<Rightarrow> usize option \<times> kernel" where
  "fetch_task k = (case k_ready k of [] \<Rightarrow> (None, k) | p # ps \<Rightarrow> (Some p, k\<lparr>k_ready := ps\<rparr>))"

definition current_task :: "kernel \<Rightarrow> usize res" where
  "current_task k = runwrap (k_current k)"

definition take_current_task :: "kernel \<Rightarrow> usize option \<times> kernel" where
  "take_current_task k = (k_current k, k\<lparr>k_current := None\<rparr>)"

definition current_user_token :: "kernel \<Rightarrow> usize res" where
  "current_user_token k =
     rbind (current_task k) (\<lambda>pid. rbind (task k pid) (\<lambda>t. Inr (get_user_token t)))"

definition current_trap_cx :: "kernel \<Rightarrow> TrapContext res" where
  "current_trap_cx k =
     rbind (current_task k) (\<lambda>pid. rbind (task k pid) (\<lambda>t. get_trap_cx t (k_mach k)))"

definition set_current_trap_cx :: "TrapContext \<Rightarrow> kernel \<Rightarrow> kernel res" where
  "set_current_trap_cx cx k =
     rbind (current_task k) (\<lambda>pid. rbind (task k pid) (\<lambda>t.
     Inr (k\<lparr>k_mach := set_trap_cx t cx (k_mach k)\<rparr>)))"

text \<open>
  One round of \<open>run_tasks\<close>: \<open>None\<close> when no task is ready, else the task switched to. Switching
  saves the idle flow and continues the task at its \<open>resume\<close>.
\<close>

definition run_tasks_round :: "kernel \<Rightarrow> (usize option \<times> kernel) res" where
  "run_tasks_round k =
     (case fetch_task k of
        (None, k) \<Rightarrow> Inr (None, k)
      | (Some pid, k) \<Rightarrow>
          rbind (task k pid) (\<lambda>t.
          Inr (Some pid, (put_task pid (t\<lparr>task_status := Running\<rparr>) k)\<lparr>k_current := Some pid\<rparr>)))"

text \<open>
  \<open>suspend_current_and_run_next\<close> up to the switch to the idle flow; \<open>r\<close> is what the flow does
  when it is resumed.
\<close>

definition suspend_current_and_run_next :: "resume \<Rightarrow> kernel \<Rightarrow> kernel res" where
  "suspend_current_and_run_next r k =
     (let (cur, k) = take_current_task k
      in rbind (runwrap cur) (\<lambda>pid.
         rbind (task k pid) (\<lambda>t.
         Inr (add_task pid (put_task pid (t\<lparr>task_status := Ready, resume := r\<rparr>) k)))))"

text \<open>
  \<open>inner_exclusive_access\<close> is \<open>RefCell::borrow_mut\<close> on a control block. \<open>b\<close> are the blocks whose borrow is
  alive in the running function; a second borrow of one of them panics. No borrow is alive across a
  call of the scheduler. A function that holds one block at a time borrows from the empty set, which
  cannot fail, and the second block of a fork is the one it has just made; so the set is written
  out in exit and wait, which borrow other existing blocks while they hold their own.
\<close>

definition borrow_mut :: "usize set \<Rightarrow> usize \<Rightarrow> usize set res" where
  "borrow_mut b pid = (if pid \<in> b then Inl Already_Borrowed else Inr (insert pid b))"

text \<open>One round of the loop over the children; the borrow of the child ends with its statement.\<close>

definition reparent :: "usize set \<Rightarrow> usize \<Rightarrow> usize \<Rightarrow> kernel \<Rightarrow> kernel res" where
  "reparent b initproc child k =
     rbind (borrow_mut b child) (\<lambda>_.
     rbind (task k child) (\<lambda>c.
     let k = put_task child (c\<lparr>parent := Some initproc\<rparr>) k
     in rbind (task k initproc) (\<lambda>i.
        Inr (put_task initproc (i\<lparr>children := vec_push (children i) child\<rparr>) k))))"

definition exit_current_and_run_next :: "32 word \<Rightarrow> kernel \<Rightarrow> kernel res" where
  "exit_current_and_run_next code k =
     (let (cur, k) = take_current_task k
      in rbind (runwrap cur) (\<lambda>pid.
         rbind (borrow_mut {} pid) (\<lambda>b.
         rbind (task k pid) (\<lambda>t.
         let k = put_task pid (t\<lparr>task_status := Zombie, exit_code := code\<rparr>) k
         in rbind (borrow_mut b (k_initproc k)) (\<lambda>b.
            rbind (rfold (reparent b (k_initproc k)) (children t) k) (\<lambda>k.
            rbind (task k pid) (\<lambda>t.
            rbind (recycle_data_pages (memory_set t, k_mach k)) (\<lambda>(ms, m).
            Inr (put_task pid (t\<lparr>children := [], memory_set := ms\<rparr>) (k\<lparr>k_mach := m\<rparr>))))))))))"

section \<open>Waiting for children\<close>

definition strong_refs :: "usize \<Rightarrow> kernel \<Rightarrow> nat" where
  "strong_refs pid k =
     sum_list (map (\<lambda>(_, t). length (filter (\<lambda>c. c = pid) (children t))) (k_tasks k)) +
     length (filter (\<lambda>c. c = pid) (k_ready k)) + (if k_current k = Some pid then 1 else 0) +
     (if k_initproc k = pid then 1 else 0)"

text \<open>The last reference to a control block goes: identifier, kernel stack and address space are released.\<close>

definition drop_task :: "usize \<Rightarrow> kernel \<Rightarrow> kernel res" where
  "drop_task pid k =
     rbind (task k pid) (\<lambda>t.
     rbind (pid_dealloc pid (k_pids k)) (\<lambda>pids.
     rbind (KernelStack_drop pid (k_space k, k_mach k)) (\<lambda>(space, m).
     rbind (ms_drop (memory_set t) m) (\<lambda>m.
     Inr (k\<lparr>k_pids := pids, k_space := space, k_mach := m,
            k_tasks := AList.delete pid (k_tasks k)\<rparr>)))))"

fun write_phys :: "PhysAddr \<Rightarrow> u8 list \<Rightarrow> machine \<Rightarrow> machine" where
  "write_phys pa [] m = m"
| "write_phys pa (b # bs) m = write_phys (PhysAddr (pa_0 pa + 1)) bs (phys_write_byte pa b m)"

definition is_zombie_task :: "kernel \<Rightarrow> usize \<Rightarrow> bool" where
  "is_zombie_task k pid \<longleftrightarrow> (case map_of (k_tasks k) pid of None \<Rightarrow> False | Some t \<Rightarrow> is_zombie t)"

definition pid_matches :: "usize \<Rightarrow> usize \<Rightarrow> bool" where
  "pid_matches pid child \<longleftrightarrow> pid = - 1 \<or> pid = child"

text \<open>The search for a zombie borrows every child it looks at for the time of the test.\<close>

fun find_zombie :: "usize set \<Rightarrow> kernel \<Rightarrow> usize \<Rightarrow> nat \<Rightarrow> usize list \<Rightarrow> nat option res" where
  "find_zombie b k pid i [] = Inr None"
| "find_zombie b k pid i (c # cs) =
     rbind (borrow_mut b c) (\<lambda>_.
     if is_zombie_task k c \<and> pid_matches pid c then Inr (Some i) else find_zombie b k pid (Suc i) cs)"

definition sys_waitpid :: "usize \<Rightarrow> usize \<Rightarrow> kernel \<Rightarrow> (usize \<times> kernel) res" where
  "sys_waitpid pid exit_code_ptr k =
     rbind (current_task k) (\<lambda>self.
     rbind (borrow_mut {} self) (\<lambda>b.
     rbind (task k self) (\<lambda>t.
     if \<not> list_ex (pid_matches pid) (children t) then Inr (- 1, k)
     else
       rbind (find_zombie b k pid 0 (children t)) (\<lambda>pair.
       case pair of
         None \<Rightarrow> Inr (- 2, k)
       | Some idx \<Rightarrow>
           let child = children t ! idx;
               k = put_task self (t\<lparr>children := vec_remove idx (children t)\<rparr>) k
           in rbind (rassert (1 + strong_refs child k = 1)) (\<lambda>_.
              rbind (borrow_mut b child) (\<lambda>_.
              rbind (task k child) (\<lambda>c.
              rbind (translated_refmut (k_mach k) (get_user_token t) exit_code_ptr) (\<lambda>pa.
              let k = k\<lparr>k_mach := write_phys pa (le_bytes 4 (unat (exit_code c))) (k_mach k)\<rparr>
              in rbind (drop_task child k) (\<lambda>k.
                 Inr (child, k))))))))))"


section \<open>System calls\<close>

text \<open>
  A system call returns a value to the trap handler, or has switched away from the task: then the
  value is produced when the task is resumed, or never, when it has exited.
\<close>

datatype sysres = Ret usize | Switched

text \<open>A loop that does not end does not return to the kernel.\<close>

definition returned :: "'a res option \<Rightarrow> 'a res" where
  "returned r = (case r of None \<Rightarrow> Inl Out_Of_Fuel | Some r \<Rightarrow> r)"

text \<open>
  \<open>translated_str\<close> pushes each byte as a character, so a byte above 127 becomes two bytes of UTF-8.
\<close>

definition char_utf8 :: "u8 \<Rightarrow> u8 list" where
  "char_utf8 b = (if b < 0x80 then [b] else [0xC0 OR drop_bit 6 b, 0x80 OR (b AND 0x3F)])"

definition user_path :: "kernel \<Rightarrow> usize \<Rightarrow> u8 list res" where
  "user_path k ptr =
     rbind (current_user_token k) (\<lambda>token.
     rbind (returned (translated_str (k_mach k) token ptr)) (\<lambda>chars.
     Inr (concat (map char_utf8 chars))))"

definition user_buffer :: "kernel \<Rightarrow> usize \<Rightarrow> usize \<Rightarrow> usize \<Rightarrow> UserBuffer res" where
  "user_buffer k token buf len =
     rbind (returned (translated_byte_buffer (k_mach k) token buf len)) (\<lambda>v. Inr \<lparr>buffers = v\<rparr>)"

definition file_readable :: "kernel \<Rightarrow> file_ref \<Rightarrow> bool" where
  "file_readable k f = (case f of FStdin \<Rightarrow> True | FStdout \<Rightarrow> False | FInode i \<Rightarrow> os_readable (k_inodes k ! i))"

definition file_writable :: "kernel \<Rightarrow> file_ref \<Rightarrow> bool" where
  "file_writable k f = (case f of FStdin \<Rightarrow> False | FStdout \<Rightarrow> True | FInode i \<Rightarrow> os_writable (k_inodes k ! i))"

definition stdin_round :: "usize \<Rightarrow> UserBuffer \<Rightarrow> kernel \<Rightarrow> (sysres \<times> kernel) res" where
  "stdin_round c ub k =
     rbind (stdin_poll c ub (k_mach k)) (\<lambda>r.
       case r of
         None \<Rightarrow> rbind (suspend_current_and_run_next (Resume_stdin ub) k) (\<lambda>k. Inr (Switched, k))
       | Some m \<Rightarrow> Inr (Ret 1, k\<lparr>k_mach := m\<rparr>))"

definition file_read :: "usize \<Rightarrow> file_ref \<Rightarrow> UserBuffer \<Rightarrow> kernel \<Rightarrow> (sysres \<times> kernel) res" where
  "file_read c f ub k =
     (case f of
        FStdin \<Rightarrow> rbind (stdin_check ub) (\<lambda>_. stdin_round c ub k)
      | FStdout \<Rightarrow> Inl Explicit_Panic
      | FInode i \<Rightarrow>
          rbind (osinode_read ub (k_inodes k ! i) (k_mach k) (k_store k)) (\<lambda>(n, fi, m, s).
          Inr (Ret (of_nat n), k\<lparr>k_mach := m, k_store := s, k_inodes := (k_inodes k)[i := fi]\<rparr>)))"

definition file_write :: "file_ref \<Rightarrow> UserBuffer \<Rightarrow> kernel \<Rightarrow> (usize \<times> kernel) res" where
  "file_write f ub k =
     (case f of
        FStdin \<Rightarrow> Inl Explicit_Panic
      | FStdout \<Rightarrow> rbind (stdout_write ub (k_mach k) (k_console k)) (\<lambda>(n, out). Inr (n, k\<lparr>k_console := out\<rparr>))
      | FInode i \<Rightarrow>
          rbind (osinode_write ub (k_inodes k ! i) (k_mach k) (k_store k)) (\<lambda>(n, fi, s).
          Inr (of_nat n, k\<lparr>k_store := s, k_inodes := (k_inodes k)[i := fi]\<rparr>)))"

definition sys_read :: "usize \<Rightarrow> usize \<Rightarrow> usize \<Rightarrow> usize \<Rightarrow> kernel \<Rightarrow> (sysres \<times> kernel) res" where
  "sys_read c fd buf len k =
     rbind (current_user_token k) (\<lambda>token.
     rbind (current_task k) (\<lambda>pid.
     rbind (task k pid) (\<lambda>t.
     if unat fd \<ge> length (fd_table t) then Inr (Ret (- 1), k)
     else case fd_table t ! unat fd of
            None \<Rightarrow> Inr (Ret (- 1), k)
          | Some f \<Rightarrow>
              if \<not> file_readable k f then Inr (Ret (- 1), k)
              else rbind (user_buffer k token buf len) (\<lambda>ub. file_read c f ub k))))"

definition sys_write :: "usize \<Rightarrow> usize \<Rightarrow> usize \<Rightarrow> kernel \<Rightarrow> (usize \<times> kernel) res" where
  "sys_write fd buf len k =
     rbind (current_user_token k) (\<lambda>token.
     rbind (current_task k) (\<lambda>pid.
     rbind (task k pid) (\<lambda>t.
     if unat fd \<ge> length (fd_table t) then Inr (- 1, k)
     else case fd_table t ! unat fd of
            None \<Rightarrow> Inr (- 1, k)
          | Some f \<Rightarrow>
              if \<not> file_writable k f then Inr (- 1, k)
              else rbind (user_buffer k token buf len) (\<lambda>ub. file_write f ub k))))"

definition sys_open :: "environment \<Rightarrow> usize \<Rightarrow> 32 word \<Rightarrow> kernel \<Rightarrow> (usize \<times> kernel) res" where
  "sys_open env path flags k =
     rbind (current_task k) (\<lambda>pid.
     rbind (user_path k path) (\<lambda>name.
     rbind (runwrap (OpenFlags_from_bits flags)) (\<lambda>flags.
     rbind (open_file (e_root env) name flags (k_store k)) (\<lambda>(r, s).
       let k = k\<lparr>k_store := s\<rparr>
       in case r of
            None \<Rightarrow> Inr (- 1, k)
          | Some inode \<Rightarrow>
              rbind (task k pid) (\<lambda>t.
              let (fd, t) = alloc_fd t;
                  i = length (k_inodes k);
                  t = t\<lparr>fd_table := (fd_table t)[fd := Some (FInode i)]\<rparr>
              in Inr (of_nat fd, put_task pid t (k\<lparr>k_inodes := vec_push (k_inodes k) inode\<rparr>)))))))"

definition sys_close :: "usize \<Rightarrow> kernel \<Rightarrow> (usize \<times> kernel) res" where
  "sys_close fd k =
     rbind (current_task k) (\<lambda>pid.
     rbind (task k pid) (\<lambda>t.
     if unat fd \<ge> length (fd_table t) then Inr (- 1, k)
     else if fd_table t ! unat fd = None then Inr (- 1, k)
     else Inr (0, put_task pid (t\<lparr>fd_table := (fd_table t)[unat fd := None]\<rparr>) k)))"

definition sys_yield :: "kernel \<Rightarrow> kernel res" where
  "sys_yield k = suspend_current_and_run_next (Resume_syscall 0) k"

definition sys_exit :: "32 word \<Rightarrow> kernel \<Rightarrow> kernel res" where
  "sys_exit code k = exit_current_and_run_next code k"

definition sys_getpid :: "kernel \<Rightarrow> usize res" where
  "sys_getpid k = current_task k"

definition sys_fork :: "environment \<Rightarrow> kernel \<Rightarrow> (usize \<times> kernel) res" where
  "sys_fork env k =
     rbind (current_task k) (\<lambda>cur.
     rbind (task_fork env cur k) (\<lambda>(new_pid, k).
     rbind (task k new_pid) (\<lambda>t.
     rbind (get_trap_cx t (k_mach k)) (\<lambda>cx.
     let k = k\<lparr>k_mach := set_trap_cx t (cx\<lparr>tx_x := (tx_x cx)[10 := 0]\<rparr>) (k_mach k)\<rparr>
     in Inr (new_pid, add_task new_pid k)))))"

definition sys_exec :: "environment \<Rightarrow> usize \<Rightarrow> kernel \<Rightarrow> (usize \<times> kernel) res" where
  "sys_exec env path k =
     rbind (user_path k path) (\<lambda>name.
     rbind (open_file (e_root env) name RDONLY (k_store k)) (\<lambda>(r, s).
       let k = k\<lparr>k_store := s\<rparr>
       in case r of
            None \<Rightarrow> Inr (- 1, k)
          | Some app_inode \<Rightarrow>
              rbind (returned (read_all app_inode (k_store k))) (\<lambda>((all_data, _), s).
              let k = k\<lparr>k_store := s\<rparr>
              in rbind (current_task k) (\<lambda>pid.
                 rbind (task_exec env pid all_data k) (\<lambda>k.
                 Inr (0, k))))))"

section \<open>Timer\<close>

definition TICKS_PER_SEC :: usize where "TICKS_PER_SEC = 100"
definition MSEC_PER_SEC :: usize where "MSEC_PER_SEC = 1000"

definition get_time_ms :: "environment \<Rightarrow> kernel \<Rightarrow> usize" where
  "get_time_ms env k = k_time k div (e_clock_freq env div MSEC_PER_SEC)"

definition set_next_trigger :: "environment \<Rightarrow> kernel \<Rightarrow> kernel" where
  "set_next_trigger env k = k\<lparr>k_timer := k_time k + e_clock_freq env div TICKS_PER_SEC\<rparr>"

definition sys_get_time :: "environment \<Rightarrow> kernel \<Rightarrow> usize" where
  "sys_get_time env k = get_time_ms env k"

section \<open>Dispatch and traps\<close>

definition plain :: "(usize \<times> kernel) res \<Rightarrow> (sysres \<times> kernel) res" where
  "plain r = rbind r (\<lambda>(v, k). Inr (Ret v, k))"

definition away :: "kernel res \<Rightarrow> (sysres \<times> kernel) res" where
  "away r = rbind r (\<lambda>k. Inr (Switched, k))"

text \<open>The answer \<open>c\<close> of the console is used by a read of the standard input only.\<close>

definition syscall :: "environment \<Rightarrow> usize \<Rightarrow> usize \<Rightarrow> usize \<times> usize \<times> usize \<Rightarrow> kernel \<Rightarrow> (sysres \<times> kernel) res" where
  "syscall env c syscall_id args k =
     (let (a0, a1, a2) = args
      in if syscall_id = 56 then plain (sys_open env a0 (ucast a1) k)
         else if syscall_id = 57 then plain (sys_close a0 k)
         else if syscall_id = 63 then sys_read c a0 a1 a2 k
         else if syscall_id = 64 then plain (sys_write a0 a1 a2 k)
         else if syscall_id = 93 then away (sys_exit (ucast a0) k)
         else if syscall_id = 124 then away (sys_yield k)
         else if syscall_id = 169 then Inr (Ret (sys_get_time env k), k)
         else if syscall_id = 172 then rbind (sys_getpid k) (\<lambda>pid. Inr (Ret pid, k))
         else if syscall_id = 220 then plain (sys_fork env k)
         else if syscall_id = 221 then plain (sys_exec env a0 k)
         else if syscall_id = 260 then plain (sys_waitpid a0 a1 k)
         else Inl Explicit_Panic)"

text \<open>The end of a system call: the result goes to \<open>a0\<close> of the trap context, which may be a new one.\<close>

definition finish_syscall :: "sysres \<times> kernel \<Rightarrow> kernel res" where
  "finish_syscall = (\<lambda>(r, k).
     case r of
       Switched \<Rightarrow> Inr k
     | Ret v \<Rightarrow> rbind (current_trap_cx k) (\<lambda>cx. set_current_trap_cx (cx\<lparr>tx_x := (tx_x cx)[10 := v]\<rparr>) k))"

definition trap_handler :: "environment \<Rightarrow> usize \<Rightarrow> usize \<Rightarrow> kernel \<Rightarrow> kernel res" where
  "trap_handler env c scause k =
     (case scause_cause scause of
        TrapException UserEnvCall \<Rightarrow>
          rbind (current_trap_cx k) (\<lambda>cx.
          let cx = cx\<lparr>tx_sepc := tx_sepc cx + 4\<rparr>
          in rbind (set_current_trap_cx cx k) (\<lambda>k.
             rbind (syscall env c (tx_x cx ! 17) (tx_x cx ! 10, tx_x cx ! 11, tx_x cx ! 12) k) finish_syscall))
      | TrapException StoreFault \<Rightarrow> exit_current_and_run_next (- 2) k
      | TrapException StorePageFault \<Rightarrow> exit_current_and_run_next (- 2) k
      | TrapException InstructionFault \<Rightarrow> exit_current_and_run_next (- 2) k
      | TrapException InstructionPageFault \<Rightarrow> exit_current_and_run_next (- 2) k
      | TrapException LoadFault \<Rightarrow> exit_current_and_run_next (- 2) k
      | TrapException LoadPageFault \<Rightarrow> exit_current_and_run_next (- 2) k
      | TrapException IllegalInstruction \<Rightarrow> exit_current_and_run_next (- 3) k
      | TrapInterrupt SupervisorTimer \<Rightarrow>
          suspend_current_and_run_next Resume_trap_return (set_next_trigger env k)
      | _ \<Rightarrow> Inl Explicit_Panic)"

text \<open>What a task does after it has been switched to, up to \<open>trap_return\<close> or the next switch.\<close>

definition resume_task :: "usize \<Rightarrow> usize \<Rightarrow> kernel \<Rightarrow> kernel res" where
  "resume_task c pid k =
     rbind (task k pid) (\<lambda>t.
       case resume t of
         Resume_trap_return \<Rightarrow> Inr k
       | Resume_syscall v \<Rightarrow> finish_syscall (Ret v, k)
       | Resume_stdin ub \<Rightarrow> rbind (stdin_round c ub k) finish_syscall)"

text \<open>
  \<open>trap_return\<close>: the address of \<open>__restore\<close> in the trampoline page, the trap context and the
  token it is called with.
\<close>

definition trap_return :: "environment \<Rightarrow> kernel \<Rightarrow> (usize \<times> usize \<times> usize) res" where
  "trap_return env k =
     rbind (current_user_token k) (\<lambda>user_satp.
     let restore_va = e_restore env - e_alltraps env + TRAMPOLINE
     in Inr (restore_va, TRAP_CONTEXT, user_satp))"

definition add_initproc :: "environment \<Rightarrow> kernel \<Rightarrow> kernel res" where
  "add_initproc env k =
     rbind (open_file (e_root env) [105, 110, 105, 116, 112, 114, 111, 99] RDONLY (k_store k)) (\<lambda>(r, s).
     rbind (runwrap r) (\<lambda>inode.
     rbind (returned (read_all inode s)) (\<lambda>((v, _), s).
     rbind (task_new env v (k\<lparr>k_store := s\<rparr>)) (\<lambda>(pid, k).
     Inr (add_task pid (k\<lparr>k_initproc := pid\<rparr>))))))"

end
