(* ===== verification/Kernel_Inv.thy ===== *)
theory Kernel_Inv
  imports Kernel
begin

text \<open>
  The scheduler's invariant and the reachable states of the kernel. A step is a trap of the running
  task handled to its end, or the idle flow switching to the next ready task, or the running
  program changing its memory while time passes.
\<close>

section \<open>Tasks as a map\<close>

definition tasks :: "kernel \<Rightarrow> usize \<rightharpoonup> TaskControlBlock" where
  "tasks k = map_of (k_tasks k)"

lemma task_Inr: "task k p = Inr t \<longleftrightarrow> tasks k p = Some t"
  by (simp add: task_def tasks_def runwrap_def split: option.splits)

lemma tasks_put [simp]: "tasks (put_task p t k) = (tasks k)(p \<mapsto> t)"
  by (simp add: tasks_def put_task_def update_conv')

lemma put_task_fields [simp]:
  "k_ready (put_task p t k) = k_ready k" "k_current (put_task p t k) = k_current k"
  "k_initproc (put_task p t k) = k_initproc k" "k_pids (put_task p t k) = k_pids k"
  "k_mach (put_task p t k) = k_mach k" "k_inodes (put_task p t k) = k_inodes k"
  "k_timer (put_task p t k) = k_timer k" "k_space (put_task p t k) = k_space k"
  by (simp_all add: put_task_def)

lemma tasks_fields [simp]:
  "tasks (k\<lparr>k_mach := m\<rparr>) = tasks k" "tasks (k\<lparr>k_store := s\<rparr>) = tasks k" "tasks (k\<lparr>k_ready := q\<rparr>) = tasks k"
  "tasks (k\<lparr>k_current := c\<rparr>) = tasks k" "tasks (k\<lparr>k_inodes := i\<rparr>) = tasks k" "tasks (k\<lparr>k_console := out\<rparr>) = tasks k"
  "tasks (k\<lparr>k_timer := tm\<rparr>) = tasks k" "tasks (k\<lparr>k_time := tm\<rparr>) = tasks k" "tasks (k\<lparr>k_pids := ps\<rparr>) = tasks k"
  "tasks (k\<lparr>k_space := sp\<rparr>) = tasks k" "tasks (k\<lparr>k_initproc := ip\<rparr>) = tasks k"
  by (simp_all add: tasks_def)

section \<open>The invariant\<close>

definition st :: "kernel \<Rightarrow> usize \<Rightarrow> TaskStatus option" where
  "st k p = map_option task_status (tasks k p)"

definition kids :: "kernel \<Rightarrow> usize \<Rightarrow> usize list" where
  "kids k p = (case tasks k p of None \<Rightarrow> [] | Some t \<Rightarrow> children t)"

lemma st_put [simp]: "st (put_task p t k) = (st k)(p := Some (task_status t))"
  and kids_put [simp]: "kids (put_task p t k) = (kids k)(p := children t)"
  by (auto simp: st_def kids_def)

lemma st_fields [simp]:
  "st (k\<lparr>k_mach := m\<rparr>) = st k" "st (k\<lparr>k_store := s\<rparr>) = st k" "st (k\<lparr>k_ready := q\<rparr>) = st k"
  "st (k\<lparr>k_current := c\<rparr>) = st k" "st (k\<lparr>k_inodes := i\<rparr>) = st k" "st (k\<lparr>k_console := out\<rparr>) = st k"
  "st (k\<lparr>k_timer := tm\<rparr>) = st k" "st (k\<lparr>k_time := tm\<rparr>) = st k" "st (k\<lparr>k_pids := ps\<rparr>) = st k"
  "st (k\<lparr>k_space := sp\<rparr>) = st k" "st (k\<lparr>k_initproc := ip\<rparr>) = st k"
  and kids_fields [simp]:
  "kids (k\<lparr>k_mach := m\<rparr>) = kids k" "kids (k\<lparr>k_store := s\<rparr>) = kids k" "kids (k\<lparr>k_ready := q\<rparr>) = kids k"
  "kids (k\<lparr>k_current := c\<rparr>) = kids k" "kids (k\<lparr>k_inodes := i\<rparr>) = kids k" "kids (k\<lparr>k_console := out\<rparr>) = kids k"
  "kids (k\<lparr>k_timer := tm\<rparr>) = kids k" "kids (k\<lparr>k_time := tm\<rparr>) = kids k" "kids (k\<lparr>k_pids := ps\<rparr>) = kids k"
  "kids (k\<lparr>k_space := sp\<rparr>) = kids k" "kids (k\<lparr>k_initproc := ip\<rparr>) = kids k"
  by (simp_all add: st_def kids_def fun_eq_iff)

lemma st_task: "tasks k p = Some t \<Longrightarrow> st k p = Some (task_status t) \<and> kids k p = children t"
  by (simp add: st_def kids_def)

text \<open>
  \<open>queue_ok\<close>: the ready queue holds exactly the ready tasks, each once, and the processor's current
  task is the only running one. \<open>family_ok\<close>: a task is the child of at most one other task and
  listed there once, the initial process is nobody's child and never a zombie, zombies have no
  children. \<open>pids_ok\<close>: the live identifiers are those of the control blocks.
\<close>

definition queue_ok :: "kernel \<Rightarrow> bool" where
  "queue_ok k \<longleftrightarrow> distinct (k_ready k) \<and>
     (\<forall>p. p \<in> set (k_ready k) \<longleftrightarrow> st k p = Some Ready) \<and>
     (\<forall>p. k_current k = Some p \<longleftrightarrow> st k p = Some Running)"

definition family_ok :: "kernel \<Rightarrow> bool" where
  "family_ok k \<longleftrightarrow>
     (\<forall>p. distinct (kids k p) \<and> p \<notin> set (kids k p) \<and> (st k p = Some Zombie \<longrightarrow> kids k p = [])) \<and>
     (\<forall>p. \<forall>c \<in> set (kids k p). st k c \<noteq> None \<and> c \<noteq> k_initproc k) \<and>
     (\<forall>p q. p \<noteq> q \<longrightarrow> set (kids k p) \<inter> set (kids k q) = {}) \<and>
     st k (k_initproc k) \<noteq> None \<and> st k (k_initproc k) \<noteq> Some Zombie"

definition pids_ok :: "kernel \<Rightarrow> bool" where
  "pids_ok k \<longleftrightarrow> pid_inv (k_pids k) \<and> {p. st k p \<noteq> None} = pid_live (k_pids k)"

definition sched_inv :: "kernel \<Rightarrow> bool" where
  "sched_inv k \<longleftrightarrow> distinct (map fst (k_tasks k)) \<and> queue_ok k \<and> family_ok k \<and> pids_ok k"

lemmas sched_defs = sched_inv_def queue_ok_def family_ok_def pids_ok_def

text \<open>Operations that touch neither the queue nor the families.\<close>

definition same_tasks :: "kernel \<Rightarrow> kernel \<Rightarrow> bool" where
  "same_tasks k k' \<longleftrightarrow> map fst (k_tasks k') = map fst (k_tasks k) \<and> k_ready k' = k_ready k \<and>
     k_current k' = k_current k \<and> k_initproc k' = k_initproc k \<and> k_pids k' = k_pids k \<and>
     st k' = st k \<and> kids k' = kids k"

lemma same_tasks_refl [simp]: "same_tasks k k"
  by (simp add: same_tasks_def)

lemma same_tasks_trans [trans]: "same_tasks a b \<Longrightarrow> same_tasks b c \<Longrightarrow> same_tasks a c"
  by (simp add: same_tasks_def)

lemma same_tasks_fields [simp]:
  "same_tasks a (k\<lparr>k_mach := m\<rparr>) = same_tasks a k" "same_tasks a (k\<lparr>k_store := s\<rparr>) = same_tasks a k"
  "same_tasks a (k\<lparr>k_inodes := i\<rparr>) = same_tasks a k" "same_tasks a (k\<lparr>k_console := out\<rparr>) = same_tasks a k"
  "same_tasks a (k\<lparr>k_timer := tm\<rparr>) = same_tasks a k" "same_tasks a (k\<lparr>k_time := tm\<rparr>) = same_tasks a k"
  by (simp_all add: same_tasks_def)

lemma keys_put: "tasks k p \<noteq> None \<Longrightarrow> map fst (k_tasks (put_task p t k)) = map fst (k_tasks k)"
  by (auto simp: put_task_def update_keys tasks_def map_of_eq_None_iff)

lemma distinct_keys_put: "distinct (map fst (k_tasks k)) \<Longrightarrow> distinct (map fst (k_tasks (put_task p t k)))"
  by (simp add: put_task_def distinct_update)

lemma same_tasks_put [simp]:
  assumes "map_option task_status (tasks k p) = Some (task_status t)"
    and "map_option children (tasks k p) = Some (children t)"
  shows "same_tasks a (put_task p t k) \<longleftrightarrow> same_tasks a k"
proof -
  have "st k p = Some (task_status t)" "kids k p = children t" "tasks k p \<noteq> None"
    using assms by (auto simp: st_def kids_def)
  then show ?thesis using keys_put [of k p t] by (simp add: same_tasks_def fun_upd_idem)
qed

lemma same_tasks_inv: "same_tasks k k' \<Longrightarrow> sched_inv k \<Longrightarrow> sched_inv k'"
  by (simp add: sched_defs same_tasks_def)

section \<open>Preservation\<close>

lemma task_eq: "task k p = (case tasks k p of None \<Rightarrow> Inl Unwrap_None | Some t \<Rightarrow> Inr t)"
  by (simp add: task_def tasks_def runwrap_def)

lemma suspend_eq:
  "suspend_current_and_run_next r k =
     (case k_current k of None \<Rightarrow> Inl Unwrap_None
      | Some p \<Rightarrow> (case tasks k p of None \<Rightarrow> Inl Unwrap_None
          | Some t \<Rightarrow> Inr (add_task p (put_task p (t\<lparr>task_status := Ready, resume := r\<rparr>) (k\<lparr>k_current := None\<rparr>)))))"
  by (simp add: suspend_current_and_run_next_def take_current_task_def runwrap_def task_eq split: option.splits)

lemma inv_suspend:
  assumes inv: "sched_inv k" and ok: "suspend_current_and_run_next r k = Inr k'"
  shows "sched_inv k'" and "k_current k' = None"
proof -
  from ok obtain p t where p: "k_current k = Some p" "tasks k p = Some t"
    and k': "k' = add_task p (put_task p (t\<lparr>task_status := Ready, resume := r\<rparr>) (k\<lparr>k_current := None\<rparr>))"
    by (auto simp: suspend_eq split: option.splits)
  note s = st_task [OF p(2)]
  have st': "st k' = (st k)(p := Some Ready)" "kids k' = kids k"
    using s by (simp_all add: k' add_task_def fun_upd_idem)
  have run: "st k p = Some Running" and uniq: "\<And>q. st k q = Some Running \<Longrightarrow> q = p"
    using inv p(1) by (auto simp: sched_defs)
  have fields: "k_ready k' = k_ready k @ [p]" "k_current k' = None" "k_initproc k' = k_initproc k" "k_pids k' = k_pids k"
    by (simp_all add: k' add_task_def vec_push_def)
  have "distinct (map fst (k_tasks k'))"
    using inv distinct_keys_put [of "k\<lparr>k_current := None\<rparr>" p] by (simp add: k' add_task_def sched_inv_def)
  moreover have "queue_ok k'"
  proof -
    have q: "distinct (k_ready k)" "\<And>q. q \<in> set (k_ready k) \<longleftrightarrow> st k q = Some Ready"
      using inv by (simp_all add: sched_inv_def queue_ok_def)
    have "q \<in> set (k_ready k @ [p]) \<longleftrightarrow> ((st k)(p := Some Ready)) q = Some Ready" for q
      by (cases "q = p") (simp_all add: q(2))
    moreover have "((st k)(p := Some Ready)) q \<noteq> Some Running" for q
      using uniq [of q] by (cases "q = p") auto
    ultimately show ?thesis using q run unfolding queue_ok_def fields st' by simp
  qed
  moreover have "family_ok k'"
  proof -
    have "family_ok k" using inv by (simp add: sched_inv_def)
    then show ?thesis using run unfolding family_ok_def fields st' by simp
  qed
  moreover have "pids_ok k'"
  proof -
    have "{q. st k' q \<noteq> None} = {q. st k q \<noteq> None}" using run by (auto simp: st')
    then show ?thesis using inv by (simp add: sched_inv_def pids_ok_def fields)
  qed
  ultimately show "sched_inv k'" by (simp add: sched_inv_def)
  show "k_current k' = None" by (rule fields)
qed


lemma round_eq:
  "run_tasks_round k =
     (case k_ready k of [] \<Rightarrow> Inr (None, k)
      | p # ps \<Rightarrow> (case tasks k p of None \<Rightarrow> Inl Unwrap_None
          | Some t \<Rightarrow> Inr (Some p, (put_task p (t\<lparr>task_status := Running\<rparr>) (k\<lparr>k_ready := ps\<rparr>))\<lparr>k_current := Some p\<rparr>)))"
  by (simp add: run_tasks_round_def fetch_task_def task_eq split: option.splits list.splits)

lemma inv_round:
  assumes inv: "sched_inv k" and idle: "k_current k = None" and ok: "run_tasks_round k = Inr (Some p, k')"
  shows "sched_inv k'" and "k_current k' = Some p" and "k_ready k = p # k_ready k'"
proof -
  from ok obtain ps t where p: "k_ready k = p # ps" "tasks k p = Some t"
    and k': "k' = (put_task p (t\<lparr>task_status := Running\<rparr>) (k\<lparr>k_ready := ps\<rparr>))\<lparr>k_current := Some p\<rparr>"
    by (auto simp: round_eq split: option.splits list.splits)
  have st': "st k' = (st k)(p := Some Running)" "kids k' = kids k"
    using st_task [OF p(2)] by (simp_all add: k' fun_upd_idem)
  have q: "distinct (p # ps)" "\<And>q. q \<in> set (p # ps) \<longleftrightarrow> st k q = Some Ready" "\<And>q. st k q \<noteq> Some Running"
    using inv idle by (simp_all add: sched_inv_def queue_ok_def p(1))
  have run: "st k p = Some Ready" using q(2) [of p] by simp
  have fields: "k_ready k' = ps" "k_current k' = Some p" "k_initproc k' = k_initproc k" "k_pids k' = k_pids k"
    by (simp_all add: k')
  have "queue_ok k'"
  proof -
    have "r \<in> set ps \<longleftrightarrow> ((st k)(p := Some Running)) r = Some Ready" for r
      using q(1) q(2) [of r] by (cases "r = p") auto
    moreover have "Some p = Some r \<longleftrightarrow> ((st k)(p := Some Running)) r = Some Running" for r
      using q(3) [of r] by (cases "r = p") auto
    ultimately show ?thesis using q(1) unfolding queue_ok_def fields st' by simp
  qed
  moreover have "family_ok k'"
  proof -
    have "family_ok k" using inv by (simp add: sched_inv_def)
    then show ?thesis using run unfolding family_ok_def fields st' by simp
  qed
  moreover have "{q. st k' q \<noteq> None} = {q. st k q \<noteq> None}" using run by (auto simp: st')
  then have "pids_ok k'" using inv by (simp add: sched_inv_def pids_ok_def fields)
  moreover have "distinct (map fst (k_tasks k'))"
    using inv distinct_keys_put [of "k\<lparr>k_ready := ps\<rparr>" p] by (simp add: k' sched_inv_def)
  ultimately show "sched_inv k'" by (simp add: sched_inv_def)
  show "k_current k' = Some p" by (rule fields)
  show "k_ready k = p # k_ready k'" by (simp add: p(1) fields)
qed

lemma borrow_mut_Inr: "borrow_mut b p = Inr b' \<longleftrightarrow> p \<notin> b \<and> b' = insert p b"
  by (auto simp: borrow_mut_def)

lemma borrow_mut_free [simp]: "p \<notin> b \<Longrightarrow> borrow_mut b p = Inr (insert p b)"
  by (simp add: borrow_mut_def)

lemma reparent_fold:
  assumes "rfold (reparent b ip) cs k = Inr k'" and "distinct (map fst (k_tasks k))"
  shows "st k' = st k \<and> kids k' = (kids k)(ip := kids k ip @ cs) \<and> k_ready k' = k_ready k \<and>
    k_current k' = k_current k \<and> k_initproc k' = k_initproc k \<and> k_pids k' = k_pids k \<and>
    distinct (map fst (k_tasks k'))"
  using assms
proof (induction cs arbitrary: k)
  case Nil
  then show ?case by simp
next
  case (Cons c cs)
  from Cons.prems(1) obtain k1 where k1: "reparent b ip c k = Inr k1" "rfold (reparent b ip) cs k1 = Inr k'"
    by (auto elim: rbind_eq_InrE)
  from k1(1) obtain ct it where ct: "tasks k c = Some ct"
    and it: "tasks (put_task c (ct\<lparr>parent := Some ip\<rparr>) k) ip = Some it"
    and k1': "k1 = put_task ip (it\<lparr>children := vec_push (children it) c\<rparr>) (put_task c (ct\<lparr>parent := Some ip\<rparr>) k)"
    by (auto simp: reparent_def task_Inr Let_def elim!: rbind_eq_InrE)
  let ?k = "put_task c (ct\<lparr>parent := Some ip\<rparr>) k"
  have 0: "st ?k = st k" "kids ?k = kids k" using st_task [OF ct] by (simp_all add: fun_upd_idem)
  have 1: "st k ip = Some (task_status it)" "kids k ip = children it"
    using st_task [OF it] unfolding 0 by blast+
  have "st k1 = (st ?k)(ip \<mapsto> task_status it)" "kids k1 = (kids ?k)(ip := children it @ [c])"
    by (simp_all add: k1' vec_push_def)
  then have "st k1 = st k" "kids k1 = (kids k)(ip := kids k ip @ [c])"
    unfolding 0 by (simp_all add: 1 fun_upd_idem)
  moreover have "distinct (map fst (k_tasks k1))" unfolding k1' by (intro distinct_keys_put Cons.prems(2))
  moreover have "k_ready k1 = k_ready k" "k_current k1 = k_current k" "k_initproc k1 = k_initproc k" "k_pids k1 = k_pids k"
    by (simp_all add: k1')
  ultimately show ?case using Cons.IH [OF k1(2)] by (simp add: fun_upd_def fun_eq_iff)
qed


text \<open>The fields of a control block that the invariant leaves open.\<close>

definition par :: "kernel \<Rightarrow> usize \<Rightarrow> usize option option" where
  "par k p = map_option parent (tasks k p)"

definition xcode :: "kernel \<Rightarrow> usize \<Rightarrow> 32 word option" where
  "xcode k p = map_option exit_code (tasks k p)"

lemma reparent_fields:
  assumes "rfold (reparent b ip) cs k = Inr k'"
  shows "xcode k' = xcode k \<and> par k' = (\<lambda>q. if q \<in> set cs then Some (Some ip) else par k q)"
  using assms
proof (induction cs arbitrary: k)
  case Nil
  then show ?case by simp
next
  case (Cons c cs)
  from Cons.prems obtain k1 where k1: "reparent b ip c k = Inr k1" "rfold (reparent b ip) cs k1 = Inr k'"
    by (auto elim: rbind_eq_InrE)
  from k1(1) obtain ct it where ct: "tasks k c = Some ct"
    and it: "tasks (put_task c (ct\<lparr>parent := Some ip\<rparr>) k) ip = Some it"
    and k1': "k1 = put_task ip (it\<lparr>children := vec_push (children it) c\<rparr>) (put_task c (ct\<lparr>parent := Some ip\<rparr>) k)"
    by (auto simp: reparent_def task_Inr Let_def elim!: rbind_eq_InrE)
  have "xcode k1 = xcode k" "par k1 = (par k)(c := Some (Some ip))"
    using ct it by (auto simp: k1' xcode_def par_def fun_eq_iff split: if_splits)
  then show ?case using Cons.IH [OF k1(2)] by auto
qed

text \<open>It panics only when a child is borrowed, so never on the children of another live task.\<close>

lemma reparent_total:
  assumes "set cs \<inter> b = {}" and "\<forall>c \<in> set cs. tasks k c \<noteq> None" and "tasks k ip \<noteq> None"
  shows "\<exists>k'. rfold (reparent b ip) cs k = Inr k' \<and> (\<forall>q. tasks k q \<noteq> None \<longrightarrow> tasks k' q \<noteq> None)"
  using assms
proof (induction cs arbitrary: k)
  case Nil
  then show ?case by simp
next
  case (Cons c cs)
  then obtain ct where ct: "tasks k c = Some ct" by auto
  let ?k = "put_task c (ct\<lparr>parent := Some ip\<rparr>) k"
  obtain it where it: "tasks ?k ip = Some it" using Cons.prems(3) by (cases "ip = c") auto
  let ?k1 = "put_task ip (it\<lparr>children := vec_push (children it) c\<rparr>) ?k"
  have "reparent b ip c k = Inr ?k1" using Cons.prems(1) it by (simp add: reparent_def task_eq ct)
  moreover have "\<exists>k'. rfold (reparent b ip) cs ?k1 = Inr k' \<and> (\<forall>q. tasks ?k1 q \<noteq> None \<longrightarrow> tasks k' q \<noteq> None)"
    using Cons.prems by (intro Cons.IH) auto
  ultimately show ?case by auto
qed

lemma current_running:
  assumes "sched_inv k" and "k_current k = Some p"
  shows "st k p = Some Running"
proof -
  have "\<forall>p. k_current k = Some p \<longleftrightarrow> st k p = Some Running" using assms(1) by (simp add: sched_inv_def queue_ok_def)
  then show ?thesis using assms(2) by blast
qed

text \<open>Exit: the children move to the initial process and the task becomes a zombie.\<close>

lemma exit_facts:
  assumes inv: "sched_inv k" and ok: "exit_current_and_run_next code k = Inr k'"
  obtains p where "k_current k = Some p" "p \<noteq> k_initproc k" "st k' = (st k)(p := Some Zombie)"
    "kids k' = (kids k)(k_initproc k := kids k (k_initproc k) @ kids k p, p := [])"
    "k_ready k' = k_ready k" "k_current k' = None" "k_initproc k' = k_initproc k" "k_pids k' = k_pids k"
    "distinct (map fst (k_tasks k'))" "xcode k' = (xcode k)(p := Some code)"
    "par k' = (\<lambda>q. if q \<in> set (kids k p) then Some (Some (k_initproc k)) else par k q)"
proof -
  from ok obtain p t where p: "k_current k = Some p" "tasks k p = Some t" "p \<noteq> k_initproc k"
    and 1: "rbind (rfold (reparent {k_initproc k, p} (k_initproc k)) (children t)
       (put_task p (t\<lparr>task_status := Zombie, exit_code := code\<rparr>) (k\<lparr>k_current := None\<rparr>))) (\<lambda>k.
                 rbind (task k p) (\<lambda>t.
                 rbind (recycle_data_pages (memory_set t, k_mach k)) (\<lambda>(ms, m).
                 Inr (put_task p (t\<lparr>children := [], memory_set := ms\<rparr>) (k\<lparr>k_mach := m\<rparr>))))) = Inr k'"
    by (auto simp: exit_current_and_run_next_def take_current_task_def task_eq runwrap_def Let_def
        borrow_mut_def split: option.splits if_splits)
  let ?k = "put_task p (t\<lparr>task_status := Zombie, exit_code := code\<rparr>) (k\<lparr>k_current := None\<rparr>)"
  from 1 obtain k1 u ms m where k1: "rfold (reparent {k_initproc k, p} (k_initproc k)) (children t) ?k = Inr k1"
    and u: "tasks k1 p = Some u" and k': "k' = put_task p (u\<lparr>children := [], memory_set := ms\<rparr>) (k1\<lparr>k_mach := m\<rparr>)"
    by (auto simp: task_Inr elim!: rbind_eq_InrE)
  have "distinct (map fst (k_tasks ?k))" using inv by (intro distinct_keys_put) (simp add: sched_inv_def)
  note r = reparent_fold [OF k1 this]
  have st1: "st k1 = (st k)(p := Some Zombie)" using r by simp
  have kids1: "kids k1 = (kids k)(k_initproc k := kids k (k_initproc k) @ kids k p)"
    using r st_task [OF p(2)] p(3) by (auto simp: fun_eq_iff)
  have "task_status u = Zombie" using st_task [OF u] by (simp add: st1)
  then have "st k' = (st k)(p := Some Zombie)" by (simp add: k' st1)
  moreover have "kids k' = (kids k)(k_initproc k := kids k (k_initproc k) @ kids k p, p := [])"
    by (simp add: k' kids1)
  moreover have "distinct (map fst (k_tasks k'))" unfolding k' using r by (intro distinct_keys_put) simp
  moreover have "xcode ?k = (xcode k)(p := Some code)" "par ?k = par k"
    using p(2) by (auto simp: xcode_def par_def fun_eq_iff)
  then have "xcode k1 = (xcode k)(p := Some code)"
    "par k1 = (\<lambda>q. if q \<in> set (kids k p) then Some (Some (k_initproc k)) else par k q)"
    using reparent_fields [OF k1] st_task [OF p(2)] by (simp_all only: simp_thms)
  moreover have "xcode k' = xcode k1" "par k' = par k1" using u by (auto simp: k' xcode_def par_def fun_eq_iff)
  ultimately show ?thesis using p r that [of p] by (simp add: k')
qed

text \<open>The only borrow that can fail is that of the initial process by itself.\<close>

lemma rfold_error:
  assumes "\<And>x s e. f x s = Inl e \<Longrightarrow> e = e0" and "rfold f xs s = Inl e"
  shows "e = e0"
  using assms(2) by (induction xs arbitrary: s) (auto dest: assms(1) elim!: rbind_eq_InlE)

lemma recycle_error:
  assumes "recycle_data_pages (ms, m) = Inl e"
  shows "e = Explicit_Panic"
proof -
  have fd: "frame_dealloc p m = Inl e \<Longrightarrow> e = Explicit_Panic" for p m e
    by (auto simp: frame_dealloc_def sfa_dealloc_def Let_def elim!: rbind_eq_InlE split: if_splits)
  have "area_drop a m = Inl e \<Longrightarrow> e = Explicit_Panic" for a m e
    unfolding area_drop_def drop_all_def by (rule rfold_error [OF fd])
  then have "rfold area_drop (areas ms) m = Inl e \<Longrightarrow> e = Explicit_Panic" by (rule rfold_error)
  then show ?thesis using assms by (auto simp: recycle_data_pages_def elim!: rbind_eq_InlE)
qed

lemma exit_error:
  assumes inv: "sched_inv k" and p: "k_current k = Some p"
  shows "p = k_initproc k \<Longrightarrow> exit_current_and_run_next code k = Inl Already_Borrowed"
    and "p \<noteq> k_initproc k \<Longrightarrow> exit_current_and_run_next code k = Inl e \<Longrightarrow> e = Explicit_Panic"
proof -
  obtain t where t: "tasks k p = Some t" using current_running [OF inv p] by (auto simp: st_def)
  note unf = exit_current_and_run_next_def take_current_task_def runwrap_def task_eq p t Let_def borrow_mut_def
  show "p = k_initproc k \<Longrightarrow> exit_current_and_run_next code k = Inl Already_Borrowed"
    using p t by (simp add: exit_current_and_run_next_def take_current_task_def runwrap_def task_eq Let_def borrow_mut_def)
  assume ne: "p \<noteq> k_initproc k" and e: "exit_current_and_run_next code k = Inl e"
  let ?k = "put_task p (t\<lparr>task_status := Zombie, exit_code := code\<rparr>) (k\<lparr>k_current := None\<rparr>)"
  have kp: "kids k p = children t" using st_task [OF t] by simp
  have fam: "family_ok k" using inv by (simp add: sched_inv_def)
  have "p \<notin> set (kids k p)" using fam unfolding family_ok_def by blast
  moreover have "st k c \<noteq> None \<and> c \<noteq> k_initproc k" if "c \<in> set (kids k p)" for c
    using fam that unfolding family_ok_def by blast
  ultimately have c: "set (children t) \<inter> {k_initproc k, p} = {}" "\<forall>c \<in> set (children t). tasks ?k c \<noteq> None"
    by (auto simp: kp st_def)
  have "tasks ?k (k_initproc k) \<noteq> None" using fam by (auto simp: family_ok_def st_def)
  from reparent_total [OF c this] obtain k1 where
    k1: "rfold (reparent {k_initproc k, p} (k_initproc k)) (children t) ?k = Inr k1" "tasks k1 p \<noteq> None" by auto
  then obtain u where "tasks k1 p = Some u" by auto
  then show "e = Explicit_Panic" using e ne k1(1)
    by (auto simp: unf elim!: rbind_eq_InlE dest: recycle_error)
qed

lemma inv_exit:
  assumes inv: "sched_inv k" and ok: "exit_current_and_run_next code k = Inr k'"
  shows "sched_inv k'" and "k_current k' = None"
proof -
  obtain p where p: "k_current k = Some p" "p \<noteq> k_initproc k" and st': "st k' = (st k)(p := Some Zombie)"
    and kids': "kids k' = (kids k)(k_initproc k := kids k (k_initproc k) @ kids k p, p := [])"
    and fields: "k_ready k' = k_ready k" "k_current k' = None" "k_initproc k' = k_initproc k" "k_pids k' = k_pids k"
    and keys: "distinct (map fst (k_tasks k'))"
    by (rule exit_facts [OF inv ok])
  have run: "st k p = Some Running" by (rule current_running [OF inv p(1)])
  have qo: "queue_ok k" and fam: "family_ok k" using inv by (simp_all add: sched_inv_def)
  have "queue_ok k'"
  proof -
    have "r \<in> set (k_ready k) \<longleftrightarrow> ((st k)(p := Some Zombie)) r = Some Ready" for r
      using qo run by (cases "r = p") (simp_all add: queue_ok_def)
    moreover have "((st k)(p := Some Zombie)) r \<noteq> Some Running" for r
      using qo p(1) by (cases "r = p") (auto simp: queue_ok_def)
    ultimately show ?thesis using qo unfolding queue_ok_def fields st' by simp
  qed
  moreover have "family_ok k'"
  proof -
    let ?i = "k_initproc k"
    have f1: "distinct (kids k q)" "q \<notin> set (kids k q)" "st k q = Some Zombie \<Longrightarrow> kids k q = []"
      and f2: "c \<in> set (kids k q) \<Longrightarrow> st k c \<noteq> None \<and> c \<noteq> ?i"
      and f3: "q \<noteq> r \<Longrightarrow> set (kids k q) \<inter> set (kids k r) = {}" for q r c
      using fam by (simp_all add: family_ok_def)
    have f4: "st k ?i \<noteq> None" "st k ?i \<noteq> Some Zombie" using fam by (simp_all add: family_ok_def)
    have "distinct (kids k' q)" for q using f1(1) f3 [of ?i p] p(2) by (simp add: kids')
    moreover have "q \<notin> set (kids k' q)" for q using f1(2) f2 [of ?i p] by (auto simp: kids')
    moreover have "st k' q = Some Zombie \<longrightarrow> kids k' q = []" for q using f1(3) [of q] f4 by (auto simp: kids' st')
    moreover have "c \<in> set (kids k' q) \<Longrightarrow> st k' c \<noteq> None \<and> c \<noteq> ?i" for c q
      using f2 [of c q] f2 [of c p] f2 [of c ?i] by (auto simp: kids' st' split: if_splits)
    moreover have "set (kids k' q) \<inter> set (kids k' r) = {}" if "q \<noteq> r" for q r
      using f3 [of q r] f3 [of p r] f3 [of p q] that unfolding kids' by (auto split: if_splits)
    moreover have "st k' ?i \<noteq> None" "st k' ?i \<noteq> Some Zombie" using f4 p(2) by (simp_all add: st')
    ultimately show ?thesis unfolding family_ok_def fields by blast
  qed
  moreover have "{q. st k' q \<noteq> None} = {q. st k q \<noteq> None}" using run by (auto simp: st')
  then have "pids_ok k'" using inv by (simp add: sched_inv_def pids_ok_def fields)
  ultimately show "sched_inv k'" using keys by (simp add: sched_inv_def)
  show "k_current k' = None" by (rule fields)
qed


text \<open>Fork: the new identifier is not in use, its task is a ready child of the caller.\<close>

lemma task_fork_facts:
  assumes "task_fork env p k = Inr (c, k')"
  obtains t u pids where "tasks k p = Some t" "pid_alloc (k_pids k) = (c, pids)" "task_status u = Ready" "children u = []"
    "k_tasks k' = AList.update p (t\<lparr>children := vec_push (children t) c\<rparr>) (AList.update c u (k_tasks k))"
    "k_ready k' = k_ready k" "k_current k' = k_current k" "k_initproc k' = k_initproc k" "k_pids k' = pids"
proof -
  from assms obtain t ms m cx k1 m' where t: "tasks k p = Some t"
    and k1: "alloc_pid_and_stack (k\<lparr>k_mach := m\<rparr>) = Inr (c, k1)"
    and k': "k' = (put_task p (t\<lparr>children := vec_push (children t) c\<rparr>) (put_task c
      \<lparr>trap_cx_ppn = cx, base_size = base_size t,
              task_cx = goto_trap_return (e_trap_return env) (KernelStack_get_top c), task_status = Ready,
              memory_set = ms, parent = Some p, children = [], exit_code = 0,
              fd_table = map (\<lambda>fd. case fd of Some f \<Rightarrow> Some f | None \<Rightarrow> None) (fd_table t),
              resume = Resume_trap_return\<rparr> k1))\<lparr>k_mach := m'\<rparr>"
    by (auto simp: task_fork_def task_Inr Let_def elim!: rbind_eq_InrE)
  from k1 obtain pids sp m where "pid_alloc (k_pids k) = (c, pids)" "k1 = k\<lparr>k_pids := pids, k_space := sp, k_mach := m\<rparr>"
    by (auto simp: alloc_pid_and_stack_def elim!: rbind_eq_InrE split: prod.splits)
  with t k' show ?thesis by (auto simp: put_task_def intro!: that)
qed

lemma fork_facts:
  assumes inv: "sched_inv k" and room: "pid_room (k_pids k)" and ok: "sys_fork env k = Inr (c, k')"
  obtains p where "k_current k = Some p" "c \<noteq> p" "st k c = None" "st k' = (st k)(c := Some Ready)"
    "kids k' = (kids k)(p := kids k p @ [c], c := [])" "k_ready k' = k_ready k @ [c]" "k_current k' = k_current k"
    "k_initproc k' = k_initproc k" "pid_inv (k_pids k')" "pid_live (k_pids k') = insert c (pid_live (k_pids k))"
    "distinct (map fst (k_tasks k'))"
proof -
  from ok obtain p k1 m where p: "k_current k = Some p" "task_fork env p k = Inr (c, k1)"
    and k': "k' = add_task c (k1\<lparr>k_mach := m\<rparr>)"
    by (auto simp: sys_fork_def current_task_def runwrap_def Let_def elim!: rbind_eq_InrE split: option.splits)
  obtain t u pids where t: "tasks k p = Some t" and al: "pid_alloc (k_pids k) = (c, pids)"
    and u: "task_status u = Ready" "children u = []"
    and k1: "k_tasks k1 = AList.update p (t\<lparr>children := vec_push (children t) c\<rparr>) (AList.update c u (k_tasks k))"
    and fields: "k_ready k1 = k_ready k" "k_current k1 = k_current k" "k_initproc k1 = k_initproc k" "k_pids k1 = pids"
    by (rule task_fork_facts [OF p(2)])
  have pi: "pid_inv (k_pids k)" "{q. st k q \<noteq> None} = pid_live (k_pids k)"
    using inv by (simp_all add: sched_inv_def pids_ok_def)
  note al' = pid_alloc_live [OF pi(1) room al]
  have fresh: "st k c = None" using al'(1) pi(2) by blast
  then have cp: "c \<noteq> p" using st_task [OF t] by auto
  have tk: "tasks k' = (tasks k)(c := Some u, p := Some (t\<lparr>children := vec_push (children t) c\<rparr>))"
    by (simp add: tasks_def k' add_task_def k1 update_conv')
  have "st k' = (st k)(c := Some Ready)" "kids k' = (kids k)(p := kids k p @ [c], c := [])"
    using t u cp by (auto simp: st_def kids_def tk fun_eq_iff vec_push_def)
  moreover have "distinct (map fst (k_tasks k'))"
    using inv by (simp add: k' add_task_def k1 distinct_update sched_inv_def)
  ultimately show ?thesis using p(1) cp fresh al'(2,3) that [of p]
    by (simp add: k' add_task_def fields vec_push_def)
qed

lemma inv_fork:
  assumes inv: "sched_inv k" and room: "pid_room (k_pids k)" and ok: "sys_fork env k = Inr (c, k')"
  shows "sched_inv k'" and "k_current k' = k_current k"
proof -
  obtain p where p: "k_current k = Some p" and c: "c \<noteq> p" "st k c = None"
    and st': "st k' = (st k)(c := Some Ready)" and kids': "kids k' = (kids k)(p := kids k p @ [c], c := [])"
    and fields: "k_ready k' = k_ready k @ [c]" "k_current k' = k_current k" "k_initproc k' = k_initproc k"
    and pids': "pid_inv (k_pids k')" "pid_live (k_pids k') = insert c (pid_live (k_pids k))"
    and keys: "distinct (map fst (k_tasks k'))"
    by (rule fork_facts [OF inv room ok])
  have qo: "queue_ok k" and fam: "family_ok k" using inv by (simp_all add: sched_inv_def)
  have run: "st k p = Some Running" by (rule current_running [OF inv p])
  have "queue_ok k'"
  proof -
    have "c \<notin> set (k_ready k)" using qo c(2) by (simp add: queue_ok_def)
    moreover have "r \<in> set (k_ready k @ [c]) \<longleftrightarrow> ((st k)(c := Some Ready)) r = Some Ready" for r
      using qo by (cases "r = c") (simp_all add: queue_ok_def)
    moreover have "k_current k = Some r \<longleftrightarrow> ((st k)(c := Some Ready)) r = Some Running" for r
      using qo p c(1) by (cases "r = c") (auto simp: queue_ok_def)
    ultimately show ?thesis using qo unfolding queue_ok_def fields st' by simp
  qed
  moreover have "family_ok k'"
  proof -
    let ?i = "k_initproc k"
    have f1: "distinct (kids k q)" "q \<notin> set (kids k q)" "st k q = Some Zombie \<Longrightarrow> kids k q = []"
      and f2: "b \<in> set (kids k q) \<Longrightarrow> st k b \<noteq> None \<and> b \<noteq> ?i"
      and f3: "q \<noteq> r \<Longrightarrow> set (kids k q) \<inter> set (kids k r) = {}" for q r b
      using fam by (simp_all add: family_ok_def)
    have f4: "st k ?i \<noteq> None" "st k ?i \<noteq> Some Zombie" using fam by (simp_all add: family_ok_def)
    have new: "c \<notin> set (kids k q)" for q using f2 [of c q] c(2) by auto
    have "distinct (kids k' q)" for q using f1(1) new by (simp add: kids')
    moreover have "q \<notin> set (kids k' q)" for q using f1(2) c(1) by (simp add: kids')
    moreover have "st k' q = Some Zombie \<longrightarrow> kids k' q = []" for q using f1(3) [of q] run by (simp add: kids' st')
    moreover have "b \<in> set (kids k' q) \<Longrightarrow> st k' b \<noteq> None \<and> b \<noteq> ?i" for b q
      using f2 [of b q] f2 [of b p] f4(1) c(2) by (auto simp: kids' st' split: if_splits)
    moreover have "set (kids k' q) \<inter> set (kids k' r) = {}" if "q \<noteq> r" for q r
      using f3 [of q r] new that unfolding kids' by (auto split: if_splits)
    moreover have "st k' ?i \<noteq> None" "st k' ?i \<noteq> Some Zombie" using f4 by (simp_all add: st')
    ultimately show ?thesis unfolding family_ok_def fields by blast
  qed
  moreover have "{q. st k' q \<noteq> None} = insert c {q. st k q \<noteq> None}" by (auto simp: st')
  then have "pids_ok k'" using inv pids' by (simp add: sched_inv_def pids_ok_def)
  ultimately show "sched_inv k'" using keys by (simp add: sched_inv_def)
  show "k_current k' = k_current k" by (rule fields)
qed


text \<open>Waiting: the reaped child is referred to from nowhere else.\<close>

lemma strong_refs_0:
  assumes "distinct (map fst (k_tasks k))" and "\<And>q. c \<notin> set (kids k q)"
    and "c \<notin> set (k_ready k)" and "k_current k \<noteq> Some c" and "k_initproc k \<noteq> c"
  shows "strong_refs c k = 0"
proof -
  have "filter (\<lambda>d. d = c) (children t) = []" if "(q, t) \<in> set (k_tasks k)" for q t
  proof -
    have "tasks k q = Some t" using that assms(1) by (simp add: tasks_def)
    then show ?thesis using assms(2) [of q] by (auto simp: kids_def filter_empty_conv)
  qed
  moreover have "filter (\<lambda>d. d = c) (k_ready k) = []" using assms(3) by (auto simp: filter_empty_conv)
  ultimately show ?thesis using assms(4,5) by (auto simp: strong_refs_def)
qed

lemma vec_remove_props:
  assumes "distinct xs" and "i < length xs"
  shows "set (vec_remove i xs) = set xs - {xs ! i}" and "distinct (vec_remove i xs)"
proof -
  obtain ys zs where xs: "xs = ys @ xs ! i # zs" and w: "vec_remove i xs = ys @ zs"
    using vec_remove_split [OF assms(2)] by blast
  have d: "distinct (ys @ xs ! i # zs)" "set xs = set (ys @ xs ! i # zs)" using assms(1) xs by simp_all
  show "set (vec_remove i xs) = set xs - {xs ! i}" unfolding w d(2) using d(1) by auto
  show "distinct (vec_remove i xs)" unfolding w using d(1) by simp
qed

text \<open>The child a wait reaps: the first one that matches and is a zombie.\<close>

definition reaped :: "usize \<Rightarrow> kernel \<Rightarrow> usize \<Rightarrow> nat option" where
  "reaped pid k p = find_index (\<lambda>c. is_zombie_task k c \<and> pid_matches pid c) (kids k p)"

lemma is_zombie_st: "is_zombie_task k c \<longleftrightarrow> st k c = Some Zombie"
  by (simp add: is_zombie_task_def st_def tasks_def is_zombie_def split: option.splits)

lemma refs_after_removal:
  assumes inv: "sched_inv k" and t: "tasks k p = Some t" and i: "i < length (children t)"
    and z: "st k (children t ! i) = Some Zombie"
  shows "strong_refs (children t ! i) (put_task p (t\<lparr>children := vec_remove i (children t)\<rparr>) k) = 0"
proof (rule strong_refs_0)
  let ?c = "children t ! i" and ?k = "put_task p (t\<lparr>children := vec_remove i (children t)\<rparr>) k"
  have fam: "family_ok k" and qo: "queue_ok k" and kd: "distinct (map fst (k_tasks k))"
    using inv by (simp_all add: sched_inv_def)
  have kp: "kids k p = children t" using st_task [OF t] by simp
  have cp: "?c \<in> set (kids k p)" using i by (simp add: kp)
  have d: "distinct (children t)" using fam kp by (metis family_ok_def)
  show "distinct (map fst (k_tasks ?k))" by (intro distinct_keys_put kd)
  show "?c \<notin> set (kids ?k q)" for q
  proof (cases "q = p")
    case True
    then show ?thesis using vec_remove_props [OF d i] by simp
  next
    case False
    then have "set (kids k p) \<inter> set (kids k q) = {}" using fam by (simp add: family_ok_def)
    then show ?thesis using cp False by auto
  qed
  have "?c \<in> set (k_ready k) \<longleftrightarrow> st k ?c = Some Ready" "k_current k = Some ?c \<longleftrightarrow> st k ?c = Some Running"
    using qo by (simp_all add: queue_ok_def)
  then show "?c \<notin> set (k_ready ?k)" "k_current ?k \<noteq> Some ?c" using z by simp_all
  have "?c \<noteq> k_initproc k" using fam cp unfolding family_ok_def by blast
  then show "k_initproc ?k \<noteq> ?c" by auto
qed

lemma find_zombie_eq:
  "b \<inter> set cs = {} \<Longrightarrow> find_zombie b k pid i cs =
     Inr (map_option (\<lambda>j. i + j) (find_index (\<lambda>c. is_zombie_task k c \<and> pid_matches pid c) cs))"
  by (induction cs arbitrary: i) (auto simp: option.map_comp comp_def intro: option.map_cong)

lemma waitpid_eq:
  assumes inv: "sched_inv k" and cur: "k_current k = Some p" and t: "tasks k p = Some t"
  shows "sys_waitpid pid ptr k =
     (if \<forall>c \<in> set (kids k p). \<not> pid_matches pid c then Inr (- 1, k)
      else case reaped pid k p of
        None \<Rightarrow> Inr (- 2, k)
      | Some i \<Rightarrow>
          rbind (task k (kids k p ! i)) (\<lambda>c.
          rbind (translated_refmut (k_mach k) (get_user_token t) ptr) (\<lambda>pa.
          rbind (drop_task (kids k p ! i)
              ((put_task p (t\<lparr>children := vec_remove i (kids k p)\<rparr>) k)
               \<lparr>k_mach := write_phys pa (le_bytes 4 (unat (exit_code c))) (k_mach k)\<rparr>)) (\<lambda>k'.
          Inr (kids k p ! i, k')))))"
proof -
  have kp: "kids k p = children t" using st_task [OF t] by simp
  have no_self: "p \<notin> set (children t)" using inv kp unfolding sched_inv_def family_ok_def by metis
  then have fz: "find_zombie {p} k pid 0 (children t) = Inr (reaped pid k p)"
    by (simp add: find_zombie_eq reaped_def kp option.map_ident)
  show ?thesis
  proof (cases "(\<forall>c \<in> set (kids k p). \<not> pid_matches pid c) \<or> reaped pid k p = None")
    case True
    then show ?thesis
      by (auto simp: sys_waitpid_def current_task_def runwrap_def cur task_eq t kp fz list_ex_iff)
  next
    case False
    then obtain i where i: "reaped pid k p = Some i" by auto
    have i': "i < length (children t)" "st k (children t ! i) = Some Zombie"
      using i by (simp_all add: reaped_def kp find_index_Some is_zombie_st)
    have ne: "children t ! i \<noteq> p" using no_self i'(1) nth_mem by blast
    have ex: "list_ex (pid_matches pid) (children t)" using False kp by (auto simp: list_ex_iff)
    show ?thesis using False i ex ne refs_after_removal [OF inv t i'(1,2)]
      by (simp add: sys_waitpid_def current_task_def runwrap_def cur task_eq t kp fz Let_def
          rassert_def) blast
  qed
qed


lemma drop_task_facts:
  assumes "drop_task c k = Inr k'"
  obtains pids where "pid_dealloc c (k_pids k) = Inr pids" "k_tasks k' = AList.delete c (k_tasks k)"
    "k_pids k' = pids" "k_ready k' = k_ready k" "k_current k' = k_current k" "k_initproc k' = k_initproc k"
  using assms by (auto simp: drop_task_def elim!: rbind_eq_InrE)

lemma waitpid_facts:
  assumes inv: "sched_inv k" and ok: "sys_waitpid pid ptr k = Inr (r, k')"
  obtains (none) "k' = k" "r = - 1 \<or> r = - 2"
  | (child) p i where "k_current k = Some p" "i < length (kids k p)" "r = kids k p ! i" "st k r = Some Zombie"
      "pid_matches pid r" "st k' = (st k)(r := None)" "kids k' = (kids k)(p := vec_remove i (kids k p))"
      "k_ready k' = k_ready k" "k_current k' = k_current k" "k_initproc k' = k_initproc k"
      "pid_dealloc r (k_pids k) = Inr (k_pids k')" "distinct (map fst (k_tasks k'))"
proof -
  from ok obtain p t where p: "k_current k = Some p" "tasks k p = Some t"
    by (auto simp: sys_waitpid_def current_task_def runwrap_def task_Inr elim!: rbind_eq_InrE split: option.splits)
  note eq = waitpid_eq [OF inv p, of pid ptr]
  show ?thesis
  proof (cases "(\<forall>c \<in> set (kids k p). \<not> pid_matches pid c) \<or> reaped pid k p = None")
    case True
    then show ?thesis using ok none unfolding eq by (auto split: if_splits)
  next
    case False
    then obtain i where i: "reaped pid k p = Some i" by auto
    let ?k = "put_task p (t\<lparr>children := vec_remove i (kids k p)\<rparr>) k"
    from ok False i obtain m where r: "r = kids k p ! i"
      and d: "drop_task r (?k\<lparr>k_mach := m\<rparr>) = Inr k'"
      unfolding eq by (auto elim!: rbind_eq_InrE split: if_splits)
    have i': "i < length (kids k p)" "st k r = Some Zombie" "pid_matches pid r"
      using i by (simp_all add: r reaped_def find_index_Some is_zombie_st)
    obtain pids where k': "pid_dealloc r (k_pids (?k\<lparr>k_mach := m\<rparr>)) = Inr pids"
      "k_tasks k' = AList.delete r (k_tasks (?k\<lparr>k_mach := m\<rparr>))" "k_pids k' = pids"
      "k_ready k' = k_ready (?k\<lparr>k_mach := m\<rparr>)" "k_current k' = k_current (?k\<lparr>k_mach := m\<rparr>)"
      "k_initproc k' = k_initproc (?k\<lparr>k_mach := m\<rparr>)" by (rule drop_task_facts [OF d])
    have tk: "tasks k' = (tasks ?k)(r := None)" by (simp add: tasks_def k'(2) delete_conv')
    have pr: "r \<noteq> p" using current_running [OF inv p(1)] i'(2) by auto
    have zk: "kids k r = []" using inv i'(2) unfolding sched_inv_def family_ok_def by blast
    have "st k' = (st k)(r := None)" "kids k' = (kids k)(p := vec_remove i (kids k p))"
      using pr p(2) zk by (auto simp: st_def kids_def tk fun_eq_iff)
    moreover have "distinct (map fst (k_tasks k'))"
      using inv distinct_keys_put [of k p] by (simp add: k'(2) distinct_delete sched_inv_def)
    ultimately show ?thesis using child [of p i] p(1) i' r k' by simp
  qed
qed


lemma reaped_from_parent:
  assumes inv: "sched_inv k" and i: "i < length (kids k p)" "r = kids k p ! i"
    and kids': "kids k' = (kids k)(p := vec_remove i (kids k p))"
  shows "set (kids k' q) = set (kids k q) - {r}"
proof (cases "q = p")
  case True
  have "distinct (kids k p)" using inv unfolding sched_inv_def family_ok_def by blast
  then show ?thesis using vec_remove_props(1) [OF _ i(1)] True by (simp add: kids' i(2))
next
  case False
  have "set (kids k p) \<inter> set (kids k q) = {}" using inv False unfolding sched_inv_def family_ok_def by blast
  then have "r \<notin> set (kids k q)" using nth_mem [OF i(1)] unfolding i(2) by blast
  then show ?thesis using False by (simp add: kids')
qed

lemma inv_waitpid:
  assumes inv: "sched_inv k" and ok: "sys_waitpid pid ptr k = Inr (r, k')"
  shows "sched_inv k'" and "k_current k' = k_current k"
proof -
  have "sched_inv k' \<and> k_current k' = k_current k"
  proof (cases rule: waitpid_facts [OF inv ok, case_names none child])
    case none
    then show ?thesis using inv by simp
  next
    case (child p i)
    have qo: "queue_ok k" and fam: "family_ok k" and pid: "pids_ok k" using inv by (simp_all add: sched_inv_def)
    note st' = child(6) and kids' = child(7) and fields = child(8,9,10)
    have d: "distinct (kids k p)" using fam unfolding family_ok_def by blast
    note w = vec_remove_props [OF d child(2)]
    have "queue_ok k'"
    proof -
      have "q \<in> set (k_ready k) \<longleftrightarrow> ((st k)(r := None)) q = Some Ready" for q
        using qo child(4) by (cases "q = r") (simp_all add: queue_ok_def)
      moreover have "k_current k = Some q \<longleftrightarrow> ((st k)(r := None)) q = Some Running" for q
        using qo child(4) by (cases "q = r") (simp_all add: queue_ok_def)
      ultimately show ?thesis using qo unfolding queue_ok_def fields st' by simp
    qed
    moreover have "family_ok k'"
    proof -
      let ?i = "k_initproc k"
      have f1: "distinct (kids k q)" "q \<notin> set (kids k q)" "st k q = Some Zombie \<Longrightarrow> kids k q = []"
        and f2: "b \<in> set (kids k q) \<Longrightarrow> st k b \<noteq> None \<and> b \<noteq> ?i"
        and f3: "q \<noteq> s \<Longrightarrow> set (kids k q) \<inter> set (kids k s) = {}" for q s b
        using fam by (simp_all add: family_ok_def)
      have f4: "st k ?i \<noteq> None" "st k ?i \<noteq> Some Zombie" using fam by (simp_all add: family_ok_def)
      have set': "set (kids k' q) = set (kids k q) - {r}" for q
        by (rule reaped_from_parent [OF inv child(2,3) kids'])
      have "distinct (kids k' q)" for q using f1(1) w(2) by (simp add: kids')
      moreover have "q \<notin> set (kids k' q)" for q using f1(2) by (simp add: set')
      moreover have "st k' q = Some Zombie \<longrightarrow> kids k' q = []" for q
      proof
        assume "st k' q = Some Zombie"
        then have "st k q = Some Zombie" by (simp add: st' split: if_splits)
        then have "set (kids k' q) = {}" unfolding set' by (simp add: f1(3))
        then show "kids k' q = []" by (simp only: set_empty)
      qed
      moreover have "b \<in> set (kids k' q) \<Longrightarrow> st k' b \<noteq> None \<and> b \<noteq> ?i" for b q
        using f2 [of b q] by (auto simp: set' st')
      moreover have "set (kids k' q) \<inter> set (kids k' s) = {}" if "q \<noteq> s" for q s
        using f3 [OF that] by (auto simp: set')
      moreover have "r \<noteq> ?i" using f4(2) child(4) by auto
      then have "st k' ?i \<noteq> None" "st k' ?i \<noteq> Some Zombie" using f4 by (simp_all add: st')
      ultimately show ?thesis unfolding family_ok_def fields by blast
    qed
    moreover have "pids_ok k'"
    proof -
      have "pid_inv (k_pids k') \<and> pid_live (k_pids k') = pid_live (k_pids k) - {r}"
        using pids.dealloc_Inr [OF _ UNIV_I child(11)] pid unfolding pids_ok_def by blast
      moreover have "{q. st k' q \<noteq> None} = {q. st k q \<noteq> None} - {r}" by (auto simp: st')
      ultimately show ?thesis using pid by (simp add: pids_ok_def)
    qed
    ultimately show ?thesis using child(12) fields by (simp add: sched_inv_def)
  qed
  then show "sched_inv k'" and "k_current k' = k_current k" by simp_all
qed


text \<open>The remaining system calls.\<close>

lemma same_set_cx: "set_current_trap_cx cx k = Inr k' \<Longrightarrow> same_tasks k k'"
  by (auto simp: set_current_trap_cx_def elim!: rbind_eq_InrE)

lemma same_write: "sys_write fd buf len k = Inr (r, k') \<Longrightarrow> same_tasks k k'"
  by (auto simp: sys_write_def file_write_def elim!: rbind_eq_InrE split: if_splits option.splits file_ref.splits)

lemma same_close: "sys_close fd k = Inr (r, k') \<Longrightarrow> same_tasks k k'"
  by (auto simp: sys_close_def task_Inr elim!: rbind_eq_InrE split: if_splits)

lemma alloc_fd_same: "alloc_fd t = (fd, u) \<Longrightarrow> task_status u = task_status t \<and> children u = children t"
  by (auto simp: alloc_fd_def split: option.splits)

lemma same_open: "sys_open env path flags k = Inr (r, k') \<Longrightarrow> same_tasks k k'"
  by (auto simp: sys_open_def task_Inr Let_def elim!: rbind_eq_InrE split: option.splits prod.splits
      dest!: alloc_fd_same)

lemma same_task_exec: "task_exec env p elf k = Inr k' \<Longrightarrow> same_tasks k k'"
  by (auto simp: task_exec_def task_Inr Let_def elim!: rbind_eq_InrE)

lemma same_exec: "sys_exec env path k = Inr (r, k') \<Longrightarrow> same_tasks k k'"
  by (auto simp: sys_exec_def Let_def elim!: rbind_eq_InrE split: option.splits dest!: same_task_exec
      simp: same_tasks_def)

lemma inv_stdin_round:
  assumes "sched_inv k" and "stdin_round c ub k = Inr (r, k')"
  shows "sched_inv k'"
  using assms inv_suspend(1) [OF assms(1), of "Resume_stdin ub"] same_tasks_inv [OF _ assms(1), of k']
  by (auto simp: stdin_round_def elim!: rbind_eq_InrE split: option.splits)

lemma inv_read:
  assumes "sched_inv k" and "sys_read c fd buf len k = Inr (r, k')"
  shows "sched_inv k'"
proof -
  have "file_read c f ub k = Inr (r, k') \<Longrightarrow> sched_inv k'" for f ub
    using inv_stdin_round [OF assms(1), of c ub r k'] same_tasks_inv [OF _ assms(1), of k']
    by (auto simp: file_read_def elim!: rbind_eq_InrE split: file_ref.splits)
  then show ?thesis using assms by (auto simp: sys_read_def elim!: rbind_eq_InrE split: if_splits option.splits)
qed

lemma inv_syscall:
  assumes inv: "sched_inv k" and room: "pid_room (k_pids k)" and ok: "syscall env c n (a0, a1, a2) k = Inr (r, k')"
  shows "sched_inv k'"
proof -
  note same = same_tasks_inv [OF _ inv, of k']
  show ?thesis using ok inv
    by (auto simp: syscall_def plain_def away_def sys_exit_def sys_yield_def sys_getpid_def elim!: rbind_eq_InrE
        split: if_splits
        dest: same [OF same_write] same [OF same_close] same [OF same_open] same [OF same_exec]
          inv_exit(1) [OF inv] inv_suspend(1) [OF inv] inv_read [OF inv] inv_fork(1) [OF inv room] inv_waitpid(1) [OF inv])
qed

lemma inv_finish: "sched_inv k \<Longrightarrow> finish_syscall (r, k) = Inr k' \<Longrightarrow> sched_inv k'"
  by (auto simp: finish_syscall_def elim!: rbind_eq_InrE split: sysres.splits
      dest!: same_set_cx intro: same_tasks_inv)

lemma inv_trap:
  assumes inv: "sched_inv k" and room: "pid_room (k_pids k)" and ok: "trap_handler env c scause k = Inr k'"
  shows "sched_inv k'"
proof -
  have call: "sched_inv k'" if set: "set_current_trap_cx cx k = Inr k1"
    and sys: "syscall env c n (a0, a1, a2) k1 = Inr (r, k2)" and fin: "finish_syscall (r, k2) = Inr k'"
    for cx k1 n a0 a1 a2 r k2
  proof -
    have k1: "same_tasks k k1" by (rule same_set_cx [OF set])
    then have "pid_room (k_pids k1)" using room by (simp add: same_tasks_def)
    then show ?thesis using inv_finish [OF inv_syscall [OF same_tasks_inv [OF k1 inv] _ sys] fin] by simp
  qed
  have tick: "sched_inv (set_next_trigger env k)" using inv by (simp add: set_next_trigger_def sched_defs)
  show ?thesis using ok inv_exit(1) [OF inv] inv_suspend(1) [OF tick]
    by (auto simp: trap_handler_def Let_def elim!: rbind_eq_InrE call
        split: Trap.splits Exception.splits Interrupt.splits)
qed

lemma inv_resume:
  assumes "sched_inv k" and "resume_task c p k = Inr k'"
  shows "sched_inv k'"
proof -
  have "sched_inv k'" if "stdin_round c ub k = Inr (r, k1)" and "finish_syscall (r, k1) = Inr k'" for ub r k1
    using inv_finish [OF inv_stdin_round [OF assms(1) that(1)] that(2)] .
  then show ?thesis using assms inv_finish [OF assms(1)]
    by (auto simp: resume_task_def elim!: rbind_eq_InrE split: resume.splits)
qed

section \<open>Steps of the kernel\<close>

text \<open>
  A trap of the running task is handled to its end; the idle flow switches to the task at the front
  of the queue, which goes on where it was suspended; the running program changes the memory and
  time passes. The label is the task switched to. \<open>c\<close> is what the firmware's console answers.
\<close>

inductive kstep :: "environment \<Rightarrow> kernel \<Rightarrow> usize list \<Rightarrow> kernel \<Rightarrow> bool" for env where
  trap: "k_current k = Some p \<Longrightarrow> pid_room (k_pids k) \<Longrightarrow> trap_handler env c scause k = Inr k' \<Longrightarrow> kstep env k [] k'"
| switch: "k_current k = None \<Longrightarrow> run_tasks_round k = Inr (Some p, k1) \<Longrightarrow> resume_task c p k1 = Inr k' \<Longrightarrow>
    kstep env k [p] k'"
| user: "k_current k = Some p \<Longrightarrow> kstep env k [] (k\<lparr>k_mach := m, k_time := now\<rparr>)"

text \<open>Runs, with the sequence of the tasks that were given the processor.\<close>

inductive krun :: "environment \<Rightarrow> kernel \<Rightarrow> usize list \<Rightarrow> kernel \<Rightarrow> bool" for env where
  krun_refl: "krun env k [] k"
| krun_step: "kstep env k ps k1 \<Longrightarrow> krun env k1 qs k' \<Longrightarrow> krun env k (ps @ qs) k'"

lemma kstep_inv: "kstep env k ps k' \<Longrightarrow> sched_inv k \<Longrightarrow> sched_inv k'"
proof (induction rule: kstep.induct)
  case (trap k p c scause k')
  then show ?case using inv_trap by blast
next
  case (switch k p k1 c k')
  then show ?case using inv_round(1) inv_resume by blast
next
  case user
  then show ?case by (simp add: sched_defs)
qed

lemma krun_inv: "krun env k ps k' \<Longrightarrow> sched_inv k \<Longrightarrow> sched_inv k'"
  by (induction rule: krun.induct) (auto dest: kstep_inv)

text \<open>The first process: the state \<open>add_initproc\<close> leaves satisfies the invariant.\<close>

lemma inv_boot:
  assumes "k_tasks k = []" "k_ready k = []" "k_current k = None" "k_pids k = PidAllocator_new"
    and ok: "add_initproc env k = Inr k'"
  shows "sched_inv k'"
proof -
  from ok obtain v s p k1 where k1: "task_new env v (k\<lparr>k_store := s\<rparr>) = Inr (p, k1)"
    and k': "k' = add_task p (k1\<lparr>k_initproc := p\<rparr>)"
    by (auto simp: add_initproc_def elim!: rbind_eq_InrE)
  from k1 obtain t pids where t: "k_tasks k1 = [(p, t)]" "task_status t = Ready" "children t = []"
    and al: "pid_alloc PidAllocator_new = (p, pids)" and f: "k_ready k1 = []" "k_current k1 = None" "k_pids k1 = pids"
    by (auto simp: task_new_def alloc_pid_and_stack_def Let_def put_task_def assms elim!: rbind_eq_InrE split: prod.splits)
  have "pid_inv PidAllocator_new" "pid_room PidAllocator_new" "pid_live PidAllocator_new = {}"
    by (simp_all add: pid_inv_def pid_room_def pid_live_def PidAllocator_new_def)
  note al' = pid_alloc_live [OF this(1,2) al, unfolded this(3)]
  have "tasks k' = [p \<mapsto> t]" by (simp add: tasks_def k' add_task_def t)
  then have "st k' = [p \<mapsto> Ready]" "kids k' = (\<lambda>_. [])" by (auto simp: st_def kids_def t fun_eq_iff)
  moreover have "k_ready k' = [p]" "k_current k' = None" "k_initproc k' = p" "k_pids k' = pids"
    "map fst (k_tasks k') = [p]" by (simp_all add: k' add_task_def f t vec_push_def)
  ultimately show ?thesis using al' by (auto simp: sched_defs)
qed

section \<open>Order of the ready queue\<close>

definition extends :: "kernel \<Rightarrow> kernel \<Rightarrow> bool" where
  "extends k k' \<longleftrightarrow> (\<exists>ps. k_ready k' = k_ready k @ ps)"

lemma extends_same: "same_tasks k k' \<Longrightarrow> extends k k'"
  by (simp add: extends_def same_tasks_def)

lemma extends_trans: "extends a b \<Longrightarrow> extends b c \<Longrightarrow> extends a c"
  by (auto simp: extends_def)


lemma extends_suspend: "suspend_current_and_run_next r k = Inr k' \<Longrightarrow> extends k k'"
  by (auto simp: suspend_eq extends_def vec_push_def add_task_def split: option.splits)

lemma extends_rfold: "rfold (reparent b i) cs k = Inr k' \<Longrightarrow> k_ready k' = k_ready k"
  by (induction cs arbitrary: k) (auto simp: reparent_def Let_def elim!: rbind_eq_InrE)

lemma extends_exit: "exit_current_and_run_next code k = Inr k' \<Longrightarrow> extends k k'"
  by (auto simp: exit_current_and_run_next_def take_current_task_def Let_def extends_def
      elim!: rbind_eq_InrE split: if_splits dest!: extends_rfold)

lemma extends_fork: "sys_fork env k = Inr (c, k') \<Longrightarrow> extends k k'"
  by (auto simp: sys_fork_def Let_def extends_def add_task_def vec_push_def elim!: rbind_eq_InrE task_fork_facts)

lemma extends_waitpid: "sys_waitpid pid ptr k = Inr (r, k') \<Longrightarrow> extends k k'"
  by (auto simp: sys_waitpid_def Let_def extends_def elim!: rbind_eq_InrE drop_task_facts
      split: if_splits option.splits)

lemma extends_stdin: "stdin_round c ub k = Inr (r, k') \<Longrightarrow> extends k k'"
  by (auto simp: stdin_round_def elim!: rbind_eq_InrE split: option.splits
      intro: extends_suspend simp: extends_same)

lemma extends_file_read: "file_read c f ub k = Inr (r, k') \<Longrightarrow> extends k k'"
  using extends_stdin [of c ub k r k']
  by (auto simp: file_read_def extends_same elim!: rbind_eq_InrE split: file_ref.splits)

lemma extends_read: "sys_read c fd buf len k = Inr (r, k') \<Longrightarrow> extends k k'"
  using extends_file_read [of c _ _ k r k']
  by (auto simp: sys_read_def extends_same elim!: rbind_eq_InrE split: if_splits option.splits)

lemmas extends_calls = extends_same [OF same_write] extends_same [OF same_close] extends_same [OF same_open]
  extends_same [OF same_exec] extends_exit extends_suspend extends_read extends_fork extends_waitpid

lemma extends_syscall: "syscall env c n (a0, a1, a2) k = Inr (r, k') \<Longrightarrow> extends k k'"
  by (auto simp: syscall_def plain_def away_def sys_exit_def sys_yield_def sys_getpid_def extends_same
      elim!: rbind_eq_InrE split: if_splits intro: extends_calls)

lemma extends_finish: "finish_syscall (r, k) = Inr k' \<Longrightarrow> extends k k'"
  by (auto simp: finish_syscall_def extends_same elim!: rbind_eq_InrE split: sysres.splits
      dest!: same_set_cx)

lemma extends_trap:
  assumes "trap_handler env c scause k = Inr k'"
  shows "extends k k'"
proof -
  have call: "extends k k'" if "set_current_trap_cx cx k = Inr k1"
    "syscall env c n (a0, a1, a2) k1 = Inr (r, k2)" "finish_syscall (r, k2) = Inr k'" for cx k1 n a0 a1 a2 r k2
    using extends_same [OF same_set_cx [OF that(1)]] extends_syscall [OF that(2)] extends_finish [OF that(3)]
    by (blast intro: extends_trans)
  have tick: "extends k k'" if "suspend_current_and_run_next r (set_next_trigger env k) = Inr k'" for r
    using extends_suspend [OF that] by (simp add: extends_def set_next_trigger_def)
  show ?thesis using assms by (auto simp: trap_handler_def Let_def elim!: rbind_eq_InrE call
      split: Trap.splits Exception.splits Interrupt.splits intro: extends_exit tick)
qed

lemma extends_resume:
  assumes "resume_task c p k = Inr k'"
  shows "extends k k'"
proof -
  have "extends k k'" if "stdin_round c ub k = Inr (r, k1)" and "finish_syscall (r, k1) = Inr k'" for ub r k1
    using extends_stdin [OF that(1)] extends_finish [OF that(2)] by (rule extends_trans)
  then show ?thesis using assms
    by (auto simp: resume_task_def extends_same elim!: rbind_eq_InrE split: resume.splits intro: extends_finish)
qed

lemma kstep_ready: "kstep env k ps k' \<Longrightarrow> \<exists>new. k_ready k @ new = ps @ k_ready k'"
proof (induction rule: kstep.induct)
  case (trap k p c scause k')
  then show ?case using extends_trap [of env c scause k k'] by (auto simp: extends_def)
next
  case (switch k p k1 c k')
  have "k_ready k = p # k_ready k1"
    using switch(2) by (auto simp: round_eq split: option.splits list.splits)
  then show ?case using extends_resume [OF switch(3)] by (auto simp: extends_def)
next
  case user
  then show ?case by simp
qed

lemma krun_ready: "krun env k ps k' \<Longrightarrow> \<exists>new. k_ready k @ new = ps @ k_ready k'"
proof (induction rule: krun.induct)
  case krun_refl
  then show ?case by simp
next
  case (krun_step k ps k1 qs k')
  from kstep_ready [OF krun_step.hyps(1)] krun_step.IH obtain a b
    where "k_ready k @ a = ps @ k_ready k1" "k_ready k1 @ b = qs @ k_ready k'" by blast
  then have "k_ready k @ a @ b = (ps @ qs) @ k_ready k'" by (metis append_assoc)
  then show ?case by blast
qed

end
