(* ===== verification/Scheduling.thy ===== *)
theory Scheduling
  imports Kernel_Inv
begin

text \<open>
  What the kernel promises about scheduling and processes, over the steps of \<open>Kernel_Inv\<close>: the
  invariant along every run, the order of dispatch, preemption, waiting, exit, descriptors.
\<close>

section \<open>A kernel with three tasks\<close>

definition sample_task :: "TaskStatus \<Rightarrow> usize list \<Rightarrow> TaskControlBlock" where
  "sample_task status cs =
     \<lparr>trap_cx_ppn = PhysPageNum 3, base_size = 0, task_cx = TaskContext_zero_init, task_status = status,
      memory_set = \<lparr>page_table = \<lparr>root_ppn = PhysPageNum 1, pt_frames = []\<rparr>, areas = []\<rparr>,
      parent = None, children = cs, exit_code = 0, fd_table = [Some FStdin, None, Some FStdout],
      resume = Resume_trap_return\<rparr>"

definition sample_kernel :: kernel where
  "sample_kernel =
     \<lparr>k_mach = sample_machine, k_store = \<lparr>bcm_queue = [], store_file = \<lparr>bf_blocks = (\<lambda>_. []), bf_len = 0\<rparr>, arcs = []\<rparr>,
      k_space = memory_set (sample_task Ready []), k_pids = \<lparr>pid_current = 3, pid_recycled = []\<rparr>,
      k_tasks = [(0, sample_task Ready [1]), (1, sample_task Running [2]), (2, sample_task Zombie [])],
      k_ready = [0], k_current = Some 1, k_initproc = 0, k_inodes = [], k_console = [], k_time = 700, k_timer = 0\<rparr>"

definition sample_env :: environment where
  "sample_env =
     \<lparr>e_syms = \<lparr>stext = 0, etext = 0, srodata = 0, erodata = 0, sdata = 0, edata = 0, sbss_with_stack = 0,
               ebss = 0, ekernel = 0, strampoline = 0\<rparr>,
      e_parse = (\<lambda>_. None), e_trap_return = 0, e_trap_handler = 0, e_alltraps = 0, e_restore = 0, e_sstatus = 0,
      e_clock_freq = 12500000,
      e_root = \<lparr>in_block_id = 0, in_block_offset = 0,
               in_fs = \<lparr>inode_bitmap = Bitmap_new 0 0, data_bitmap = Bitmap_new 0 0,
                        inode_area_start_block = 0, data_area_start_block = 0\<rparr>\<rparr>\<rparr>"

lemma sample_tasks: "tasks sample_kernel =
    [0 \<mapsto> sample_task Ready [1], 1 \<mapsto> sample_task Running [2], 2 \<mapsto> sample_task Zombie []]"
  by (auto simp: tasks_def sample_kernel_def fun_eq_iff)

lemma sample_st: "st sample_kernel = [0 \<mapsto> Ready, 1 \<mapsto> Running, 2 \<mapsto> Zombie]"
  and sample_kids: "kids sample_kernel = (\<lambda>_. [])(0 := [1], 1 := [2])"
  by (auto simp: st_def kids_def sample_tasks fun_eq_iff sample_task_def)

lemma sample_fields:
  "k_ready sample_kernel = [0]" "k_current sample_kernel = Some 1" "k_initproc sample_kernel = 0"
  "k_pids sample_kernel = \<lparr>pid_current = 3, pid_recycled = []\<rparr>" "map fst (k_tasks sample_kernel) = [0, 1, 2]"
  "k_time sample_kernel = 700" "k_mach sample_kernel = sample_machine"
  by (simp_all add: sample_kernel_def)

lemma below_3: "{p :: usize. p < 3} = {0, 1, 2}"
proof -
  have "p \<in> {0, 1, 2}" if "p < 3" for p :: usize
    using that by (auto intro!: word_unat_eqI simp: word_less_nat_alt)
  then show ?thesis by (auto simp: word_less_nat_alt)
qed

lemma sample_inv: "sched_inv sample_kernel"
proof -
  have "{p. st sample_kernel p \<noteq> None} = {0, 1, 2}" by (auto simp: sample_st)
  then have "pids_ok sample_kernel" unfolding pids_ok_def sample_fields by (simp add: pid_inv_def pid_live_def below_3)
  moreover have "queue_ok sample_kernel" unfolding queue_ok_def sample_fields sample_st by auto
  moreover have "family_ok sample_kernel" unfolding family_ok_def sample_fields sample_st sample_kids by auto
  ultimately show ?thesis by (simp add: sched_inv_def sample_fields)
qed

section \<open>The invariant\<close>

text \<open>
  C23: Along every run of the kernel (traps of the running task, switches of the idle flow, user
  steps), the ready queue holds exactly the ready tasks, each once; the current task is the only
  running one; every task is the child of at most one other; the initial process is alive; and
  the identifiers in use are those of the control blocks.
\<close>

theorem scheduler_invariant:
  assumes "sched_inv k" and "krun env k ds k'"
  shows "sched_inv k'"
  using krun_inv assms by blast

lemma timer_cause: "scause_cause 0x8000000000000005 = TrapInterrupt SupervisorTimer"
  by code_simp

lemma sample_timer_run:
  "\<exists>k'. krun sample_env sample_kernel [0] k' \<and> k_current k' = Some 0 \<and> k_ready k' = [1]"
proof -
  obtain k1 where k1: "trap_handler sample_env 0 0x8000000000000005 sample_kernel = Inr k1"
    "k_ready k1 = [0, 1]" "k_current k1 = None" "tasks k1 0 = Some (sample_task Ready [1])"
    by (simp add: trap_handler_def timer_cause suspend_eq set_next_trigger_def sample_tasks sample_fields
        add_task_def vec_push_def)
  have "kstep sample_env sample_kernel [] k1"
    by (rule kstep.trap [OF _ _ k1(1)]) (simp_all add: sample_kernel_def pid_room_def)
  moreover have "\<exists>k2. run_tasks_round k1 = Inr (Some 0, k2) \<and> tasks k2 0 = Some (sample_task Running [1]) \<and>
      k_current k2 = Some 0 \<and> k_ready k2 = [1]"
    by (simp add: round_eq k1) (simp add: sample_task_def)
  then obtain k2 where k2: "run_tasks_round k1 = Inr (Some 0, k2)" "tasks k2 0 = Some (sample_task Running [1])"
      "k_current k2 = Some 0" "k_ready k2 = [1]" by blast
  have "resume_task 0 0 k2 = Inr k2" by (simp add: resume_task_def task_eq k2(2)) (simp add: sample_task_def)
  then have "kstep sample_env k1 [0] k2" by (rule kstep.switch [OF k1(3) k2(1)])
  ultimately have "krun sample_env sample_kernel ([] @ [0] @ []) k2" by (blast intro: krun.intros)
  then show ?thesis using k2(3,4) by auto
qed

theorem scheduler_invariant_witness:
  "\<exists>k'. krun sample_env sample_kernel [0] k' \<and> sched_inv k' \<and> st k' 0 = Some Running \<and> st k' 1 = Some Ready"
proof -
  obtain k' where k': "krun sample_env sample_kernel [0] k'" "k_current k' = Some 0" "k_ready k' = [1]"
    using sample_timer_run by blast
  have inv: "sched_inv k'" by (rule scheduler_invariant [OF sample_inv k'(1)])
  then have "st k' 1 = Some Ready" using k'(3) by (auto simp: sched_inv_def queue_ok_def)
  then show ?thesis using k'(1) inv current_running [OF inv k'(2)] by blast
qed

section \<open>Order of dispatch and preemption\<close>

text \<open>
  C24: Scheduling is first in, first out and never stuck: whatever happens in between, the \<open>i\<close>-th
  task given the processor in a run is the \<open>i\<close>-th of the ready queue the run started with, and an
  idle processor with a nonempty ready queue switches to the task at its front.
\<close>

theorem dispatch_is_fifo:
  assumes "sched_inv k" and "krun env k ds k'"
  shows "(\<forall>i. i < length ds \<and> i < length (k_ready k) \<longrightarrow> ds ! i = k_ready k ! i) \<and>
    (k_current k = None \<and> k_ready k \<noteq> [] \<longrightarrow>
      (\<exists>k1. run_tasks_round k = Inr (Some (hd (k_ready k)), k1) \<and> k_current k1 = Some (hd (k_ready k))))"
proof (intro conjI allI impI)
  fix i assume i: "i < length ds \<and> i < length (k_ready k)"
  obtain new where "k_ready k @ new = ds @ k_ready k'" using krun_ready [OF assms(2)] by blast
  then have "(k_ready k @ new) ! i = (ds @ k_ready k') ! i" by simp
  then show "ds ! i = k_ready k ! i" using i by (simp add: nth_append)
next
  assume "k_current k = None \<and> k_ready k \<noteq> []"
  then obtain p ps where p: "k_ready k = p # ps" by (cases "k_ready k") auto
  then have "st k p = Some Ready" using assms(1) by (auto simp: sched_inv_def queue_ok_def)
  then obtain t where "tasks k p = Some t" by (auto simp: st_def)
  then show "\<exists>k1. run_tasks_round k = Inr (Some (hd (k_ready k)), k1) \<and> k_current k1 = Some (hd (k_ready k))"
    by (simp add: round_eq p)
qed

theorem dispatch_is_fifo_witness:
  "\<exists>k'. krun sample_env sample_kernel [0] k' \<and> [0] ! 0 = k_ready sample_kernel ! 0"
  using sample_timer_run dispatch_is_fifo [OF sample_inv, of sample_env "[0]"] by (auto simp: sample_kernel_def)

text \<open>
  A timer interrupt preempts: the running task goes to the end of the ready queue, the processor
  becomes idle, and the next interrupt is set a hundredth of a second ahead, modulo 2^64.
\<close>

theorem timer_preempts:
  assumes "sched_inv k" and "k_current k = Some p" and "scause_cause sc = TrapInterrupt SupervisorTimer"
  shows "\<exists>k'. trap_handler env c sc k = Inr k' \<and> k_ready k' = k_ready k @ [p] \<and> k_current k' = None \<and>
    st k' = (st k)(p := Some Ready) \<and> unat (k_timer k') = (unat (k_time k) + unat (e_clock_freq env) div 100) mod 2 ^ 64"
proof -
  have "st k p = Some Running" by (rule current_running [OF assms(1,2)])
  then obtain t where t: "tasks k p = Some t" by (auto simp: st_def)
  show ?thesis
    by (simp add: trap_handler_def assms(2,3) suspend_eq set_next_trigger_def t add_task_def vec_push_def
        TICKS_PER_SEC_def unat_word_ariths unat_div mod_add_right_eq)
qed

theorem timer_preempts_witness:
  "\<exists>k'. trap_handler sample_env 0 0x8000000000000005 sample_kernel = Inr k' \<and> k_ready k' = [0, 1] \<and>
     unat (k_timer k') = 125700"
  using timer_preempts [OF sample_inv _ timer_cause, of 1 sample_env 0]
  by (auto simp: sample_kernel_def sample_env_def)


section \<open>Waiting, exit, descriptors\<close>

text \<open>
  C25: \<open>waitpid\<close> answers -1 when no child matches and -2 when none of the matching children has
  exited, without changing the kernel. When a matching child has exited, the first such child in the
  parent's list is reaped: it is taken from the list, no borrow fails, the assertion on its strong
  count holds, its exit code goes to the given address and its control block is dropped; only a bad
  address or the drop can panic. The answer is then its identifier: its control block is gone,
  the identifier is free again, and no other task changes.
\<close>

theorem waitpid_outcome:
  assumes "sched_inv k" and "k_current k = Some p" and "tasks k p = Some t"
  shows "((\<forall>c \<in> set (kids k p). \<not> pid_matches pid c) \<longrightarrow> sys_waitpid pid ptr k = Inr (- 1, k)) \<and>
    ((\<exists>c \<in> set (kids k p). pid_matches pid c) \<and> (\<forall>c \<in> set (kids k p). pid_matches pid c \<longrightarrow> st k c \<noteq> Some Zombie)
      \<longrightarrow> sys_waitpid pid ptr k = Inr (- 2, k)) \<and>
    (\<forall>i < length (kids k p). st k (kids k p ! i) = Some Zombie \<longrightarrow>
      1 + strong_refs (kids k p ! i) (put_task p (t\<lparr>children := vec_remove i (kids k p)\<rparr>) k) = 1) \<and>
    (\<forall>i ct. i < length (kids k p) \<and> st k (kids k p ! i) = Some Zombie \<and> pid_matches pid (kids k p ! i) \<and>
      (\<forall>j < i. \<not> (st k (kids k p ! j) = Some Zombie \<and> pid_matches pid (kids k p ! j))) \<and>
      tasks k (kids k p ! i) = Some ct \<longrightarrow>
      sys_waitpid pid ptr k =
        rbind (translated_refmut (k_mach k) (get_user_token t) ptr) (\<lambda>pa.
        rbind (drop_task (kids k p ! i)
            ((put_task p (t\<lparr>children := vec_remove i (kids k p)\<rparr>) k)
             \<lparr>k_mach := write_phys pa (le_bytes 4 (unat (exit_code ct))) (k_mach k)\<rparr>)) (\<lambda>k'.
        Inr (kids k p ! i, k')))) \<and>
    (\<forall>r k'. sys_waitpid pid ptr k = Inr (r, k') \<and> r \<noteq> - 1 \<and> r \<noteq> - 2 \<longrightarrow>
      r \<in> set (kids k p) \<and> st k r = Some Zombie \<and> pid_matches pid r \<and> st k' = (st k)(r := None) \<and>
      (\<forall>q. set (kids k' q) = set (kids k q) - {r}) \<and> r \<notin> pid_live (k_pids k') \<and> sched_inv k')"
    (is "?none \<and> ?wait \<and> ?refs \<and> ?first \<and> ?reap")
proof (intro conjI)
  note eq = waitpid_eq [OF assms, of pid ptr]
  have kp: "kids k p = children t" using st_task [OF assms(3)] by simp
  show ?none by (simp add: eq)
  show ?wait
  proof
    assume a: "(\<exists>c \<in> set (kids k p). pid_matches pid c) \<and>
      (\<forall>c \<in> set (kids k p). pid_matches pid c \<longrightarrow> st k c \<noteq> Some Zombie)"
    then have "reaped pid k p = None" by (auto simp: reaped_def find_index_None is_zombie_st)
    then show "sys_waitpid pid ptr k = Inr (- 2, k)" using a by (auto simp: eq)
  qed
  show ?refs using refs_after_removal [OF assms(1,3)] by (simp add: kp)
  show ?first
  proof (intro allI impI, elim conjE)
    fix i ct
    assume i: "i < length (kids k p)" "st k (kids k p ! i) = Some Zombie" "pid_matches pid (kids k p ! i)"
      "\<forall>j < i. \<not> (st k (kids k p ! j) = Some Zombie \<and> pid_matches pid (kids k p ! j))"
      and ct: "tasks k (kids k p ! i) = Some ct"
    have "reaped pid k p = Some i" using i by (simp add: reaped_def find_index_Some is_zombie_st)
    moreover have "\<not> (\<forall>c \<in> set (kids k p). \<not> pid_matches pid c)" using i(1,3) nth_mem by blast
    ultimately show "sys_waitpid pid ptr k =
        rbind (translated_refmut (k_mach k) (get_user_token t) ptr) (\<lambda>pa.
        rbind (drop_task (kids k p ! i)
            ((put_task p (t\<lparr>children := vec_remove i (kids k p)\<rparr>) k)
             \<lparr>k_mach := write_phys pa (le_bytes 4 (unat (exit_code ct))) (k_mach k)\<rparr>)) (\<lambda>k'.
        Inr (kids k p ! i, k')))" using ct by (simp add: eq task_eq) blast
  qed
  show ?reap
  proof (intro allI impI, elim conjE)
    fix r k' assume ok: "sys_waitpid pid ptr k = Inr (r, k')" and r: "r \<noteq> - 1" "r \<noteq> - 2"
    from waitpid_facts [OF assms(1) ok] r obtain i where i: "i < length (kids k p)" "r = kids k p ! i"
      "st k r = Some Zombie" "pid_matches pid r" "st k' = (st k)(r := None)"
      "kids k' = (kids k)(p := vec_remove i (kids k p))" using assms(2) by (auto simp del: fun_upd_apply)
    have inv': "sched_inv k'" by (rule inv_waitpid(1) [OF assms(1) ok])
    then have "{q. st k' q \<noteq> None} = pid_live (k_pids k')" by (simp add: sched_inv_def pids_ok_def)
    then have "r \<notin> pid_live (k_pids k')" using i(5) by (metis (mono_tags) fun_upd_same mem_Collect_eq)
    moreover have "set (kids k' q) = set (kids k q) - {r}" for q
      by (rule reaped_from_parent [OF assms(1) i(1,2,6)])
    ultimately show "r \<in> set (kids k p) \<and> st k r = Some Zombie \<and> pid_matches pid r \<and> st k' = (st k)(r := None) \<and>
      (\<forall>q. set (kids k' q) = set (kids k q) - {r}) \<and> r \<notin> pid_live (k_pids k') \<and> sched_inv k'"
      using i inv' by auto
  qed
qed


definition loop_kernel :: kernel where
  "loop_kernel = sample_kernel\<lparr>k_mach := loop_machine\<rparr>"

lemma loop_kernel_facts:
  "sched_inv loop_kernel" "k_current loop_kernel = Some 1" "tasks loop_kernel = tasks sample_kernel"
  "st loop_kernel = st sample_kernel" "kids loop_kernel = kids sample_kernel" "k_mach loop_kernel = loop_machine"
  "k_pids loop_kernel = k_pids sample_kernel" "k_space loop_kernel = k_space sample_kernel"
proof -
  have "same_tasks sample_kernel loop_kernel" by (simp add: loop_kernel_def)
  then show "sched_inv loop_kernel" by (rule same_tasks_inv [OF _ sample_inv])
qed (simp_all add: loop_kernel_def sample_fields)

lemma loop_refmut: "\<exists>pa. translated_refmut loop_machine (get_user_token (sample_task Running [2])) 0 = Inr pa"
proof -
  have "from_token (get_user_token (sample_task Running [2])) = from_token 1"
    by (simp add: get_user_token_def ms_token_def pt_token_def sample_task_def from_token_def)
  moreover obtain pa where "pt_translate_va loop_machine (from_token 1) (VirtAddr_from 0) = Some pa" "pa_0 pa \<noteq> 0"
    using loop_translate [of 0] by (auto simp: user_byte_def split: option.splits if_splits)
  ultimately show ?thesis by (simp add: translated_refmut_def runwrap_def pa_get_mut_def)
qed

lemma sample_spaces [simp]:
  "areas (memory_set (sample_task s cs)) = []" "pt_frames (page_table (memory_set (sample_task s cs))) = []"
  "areas (k_space sample_kernel) = []"
  by (simp_all add: sample_task_def sample_kernel_def)

lemma stack_vpn_2: "\<exists>vpn. vpn_of_va (VirtAddr_from (fst (kernel_stack_position 2))) = Inr vpn"
proof -
  have "va_page_offset (VirtAddr_from (fst (kernel_stack_position 2))) = 0" by code_simp
  then show ?thesis by (simp add: vpn_of_va_def)
qed

theorem waitpid_outcome_witness:
  "\<exists>k'. st loop_kernel 2 = Some Zombie \<and> sys_waitpid (- 1) 0 loop_kernel = Inr (2, k') \<and>
     st k' 2 = None \<and> kids k' 1 = [] \<and> sys_waitpid 7 0 loop_kernel = Inr (- 1, loop_kernel)"
proof -
  let ?t = "sample_task Running [2]" and ?c = "sample_task Zombie []"
  have h: "tasks loop_kernel 1 = Some ?t" "tasks loop_kernel 2 = Some ?c" "kids loop_kernel 1 = [2]"
    by (simp_all add: loop_kernel_facts sample_tasks sample_kids)
  have z: "st loop_kernel 2 = Some Zombie" by (simp add: loop_kernel_facts sample_st)
  note w = waitpid_outcome [OF loop_kernel_facts(1,2) h(1)]
  obtain pa where pa: "translated_refmut loop_machine (get_user_token ?t) 0 = Inr pa" using loop_refmut by blast
  let ?k = "(put_task 1 (?t\<lparr>children := []\<rparr>) loop_kernel)
    \<lparr>k_mach := write_phys pa (le_bytes 4 (unat (exit_code ?c))) loop_machine\<rparr>"
  have "\<exists>k'. drop_task 2 ?k = Inr k'"
    using stack_vpn_2 by (auto simp: drop_task_def task_eq loop_kernel_facts sample_tasks sample_fields pid_dealloc_def KernelStack_drop_def
        ms_drop_def remove_area_with_start_vpn_def split: prod.splits)
  then obtain k' where k': "drop_task 2 ?k = Inr k'" by blast
  have "sys_waitpid (- 1) 0 loop_kernel = rbind (translated_refmut (k_mach loop_kernel) (get_user_token ?t) 0) (\<lambda>pa.
      rbind (drop_task (kids loop_kernel 1 ! 0)
        ((put_task 1 (?t\<lparr>children := vec_remove 0 (kids loop_kernel 1)\<rparr>) loop_kernel)
         \<lparr>k_mach := write_phys pa (le_bytes 4 (unat (exit_code ?c))) (k_mach loop_kernel)\<rparr>)) (\<lambda>k'.
      Inr (kids loop_kernel 1 ! 0, k')))"
    using w [of "- 1" 0, THEN conjunct2, THEN conjunct2, THEN conjunct2, THEN conjunct1, rule_format, of 0 ?c] h z
    by (simp add: pid_matches_def)
  then have r: "sys_waitpid (- 1) 0 loop_kernel = Inr (2, k')"
    using pa k' unfolding h(3) loop_kernel_facts(6) by (simp add: vec_remove_def)
  moreover have "(2 :: usize) \<noteq> - 1" "(2 :: usize) \<noteq> - 2" by simp_all
  ultimately have "st k' = (st loop_kernel)(2 := None) \<and> (\<forall>q. set (kids k' q) = set (kids loop_kernel q) - {2})"
    using w [of "- 1" 0, THEN conjunct2, THEN conjunct2, THEN conjunct2, THEN conjunct2, rule_format, of 2 k'] by blast
  then have "st k' 2 = None \<and> set (kids k' 1) = {}" by (simp add: h(3))
  moreover have "sys_waitpid 7 0 loop_kernel = Inr (- 1, loop_kernel)"
    using w [of 7 0, THEN conjunct1] by (simp add: h(3) pid_matches_def)
  ultimately show ?thesis using r z by auto
qed

text \<open>
  C26: When a task exits, its children become children of the initial process, after those it had,
  in their order, and name it as their parent; the task has none left, is a zombie with the given
  exit code, and stays in its parent's list until it is waited for; the processor is idle and the
  ready queue is as before.
\<close>

theorem exit_reparents:
  assumes "sched_inv k" and "k_current k = Some p" and "exit_current_and_run_next code k = Inr k'"
  shows "p \<noteq> k_initproc k \<and> st k' = (st k)(p := Some Zombie) \<and>
    kids k' (k_initproc k) = kids k (k_initproc k) @ kids k p \<and> kids k' p = [] \<and>
    (\<forall>q. q \<noteq> p \<and> q \<noteq> k_initproc k \<longrightarrow> kids k' q = kids k q) \<and>
    xcode k' = (xcode k)(p := Some code) \<and>
    par k' = (\<lambda>q. if q \<in> set (kids k p) then Some (Some (k_initproc k)) else par k q) \<and>
    k_ready k' = k_ready k \<and> k_current k' = None"
proof (rule exit_facts [OF assms(1,3)])
  fix q
  assume q: "k_current k = Some q" "q \<noteq> k_initproc k" "st k' = (st k)(q := Some Zombie)"
    "kids k' = (kids k)(k_initproc k := kids k (k_initproc k) @ kids k q, q := [])"
    "k_ready k' = k_ready k" "k_current k' = None" "xcode k' = (xcode k)(q := Some code)"
    "par k' = (\<lambda>c. if c \<in> set (kids k q) then Some (Some (k_initproc k)) else par k c)"
  then have "q = p" using assms(2) by simp
  then show ?thesis using q by simp
qed

theorem exit_reparents_witness:
  "\<exists>k'. exit_current_and_run_next 5 sample_kernel = Inr k' \<and> kids k' 0 = [1, 2] \<and> st k' 1 = Some Zombie \<and>
     xcode k' 1 = Some 5 \<and> par k' 2 = Some (Some 0)"
proof -
  have "\<exists>k'. exit_current_and_run_next 5 sample_kernel = Inr k'"
    by (simp add: exit_current_and_run_next_def take_current_task_def sample_fields runwrap_def task_eq sample_tasks
        reparent_def sample_task_def Let_def recycle_data_pages_def)
  then obtain k' where k': "exit_current_and_run_next 5 sample_kernel = Inr k'" by blast
  show ?thesis using exit_reparents [OF sample_inv _ k', of 1] k' by (auto simp: sample_fields sample_kids)
qed

text \<open>
  C27: The initial process cannot exit, and it is the only task of which this is true. Its exit, and every
  trap that leads to one, panics on a second borrow of its control block, which the code already
  holds when it borrows the initial process to hand over the children. No borrow fails in the exit
  of another task: its children are neither itself nor the initial process.
\<close>

theorem initproc_exit_panics:
  assumes "sched_inv k" and "k_current k = Some p"
    and "scause_cause sc \<in> TrapException ` {StoreFault, StorePageFault, InstructionFault, InstructionPageFault,
      LoadFault, LoadPageFault, IllegalInstruction}"
  shows "(exit_current_and_run_next code k = Inl Already_Borrowed \<longleftrightarrow> p = k_initproc k) \<and>
    (trap_handler env c sc k = Inl Already_Borrowed \<longleftrightarrow> p = k_initproc k)"
proof -
  have e: "exit_current_and_run_next code k = Inl Already_Borrowed \<longleftrightarrow> p = k_initproc k" for code
    using exit_error [OF assms(1,2)] by blast
  moreover have "\<exists>code. trap_handler env c sc k = exit_current_and_run_next code k"
    using assms(3) by (auto simp: trap_handler_def)
  ultimately show ?thesis by metis
qed

definition initproc_kernel :: kernel where
  "initproc_kernel = sample_kernel\<lparr>k_current := Some 0, k_ready := [1],
     k_tasks := [(0, sample_task Running [1]), (1, sample_task Ready [2]), (2, sample_task Zombie [])]\<rparr>"

lemma initproc_kernel_inv: "sched_inv initproc_kernel"
proof -
  let ?k = initproc_kernel
  have t: "tasks ?k = [0 \<mapsto> sample_task Running [1], 1 \<mapsto> sample_task Ready [2], 2 \<mapsto> sample_task Zombie []]"
    by (auto simp: tasks_def initproc_kernel_def fun_eq_iff)
  have s: "st ?k = [0 \<mapsto> Running, 1 \<mapsto> Ready, 2 \<mapsto> Zombie]" "kids ?k = (\<lambda>_. [])(0 := [1], 1 := [2])"
    by (auto simp: st_def kids_def t fun_eq_iff sample_task_def)
  have f: "k_ready ?k = [1]" "k_current ?k = Some 0" "k_initproc ?k = 0" "map fst (k_tasks ?k) = [0, 1, 2]"
    "k_pids ?k = \<lparr>pid_current = 3, pid_recycled = []\<rparr>" by (simp_all add: initproc_kernel_def sample_fields)
  have "{p. st ?k p \<noteq> None} = {0, 1, 2}" by (auto simp: s)
  then have "pids_ok ?k" unfolding pids_ok_def f by (simp add: pid_inv_def pid_live_def below_3)
  moreover have "queue_ok ?k" unfolding queue_ok_def f s by auto
  moreover have "family_ok ?k" unfolding family_ok_def f s by auto
  ultimately show ?thesis by (simp add: sched_inv_def f)
qed

theorem initproc_exit_panics_witness:
  "trap_handler sample_env 0 13 initproc_kernel = Inl Already_Borrowed \<and>
   trap_handler sample_env 0 13 sample_kernel \<noteq> Inl Already_Borrowed"
proof -
  have "scause_cause 13 = TrapException LoadPageFault" by code_simp
  then show ?thesis
    using initproc_exit_panics [OF initproc_kernel_inv, of 0 13] initproc_exit_panics [OF sample_inv, of 1 13]
    by (simp add: initproc_kernel_def sample_fields)
qed

text \<open>
  \<open>alloc_fd\<close> gives the lowest descriptor that is free, growing the table by one entry when
  none is; all entries keep their files.
\<close>

theorem alloc_fd_lowest:
  assumes "alloc_fd t = (fd, u)"
  shows "fd < length (fd_table u) \<and> fd_table u ! fd = None \<and> (\<forall>j < fd. fd_table t ! j \<noteq> None) \<and>
    fd \<le> length (fd_table t) \<and> fd_table u = fd_table t @ (if fd = length (fd_table t) then [None] else [])"
proof (cases "find_index (\<lambda>f. f = None) (fd_table t)")
  case None
  then have "\<forall>j < length (fd_table t). fd_table t ! j \<noteq> None" by (auto simp: find_index_None)
  then show ?thesis using assms None by (auto simp: alloc_fd_def vec_push_def)
next
  case (Some i)
  then have "fd = i" "u = t" using assms by (simp_all add: alloc_fd_def)
  then show ?thesis using Some by (auto simp: find_index_Some)
qed

theorem alloc_fd_lowest_witness:
  "\<exists>u. alloc_fd (sample_task Ready []) = (1, u) \<and> fd_table u ! 1 = None \<and>
     (\<forall>j < (1 :: nat). fd_table (sample_task Ready []) ! j \<noteq> None)"
  using alloc_fd_lowest [of "sample_task Ready []" 1 "sample_task Ready []"]
  by (simp add: alloc_fd_def sample_task_def)

text \<open>
  A closed descriptor is dead: after \<open>close\<close> answered 0, closing, reading or writing it answers -1
  and changes nothing, until the slot is given out again.
\<close>

theorem closed_fd_rejected:
  assumes "sys_close fd k = Inr (0, k')"
  shows "sys_close fd k' = Inr (- 1, k') \<and> sys_read c fd buf len k' = Inr (Ret (- 1), k') \<and>
    sys_write fd buf len k' = Inr (- 1, k')"
proof -
  from assms obtain p t where "k_current k = Some p" "tasks k p = Some t" "unat fd < length (fd_table t)"
    and k': "k' = put_task p (t\<lparr>fd_table := (fd_table t)[unat fd := None]\<rparr>) k"
    by (auto simp: sys_close_def current_task_def runwrap_def task_Inr elim!: rbind_eq_InrE
        split: if_splits option.splits)
  then have "k_current k' = Some p" "tasks k' p = Some (t\<lparr>fd_table := (fd_table t)[unat fd := None]\<rparr>)"
    "\<not> length (fd_table t) \<le> unat fd" by simp_all
  then show ?thesis
    by (simp add: sys_close_def sys_read_def sys_write_def current_user_token_def current_task_def
        runwrap_def task_eq)
qed


theorem closed_fd_rejected_witness:
  "\<exists>k'. sys_close 2 sample_kernel = Inr (0, k') \<and> sys_write 2 0x1000 1 k' = Inr (- 1, k')"
proof -
  have "\<exists>k'. sys_close 2 sample_kernel = Inr (0, k')"
    by (simp add: sys_close_def current_task_def runwrap_def sample_fields task_eq sample_tasks sample_task_def)
  then obtain k' where k': "sys_close 2 sample_kernel = Inr (0, k')" by blast
  show ?thesis using closed_fd_rejected [OF k'] k' by blast
qed

end
