(* ===== verification/Virt_Queue.thy ===== *)
theory Virt_Queue
  imports Prelude "HOL-Library.Multiset"
begin

text \<open>
  The virtio transport of the \<open>virtio-drivers\<close> crate: \<open>lib.rs\<close>, \<open>hal.rs\<close>, \<open>header.rs\<close> and
  \<open>queue.rs\<close>. The registers of a device are a record with one field per register that the
  sources use; a register the device keeps per selected queue or feature word is a function of
  the selector. Queue memory shared with the device is part of the queue record: the driver
  writes the descriptors and the available ring, the device the used ring. The allocator of DMA
  memory and the translation to physical addresses, which the crate imports, are parameters.
  An error that a function returns is \<open>Inl\<close> inside its result, a panic is \<open>Inl\<close> outside.
\<close>

unbundle bit_operations_syntax

section \<open>Errors and sizes\<close>

type_synonym u16 = "16 word"
type_synonym u32 = "32 word"
type_synonym u64 = "64 word"

datatype Error = BufferTooSmall | NotReady | AlreadyUsed | InvalidParam | DmaError | IoError

definition VIRTIO_PAGE_SIZE :: usize where "VIRTIO_PAGE_SIZE = 0x1000"

definition align_up :: "usize \<Rightarrow> usize" where
  "align_up n = (n + VIRTIO_PAGE_SIZE) AND NOT (VIRTIO_PAGE_SIZE - 1)"

definition virtio_pages :: "usize \<Rightarrow> usize" where
  "virtio_pages n = (n + VIRTIO_PAGE_SIZE - 1) div VIRTIO_PAGE_SIZE"

definition is_power_of_two :: "u16 \<Rightarrow> bool" where
  "is_power_of_two w \<longleftrightarrow> list_ex (\<lambda>k. w = push_bit k 1) [0..<16]"

section \<open>DMA memory\<close>

record DMA =
  dma_paddr :: u32
  dma_pages :: u32

definition DMA_new :: "(usize \<Rightarrow> 's \<Rightarrow> (usize \<times> 's) res) \<Rightarrow> usize \<Rightarrow> 's \<Rightarrow> ((Error + DMA) \<times> 's) res" where
  "DMA_new dma_alloc n s =
     rbind (dma_alloc n s) (\<lambda>(paddr, s).
     if paddr = 0 then Inr (Inl DmaError, s)
     else Inr (Inr \<lparr>dma_paddr = ucast paddr, dma_pages = ucast n\<rparr>, s))"

definition dma_vaddr :: "(usize \<Rightarrow> usize) \<Rightarrow> DMA \<Rightarrow> usize" where
  "dma_vaddr phys_to_virt d = phys_to_virt (ucast (dma_paddr d))"

definition dma_pfn :: "DMA \<Rightarrow> u32" where
  "dma_pfn d = drop_bit 12 (dma_paddr d)"

definition DMA_drop :: "(usize \<Rightarrow> usize \<Rightarrow> 's \<Rightarrow> (u32 \<times> 's) res) \<Rightarrow> DMA \<Rightarrow> 's \<Rightarrow> 's res" where
  "DMA_drop dma_dealloc d s =
     rbind (dma_dealloc (ucast (dma_paddr d)) (ucast (dma_pages d)) s) (\<lambda>(err, s).
     rbind (rassert (err = 0)) (\<lambda>_. Inr s))"

section \<open>Device registers\<close>

record VirtIOHeader =
  magic :: u32
  version :: u32
  device_id :: u32
  vendor_id :: u32
  device_features :: "u32 \<Rightarrow> u32"
  device_features_sel :: u32
  driver_features :: "u32 \<Rightarrow> u32"
  driver_features_sel :: u32
  guest_page_size :: u32
  queue_sel :: u32
  queue_num_max :: "u32 \<Rightarrow> u32"
  queue_num :: "u32 \<Rightarrow> u32"
  queue_align :: "u32 \<Rightarrow> u32"
  queue_pfn :: "u32 \<Rightarrow> u32"
  queue_notify :: "u32 list"
  interrupt_status :: u32
  interrupt_ack :: "u32 list"
  dev_status :: u32

definition ACKNOWLEDGE :: u32 where "ACKNOWLEDGE = 1"
definition DRIVER :: u32 where "DRIVER = 2"
definition FAILED :: u32 where "FAILED = 128"
definition FEATURES_OK :: u32 where "FEATURES_OK = 8"
definition DRIVER_OK :: u32 where "DRIVER_OK = 4"
definition DEVICE_NEEDS_RESET :: u32 where "DEVICE_NEEDS_RESET = 64"

definition CONFIG_SPACE_OFFSET :: usize where "CONFIG_SPACE_OFFSET = 0x100"

datatype DeviceType =
    DT_Invalid | DT_Network | DT_Block | DT_Console | DT_EntropySource | DT_MemoryBallooning
  | DT_IoMemory | DT_Rpmsg | DT_ScsiHost | DT_9P | DT_Mac80211 | DT_RprocSerial | DT_VirtioCAIF
  | DT_MemoryBalloon | DT_GPU | DT_Timer | DT_Input | DT_Socket | DT_Crypto
  | DT_SignalDistributionModule | DT_Pstore | DT_IOMMU | DT_Memory

text \<open>The discriminants of \<open>DeviceType\<close>.\<close>

definition DeviceType_values :: "(u32 \<times> DeviceType) list" where
  "DeviceType_values =
     [(0, DT_Invalid), (1, DT_Network), (2, DT_Block), (3, DT_Console), (4, DT_EntropySource),
      (5, DT_MemoryBallooning), (6, DT_IoMemory), (7, DT_Rpmsg), (8, DT_ScsiHost), (9, DT_9P),
      (10, DT_Mac80211), (11, DT_RprocSerial), (12, DT_VirtioCAIF), (13, DT_MemoryBalloon),
      (16, DT_GPU), (17, DT_Timer), (18, DT_Input), (19, DT_Socket), (20, DT_Crypto),
      (21, DT_SignalDistributionModule), (22, DT_Pstore), (23, DT_IOMMU), (24, DT_Memory)]"

definition header_verify :: "VirtIOHeader \<Rightarrow> bool" where
  "header_verify h \<longleftrightarrow> magic h = 0x74726976 \<and> version h = 1 \<and> device_id h \<noteq> 0"

definition device_type :: "VirtIOHeader \<Rightarrow> DeviceType" where
  "device_type h =
     (let x = device_id h
      in if (1 \<le> x \<and> x \<le> 13) \<or> (16 \<le> x \<and> x \<le> 24) then the (map_of DeviceType_values x) else DT_Invalid)"

definition read_device_features :: "VirtIOHeader \<Rightarrow> u64 \<times> VirtIOHeader" where
  "read_device_features h =
     (let h = h\<lparr>device_features_sel := 0\<rparr>;
          device_features_bits = ucast (device_features h (device_features_sel h));
          h = h\<lparr>device_features_sel := 1\<rparr>;
          device_features_bits = device_features_bits + push_bit 32 (ucast (device_features h (device_features_sel h)))
      in (device_features_bits, h))"

definition write_driver_features :: "u64 \<Rightarrow> VirtIOHeader \<Rightarrow> VirtIOHeader" where
  "write_driver_features features h =
     (let h = h\<lparr>driver_features_sel := 0\<rparr>;
          h = h\<lparr>driver_features := (driver_features h)(driver_features_sel h := ucast features)\<rparr>;
          h = h\<lparr>driver_features_sel := 1\<rparr>
      in h\<lparr>driver_features := (driver_features h)(driver_features_sel h := ucast (drop_bit 32 features))\<rparr>)"

definition begin_init :: "(u64 \<Rightarrow> u64) \<Rightarrow> VirtIOHeader \<Rightarrow> VirtIOHeader" where
  "begin_init negotiate_features h =
     (let h = h\<lparr>dev_status := ACKNOWLEDGE\<rparr>;
          h = h\<lparr>dev_status := DRIVER\<rparr>;
          (features, h) = read_device_features h;
          h = write_driver_features (negotiate_features features) h;
          h = h\<lparr>dev_status := FEATURES_OK\<rparr>
      in h\<lparr>guest_page_size := ucast VIRTIO_PAGE_SIZE\<rparr>)"

definition finish_init :: "VirtIOHeader \<Rightarrow> VirtIOHeader" where
  "finish_init h = h\<lparr>dev_status := DRIVER_OK\<rparr>"

definition queue_set :: "u32 \<Rightarrow> u32 \<Rightarrow> u32 \<Rightarrow> u32 \<Rightarrow> VirtIOHeader \<Rightarrow> VirtIOHeader" where
  "queue_set queue sz align pfn h =
     (let h = h\<lparr>queue_sel := queue\<rparr>;
          h = h\<lparr>queue_num := (queue_num h)(queue_sel h := sz)\<rparr>;
          h = h\<lparr>queue_align := (queue_align h)(queue_sel h := align)\<rparr>
      in h\<lparr>queue_pfn := (queue_pfn h)(queue_sel h := pfn)\<rparr>)"

definition queue_physical_page_number :: "u32 \<Rightarrow> VirtIOHeader \<Rightarrow> u32 \<times> VirtIOHeader" where
  "queue_physical_page_number queue h =
     (let h = h\<lparr>queue_sel := queue\<rparr> in (queue_pfn h (queue_sel h), h))"

definition queue_used :: "u32 \<Rightarrow> VirtIOHeader \<Rightarrow> bool \<times> VirtIOHeader" where
  "queue_used queue h = (let (pfn, h) = queue_physical_page_number queue h in (pfn \<noteq> 0, h))"

definition max_queue_size :: "VirtIOHeader \<Rightarrow> u32" where
  "max_queue_size h = queue_num_max h (queue_sel h)"

definition notify :: "u32 \<Rightarrow> VirtIOHeader \<Rightarrow> VirtIOHeader" where
  "notify queue h = h\<lparr>queue_notify := queue_notify h @ [queue]\<rparr>"

definition header_ack_interrupt :: "VirtIOHeader \<Rightarrow> bool \<times> VirtIOHeader" where
  "header_ack_interrupt h =
     (let interrupt = interrupt_status h
      in if interrupt \<noteq> 0 then (True, h\<lparr>interrupt_ack := interrupt_ack h @ [interrupt]\<rparr>) else (False, h))"

definition config_space :: "usize \<Rightarrow> usize" where
  "config_space header_at = header_at + CONFIG_SPACE_OFFSET"


section \<open>Virtqueues\<close>

type_synonym DescFlags = u16

definition DESC_NEXT :: DescFlags where "DESC_NEXT = 1"
definition DESC_WRITE :: DescFlags where "DESC_WRITE = 2"
definition DESC_INDIRECT :: DescFlags where "DESC_INDIRECT = 4"

record Descriptor =
  d_addr :: u64
  d_len :: u32
  d_flags :: DescFlags
  d_next :: u16

record AvailRing =
  av_flags :: u16
  av_idx :: u16
  av_ring :: "u16 list"
  av_used_event :: u16

record UsedRing =
  us_flags :: u16
  us_idx :: u16
  us_ring :: "(u32 \<times> u32) list"
  us_avail_event :: u16

record VirtQueue =
  vq_dma :: DMA
  desc :: "Descriptor list"
  avail :: AvailRing
  used :: UsedRing
  queue_idx :: u32
  queue_size :: u16
  num_used :: u16
  free_head :: u16
  avail_idx :: u16
  last_used_idx :: u16

record VirtQueueLayout =
  lay_avail_offset :: usize
  lay_used_offset :: usize
  lay_size :: usize

text \<open>\<open>size_of\<close> of a descriptor is 16, of a \<open>u16\<close> 2, of a used element 8.\<close>

definition VirtQueueLayout_new :: "u16 \<Rightarrow> VirtQueueLayout res" where
  "VirtQueueLayout_new sz =
     rbind (rassert (is_power_of_two sz)) (\<lambda>_.
     let n = ucast sz :: usize;
         descs = 16 * n;
         av = 2 * (3 + n);
         us = 2 * 3 + 8 * n
     in Inr \<lparr>lay_avail_offset = descs, lay_used_offset = align_up (descs + av),
             lay_size = align_up (descs + av) + align_up us\<rparr>)"

text \<open>A buffer is the address and the length of a slice.\<close>

definition set_buf :: "(usize \<Rightarrow> usize res) \<Rightarrow> usize \<times> usize \<Rightarrow> Descriptor \<Rightarrow> Descriptor res" where
  "set_buf virt_to_phys buf d =
     rbind (virt_to_phys (fst buf)) (\<lambda>pa. Inr (d\<lparr>d_addr := pa, d_len := ucast (snd buf)\<rparr>))"

definition link_descriptors :: "u16 \<Rightarrow> Descriptor list \<Rightarrow> Descriptor list" where
  "link_descriptors sz ds =
     foldl (\<lambda>ds i. ds[i := (ds ! i)\<lparr>d_next := of_nat i + 1\<rparr>]) ds [0..<unat (sz - 1)]"

text \<open>\<open>contents\<close> is what the pages of the new queue hold.\<close>

definition VirtQueue_new ::
  "(usize \<Rightarrow> 's \<Rightarrow> (usize \<times> 's) res) \<Rightarrow> Descriptor list \<times> AvailRing \<times> UsedRing \<Rightarrow> usize \<Rightarrow> u16 \<Rightarrow>
   VirtIOHeader \<Rightarrow> 's \<Rightarrow> ((Error + VirtQueue) \<times> VirtIOHeader \<times> 's) res" where
  "VirtQueue_new dma_alloc contents idx sz h s =
     (let (used_before, h) = queue_used (ucast idx) h
      in if used_before then Inr (Inl AlreadyUsed, h, s)
         else if \<not> is_power_of_two sz \<or> max_queue_size h < ucast sz then Inr (Inl InvalidParam, h, s)
         else rbind (VirtQueueLayout_new sz) (\<lambda>layout.
              rbind (DMA_new dma_alloc (lay_size layout div VIRTIO_PAGE_SIZE) s) (\<lambda>(r, s).
                case r of
                  Inl e \<Rightarrow> Inr (Inl e, h, s)
                | Inr dma \<Rightarrow>
                    let h = queue_set (ucast idx) (ucast sz) (ucast VIRTIO_PAGE_SIZE) (dma_pfn dma) h;
                        (ds, av, us) = contents
                    in Inr (Inr \<lparr>vq_dma = dma, desc = link_descriptors sz (take (unat sz) ds), avail = av, used = us,
                                queue_idx = ucast idx, queue_size = sz, num_used = 0, free_head = 0,
                                avail_idx = 0, last_used_idx = 0\<rparr>, h, s))))"

definition add_one ::
  "(usize \<Rightarrow> usize res) \<Rightarrow> DescFlags \<Rightarrow> usize \<times> usize \<Rightarrow> u16 \<times> VirtQueue \<Rightarrow> (u16 \<times> VirtQueue) res" where
  "add_one virt_to_phys flags buf = (\<lambda>(last_idx, q).
     rbind (vec_at (desc q) (unat (free_head q))) (\<lambda>d.
     rbind (set_buf virt_to_phys buf d) (\<lambda>d.
     let d = d\<lparr>d_flags := flags\<rparr>
     in Inr (free_head q, q\<lparr>desc := (desc q)[unat (free_head q) := d], free_head := d_next d\<rparr>))))"

definition vq_add ::
  "(usize \<Rightarrow> usize res) \<Rightarrow> (usize \<times> usize) list \<Rightarrow> (usize \<times> usize) list \<Rightarrow> VirtQueue \<Rightarrow>
   ((Error + u16) \<times> VirtQueue) res" where
  "vq_add virt_to_phys inputs outputs q =
     (if inputs = [] \<and> outputs = [] then Inr (Inl InvalidParam, q)
      else if length inputs + length outputs + unat (num_used q) > unat (queue_size q)
      then Inr (Inl BufferTooSmall, q)
      else
        let head = free_head q
        in rbind (rfold (add_one virt_to_phys DESC_NEXT) inputs (head, q)) (\<lambda>st.
           rbind (rfold (add_one virt_to_phys (DESC_NEXT OR DESC_WRITE)) outputs st) (\<lambda>(last_idx, q).
           rbind (vec_at (desc q) (unat last_idx)) (\<lambda>d.
           let q = q\<lparr>desc := (desc q)[unat last_idx := d\<lparr>d_flags := d_flags d AND NOT DESC_NEXT\<rparr>]\<rparr>;
               q = q\<lparr>num_used := num_used q + of_nat (length inputs + length outputs)\<rparr>;
               avail_slot = avail_idx q AND (queue_size q - 1)
           in rbind (vec_at (av_ring (avail q)) (unat avail_slot)) (\<lambda>_.
              let q = q\<lparr>avail := (avail q)\<lparr>av_ring := (av_ring (avail q))[unat avail_slot := head]\<rparr>\<rparr>;
                  q = q\<lparr>avail_idx := avail_idx q + 1\<rparr>;
                  q = q\<lparr>avail := (avail q)\<lparr>av_idx := avail_idx q\<rparr>\<rparr>
              in Inr (Inr head, q))))))"

definition can_pop :: "VirtQueue \<Rightarrow> bool" where
  "can_pop q \<longleftrightarrow> last_used_idx q \<noteq> us_idx (used q)"

definition available_desc :: "VirtQueue \<Rightarrow> usize" where
  "available_desc q = ucast (queue_size q - num_used q)"

definition has_next :: "Descriptor \<Rightarrow> bool" where
  "has_next d \<longleftrightarrow> d_flags d AND DESC_NEXT = DESC_NEXT"

text \<open>The loop of \<open>recycle_descriptors\<close>; \<open>None\<close> is a loop that does not end.\<close>

partial_function (option) recycle_loop :: "u16 \<Rightarrow> u16 \<Rightarrow> VirtQueue \<Rightarrow> VirtQueue res option" where
  "recycle_loop origin_free_head head q =
     (case vec_at (desc q) (unat head) of
        Inl e \<Rightarrow> Some (Inl e)
      | Inr d \<Rightarrow>
          let q = q\<lparr>num_used := num_used q - 1\<rparr>
          in if has_next d then recycle_loop origin_free_head (d_next d) q
             else Some (Inr (q\<lparr>desc := (desc q)[unat head := d\<lparr>d_next := origin_free_head\<rparr>]\<rparr>)))"

definition recycle_descriptors :: "u16 \<Rightarrow> VirtQueue \<Rightarrow> VirtQueue res option" where
  "recycle_descriptors head q = recycle_loop (free_head q) head (q\<lparr>free_head := head\<rparr>)"

definition vq_pop_used :: "VirtQueue \<Rightarrow> ((Error + u16 \<times> u32) \<times> VirtQueue) res option" where
  "vq_pop_used q =
     (if \<not> can_pop q then Some (Inr (Inl NotReady, q))
      else
        let last_used_slot = last_used_idx q AND (queue_size q - 1)
        in case vec_at (us_ring (used q)) (unat last_used_slot) of
             Inl e \<Rightarrow> Some (Inl e)
           | Inr (elem_id, len) \<Rightarrow>
               let index = ucast elem_id
               in map_option (\<lambda>r. rbind (r :: VirtQueue res) (\<lambda>q.
                    Inr (Inr (index, len), q\<lparr>last_used_idx := last_used_idx q + 1\<rparr>)))
                    (recycle_descriptors index q))"

section \<open>Free list and outstanding chains\<close>

text \<open>
  The abstract state of a queue is the list of its free descriptors and the chains that the
  device holds. \<open>linked\<close>: each descriptor points to the following one. \<open>chained\<close>: moreover the
  flag \<open>NEXT\<close> is set on all but the last.
\<close>

fun linked :: "Descriptor list \<Rightarrow> nat list \<Rightarrow> bool" where
  "linked ds (x # y # zs) \<longleftrightarrow> unat (d_next (ds ! x)) = y \<and> linked ds (y # zs)"
| "linked ds xs \<longleftrightarrow> True"

fun chained :: "Descriptor list \<Rightarrow> nat list \<Rightarrow> bool" where
  "chained ds [] \<longleftrightarrow> False"
| "chained ds [x] \<longleftrightarrow> \<not> has_next (ds ! x)"
| "chained ds (x # y # zs) \<longleftrightarrow> has_next (ds ! x) \<and> unat (d_next (ds ! x)) = y \<and> chained ds (y # zs)"

definition vq_shape :: "VirtQueue \<Rightarrow> bool" where
  "vq_shape q \<longleftrightarrow> is_power_of_two (queue_size q) \<and> length (desc q) = unat (queue_size q) \<and>
     length (av_ring (avail q)) = 32 \<and> length (us_ring (used q)) = 32"

definition vq_inv :: "nat list \<Rightarrow> nat list list \<Rightarrow> VirtQueue \<Rightarrow> bool" where
  "vq_inv fr cs q \<longleftrightarrow> vq_shape q \<and> unat (queue_size q) \<le> 32 \<and>
     distinct (fr @ concat cs) \<and> set (fr @ concat cs) = {..<unat (queue_size q)} \<and>
     unat (num_used q) = length (concat cs) \<and> (fr \<noteq> [] \<longrightarrow> unat (free_head q) = hd fr) \<and>
     linked (desc q) fr \<and> (\<forall>c \<in> set cs. chained (desc q) c)"

lemma linked_Cons: "linked ds (x # xs) \<longleftrightarrow> (xs \<noteq> [] \<longrightarrow> unat (d_next (ds ! x)) = hd xs) \<and> linked ds xs"
  by (cases xs) auto

lemma linked_cong:
  "(\<And>x. x \<in> set xs \<Longrightarrow> d_next (ds ! x) = d_next (ds' ! x)) \<Longrightarrow> linked ds xs = linked ds' xs"
  by (induction xs) (auto simp: linked_Cons)

lemma chained_Cons: "chained ds (x # xs) \<longleftrightarrow>
    (if xs = [] then \<not> has_next (ds ! x) else has_next (ds ! x) \<and> unat (d_next (ds ! x)) = hd xs \<and> chained ds xs)"
  by (cases xs) auto

lemma chained_cong: "(\<And>x. x \<in> set xs \<Longrightarrow> ds ! x = ds' ! x) \<Longrightarrow> chained ds xs = chained ds' xs"
  by (induction xs) (simp_all add: chained_Cons)

lemma linked_append:
  "linked ds (xs @ ys) \<longleftrightarrow>
    linked ds xs \<and> linked ds ys \<and> (xs \<noteq> [] \<and> ys \<noteq> [] \<longrightarrow> unat (d_next (ds ! last xs)) = hd ys)"
proof (induction xs)
  case (Cons x xs)
  then show ?case by (cases xs) (simp_all add: linked_Cons conj_ac)
qed simp

lemma chained_linked: "chained ds xs \<Longrightarrow> linked ds xs \<and> xs \<noteq> []"
  by (induction ds xs rule: chained.induct) auto


lemma chained_alt: "chained ds xs \<longleftrightarrow>
    xs \<noteq> [] \<and> linked ds xs \<and> (\<forall>x \<in> set (butlast xs). has_next (ds ! x)) \<and> \<not> has_next (ds ! last xs)"
  by (induction ds xs rule: chained.induct) auto

section \<open>Adding buffers\<close>

text \<open>The descriptors \<open>xs\<close> after they were given the buffers \<open>bs\<close>.\<close>

fun fill ::
  "(usize \<Rightarrow> usize) \<Rightarrow> DescFlags \<Rightarrow> nat list \<Rightarrow> (usize \<times> usize) list \<Rightarrow> Descriptor list \<Rightarrow> Descriptor list" where
  "fill pa fl (x # xs) (b # bs) ds =
     fill pa fl xs bs (ds[x := (ds ! x)\<lparr>d_addr := pa (fst b), d_len := ucast (snd b), d_flags := fl\<rparr>])"
| "fill pa fl xs bs ds = ds"

lemma length_fill [simp]: "length (fill pa fl xs bs ds) = length ds"
  by (induction pa fl xs bs ds rule: fill.induct) auto

lemma fill_other: "i \<notin> set (take (length bs) xs) \<Longrightarrow> fill pa fl xs bs ds ! i = ds ! i"
  by (induction pa fl xs bs ds rule: fill.induct) auto

lemma fill_next [simp]: "i < length ds \<Longrightarrow> d_next (fill pa fl xs bs ds ! i) = d_next (ds ! i)"
proof (induction pa fl xs bs ds rule: fill.induct)
  case (1 pa fl x xs b bs ds)
  then show ?case by (cases "i = x") auto
qed auto

lemma fill_at:
  assumes "distinct xs" and "j < length bs" and "length bs \<le> length xs" and "\<forall>x \<in> set xs. x < length ds"
  shows "fill pa fl xs bs ds ! (xs ! j) =
    (ds ! (xs ! j))\<lparr>d_addr := pa (fst (bs ! j)), d_len := ucast (snd (bs ! j)), d_flags := fl\<rparr>"
  using assms
proof (induction pa fl xs bs ds arbitrary: j rule: fill.induct)
  case (1 pa fl x xs b bs ds)
  show ?case
  proof (cases j)
    case 0
    have "x \<notin> set (take (length bs) xs)" using 1(2) in_set_takeD by fastforce
    then show ?thesis using 0 1(5) by (simp add: fill_other)
  next
    case (Suc i)
    then have "xs ! i \<in> set xs" using 1(3,4) by simp
    then have "x \<noteq> xs ! i" using 1(2) by auto
    then show ?thesis using Suc 1 by simp
  qed
qed auto

lemma add_one_Inr:
  assumes "unat (free_head q) = x" and "x < length (desc q)" and "v2p (fst b) = Inr (pa (fst b))"
  shows "add_one v2p fl b (l, q) = Inr (free_head q,
    q\<lparr>desc := fill pa fl [x] [b] (desc q), free_head := d_next (desc q ! x)\<rparr>)"
  unfolding add_one_def set_buf_def by (simp add: vec_at_def assms)

lemma rfold_add_one:
  assumes "\<forall>b \<in> set bs. v2p (fst b) = Inr (pa (fst b))" and "length bs \<le> length fr" and "linked (desc q) fr"
    and "distinct fr" and "\<forall>x \<in> set fr. x < length (desc q)" and "fr \<noteq> [] \<longrightarrow> unat (free_head q) = hd fr"
  shows "\<exists>l' fh. rfold (add_one v2p fl) bs (l, q) = Inr (l', q\<lparr>desc := fill pa fl fr bs (desc q), free_head := fh\<rparr>) \<and>
    (if bs = [] then l' = l \<and> fh = free_head q else unat l' = fr ! (length bs - 1)) \<and>
    (length bs < length fr \<longrightarrow> unat fh = fr ! length bs)"
  using assms
proof (induction bs arbitrary: fr q l)
  case Nil
  have "unat (free_head q) = fr ! 0" if "fr \<noteq> []" using Nil.prems(6) that by (simp add: hd_conv_nth)
  then show ?case by (intro exI [of _ l] exI [of _ "free_head q"]) simp
next
  case (Cons b bs)
  then obtain x xs where fr: "fr = x # xs" by (cases fr) auto
  let ?q = "q\<lparr>desc := fill pa fl [x] [b] (desc q), free_head := d_next (desc q ! x)\<rparr>"
  have x: "unat (free_head q) = x" "x < length (desc q)" using Cons.prems by (auto simp: fr)
  have step: "add_one v2p fl b (l, q) = Inr (free_head q, ?q)"
    using Cons.prems(1) by (intro add_one_Inr x) simp
  have lk: "linked (desc q) xs" "xs \<noteq> [] \<longrightarrow> unat (d_next (desc q ! x)) = hd xs"
    using Cons.prems(3) by (simp_all add: fr linked_Cons)
  have "linked (desc ?q) xs = linked (desc q) xs"
    by (rule linked_cong) (use Cons.prems(5) in \<open>auto simp: fr simp del: fill.simps\<close>)
  then have "\<exists>l' fh. rfold (add_one v2p fl) bs (free_head q, ?q) =
      Inr (l', ?q\<lparr>desc := fill pa fl xs bs (desc ?q), free_head := fh\<rparr>) \<and>
      (if bs = [] then l' = free_head q \<and> fh = free_head ?q else unat l' = xs ! (length bs - 1)) \<and>
      (length bs < length xs \<longrightarrow> unat fh = xs ! length bs)"
    using Cons.prems lk by (intro Cons.IH) (auto simp: fr)
  then obtain l' fh where r: "rfold (add_one v2p fl) bs (free_head q, ?q) =
      Inr (l', ?q\<lparr>desc := fill pa fl xs bs (desc ?q), free_head := fh\<rparr>)"
      "if bs = [] then l' = free_head q \<and> fh = free_head ?q else unat l' = xs ! (length bs - 1)"
      "length bs < length xs \<longrightarrow> unat fh = xs ! length bs" by blast
  have "unat l' = fr ! length bs" using r(2) x(1) by (cases bs) (auto simp: fr)
  then show ?case using step r by (intro exI [of _ l'] exI [of _ fh]) (simp add: fr)
qed


text \<open>The descriptors after \<open>add\<close>; \<open>fr\<close> is the free list before.\<close>

definition added ::
  "(usize \<Rightarrow> usize) \<Rightarrow> (usize \<times> usize) list \<Rightarrow> (usize \<times> usize) list \<Rightarrow> nat list \<Rightarrow> Descriptor list \<Rightarrow> Descriptor list" where
  "added pa ins outs fr ds =
     (let ds = fill pa DESC_NEXT fr ins ds;
          ds = fill pa (DESC_NEXT OR DESC_WRITE) (drop (length ins) fr) outs ds;
          x = fr ! (length ins + length outs - 1)
      in ds[x := (ds ! x)\<lparr>d_flags := d_flags (ds ! x) AND NOT DESC_NEXT\<rparr>])"

lemma length_added [simp]: "length (added pa ins outs fr ds) = length ds"
  by (simp add: added_def Let_def)

lemma added_next: "i < length ds \<Longrightarrow> d_next (added pa ins outs fr ds ! i) = d_next (ds ! i)"
  by (simp add: added_def Let_def nth_update_at)

lemma added_other:
  assumes "i \<notin> set (take (length ins + length outs) fr)" and "0 < length ins + length outs"
    and "length ins + length outs \<le> length fr"
  shows "added pa ins outs fr ds ! i = ds ! i"
proof -
  have t: "take (length ins + length outs) fr = take (length ins) fr @ take (length outs) (drop (length ins) fr)"
    by (rule take_add)
  have "fr ! (length ins + length outs - 1) \<in> set (take (length ins + length outs) fr)"
    using assms(2,3) by (auto simp: in_set_conv_nth intro!: exI [of _ "length ins + length outs - 1"])
  then show ?thesis using assms(1) unfolding t
    by (auto simp: added_def Let_def fill_other nth_update_at)
qed

lemma added_at:
  assumes d: "distinct fr" and r: "\<forall>x \<in> set fr. x < length ds" and le: "length ins + length outs \<le> length fr"
    and j: "j < length ins + length outs"
  shows "added pa ins outs fr ds ! (fr ! j) =
    (ds ! (fr ! j))\<lparr>d_addr := pa (fst ((ins @ outs) ! j)), d_len := ucast (snd ((ins @ outs) ! j)),
      d_flags := (if j < length ins then 0 else DESC_WRITE) OR (if Suc j < length ins + length outs then DESC_NEXT else 0)\<rparr>"
proof -
  let ?m = "length ins + length outs" and ?b = "(ins @ outs) ! j"
  let ?d1 = "fill pa DESC_NEXT fr ins ds"
  let ?d2 = "fill pa (DESC_NEXT OR DESC_WRITE) (drop (length ins) fr) outs ?d1"
  have d2: "?d2 ! (fr ! j) = (ds ! (fr ! j))\<lparr>d_addr := pa (fst ?b), d_len := ucast (snd ?b),
      d_flags := (if j < length ins then DESC_NEXT else DESC_NEXT OR DESC_WRITE)\<rparr>"
  proof (cases "j < length ins")
    case True
    have "fr ! j \<notin> set (drop (length ins) fr)"
      using d True le by (auto simp: in_set_conv_nth nth_eq_iff_index_eq)
    then have "?d2 ! (fr ! j) = ?d1 ! (fr ! j)" by (intro fill_other) (auto dest: in_set_takeD)
    then show ?thesis using fill_at [OF d True _ r, of pa DESC_NEXT] True le by (simp add: nth_append)
  next
    case False
    define i where "i = j - length ins"
    have i: "j = length ins + i" "i < length outs" using False j by (simp_all add: i_def)
    have x: "drop (length ins) fr ! i = fr ! j" using i le by simp
    have "fr ! j \<notin> set (take (length ins) fr)"
      using d False le j by (auto simp: in_set_conv_nth nth_eq_iff_index_eq)
    then have "?d1 ! (fr ! j) = ds ! (fr ! j)" by (rule fill_other)
    moreover have "\<forall>x \<in> set (drop (length ins) fr). x < length ?d1" using r by (auto dest: in_set_dropD)
    ultimately show ?thesis
      using fill_at [of "drop (length ins) fr" i outs ?d1 pa "DESC_NEXT OR DESC_WRITE"] d le i False
      unfolding x by (simp add: nth_append)
  qed
  have eq: "fr ! j = fr ! (?m - 1) \<longleftrightarrow> \<not> Suc j < ?m"
    using d le j by (simp add: nth_eq_iff_index_eq) linarith
  have "fr ! j < length ds" using r j le by auto
  then show ?thesis using eq d2
    by (auto simp: added_def Let_def nth_update_at DESC_NEXT_def DESC_WRITE_def)
qed


lemma slot_less:
  assumes "queue_size q \<noteq> 0"
  shows "unat (i AND (queue_size q - 1)) < unat (queue_size q)"
proof -
  have "unat (i AND (queue_size q - 1)) \<le> unat (queue_size q - 1)"
    using word_and_le1 [of i "queue_size q - 1"] by (simp add: word_le_nat_alt)
  moreover have "unat (queue_size q - 1) < unat (queue_size q)"
    using assms by (simp add: unat_gt_0 unat_minus_one)
  ultimately show ?thesis by linarith
qed

lemma power_of_two_values:
  "is_power_of_two w \<longleftrightarrow> w \<in> set [1, 2, 4, 8, 16, 32, 64, 128, 256, 512, 1024, 2048, 4096, 8192, 16384, 32768]"
proof -
  have powers: "map (\<lambda>k. push_bit k 1 :: u16) [0..<16] =
      [1, 2, 4, 8, 16, 32, 64, 128, 256, 512, 1024, 2048, 4096, 8192, 16384, 32768]" by code_simp
  have "is_power_of_two w \<longleftrightarrow> w \<in> set (map (\<lambda>k. push_bit k 1) [0..<16])"
    unfolding is_power_of_two_def list_ex_iff set_map by blast
  then show ?thesis unfolding powers .
qed

lemma power_of_two_nonzero: "is_power_of_two w \<Longrightarrow> w \<noteq> 0"
  by (auto simp: power_of_two_values)

lemma vq_free_count:
  assumes "vq_inv fr cs q"
  shows "length fr + unat (num_used q) = unat (queue_size q)"
proof -
  have d: "distinct (fr @ concat cs)" and s: "set (fr @ concat cs) = {..<unat (queue_size q)}"
    using assms unfolding vq_inv_def by blast+
  have "length (fr @ concat cs) = unat (queue_size q)" using distinct_card [OF d] unfolding s by simp
  then show ?thesis using assms by (simp add: vq_inv_def)
qed

lemma vq_add_chain:
  assumes sh: "length (desc q) = unat (queue_size q)"
    and fr: "linked (desc q) fr" "distinct fr" "\<forall>x \<in> set fr. x < length (desc q)" "fr \<noteq> [] \<longrightarrow> unat (free_head q) = hd fr"
    and v: "\<forall>b \<in> set (ins @ outs). v2p (fst b) = Inr (pa (fst b))"
    and m: "0 < length ins + length outs" "length ins + length outs \<le> length fr"
  shows "\<exists>l fh. rbind (rfold (add_one v2p DESC_NEXT) ins (free_head q, q))
      (rfold (add_one v2p (DESC_NEXT OR DESC_WRITE)) outs) =
    Inr (l, q\<lparr>desc := fill pa (DESC_NEXT OR DESC_WRITE) (drop (length ins) fr) outs (fill pa DESC_NEXT fr ins (desc q)),
      free_head := fh\<rparr>) \<and> unat l = fr ! (length ins + length outs - 1) \<and>
    (length ins + length outs < length fr \<longrightarrow> unat fh = fr ! (length ins + length outs))"
proof -
  have v1: "\<forall>b \<in> set ins. v2p (fst b) = Inr (pa (fst b))" "\<forall>b \<in> set outs. v2p (fst b) = Inr (pa (fst b))"
    using v by auto
  have le: "length ins \<le> length fr" using m by simp
  obtain l1 fh1 where 1: "rfold (add_one v2p DESC_NEXT) ins (free_head q, q) =
      Inr (l1, q\<lparr>desc := fill pa DESC_NEXT fr ins (desc q), free_head := fh1\<rparr>)"
      "if ins = [] then l1 = free_head q \<and> fh1 = free_head q else unat l1 = fr ! (length ins - 1)"
      "length ins < length fr \<longrightarrow> unat fh1 = fr ! length ins"
    using rfold_add_one [OF v1(1) le fr, of DESC_NEXT "free_head q"] by (elim exE conjE) (rule that)
  let ?q = "q\<lparr>desc := fill pa DESC_NEXT fr ins (desc q), free_head := fh1\<rparr>" and ?fr = "drop (length ins) fr"
  have "linked (desc ?q) fr = linked (desc q) fr" using fr(3) by (intro linked_cong) simp
  then have "linked (desc ?q) ?fr"
    using fr(1) linked_append [of "desc ?q" "take (length ins) fr" ?fr] by simp
  moreover have "\<forall>x \<in> set ?fr. x < length (desc ?q)" using fr(3) by (auto dest: in_set_dropD)
  moreover have "?fr \<noteq> [] \<longrightarrow> unat (free_head ?q) = hd ?fr" using 1(3) by (simp add: hd_drop_conv_nth)
  moreover have "length outs \<le> length ?fr" "distinct ?fr" using m fr(2) by simp_all
  ultimately have "\<exists>l2 fh2. rfold (add_one v2p (DESC_NEXT OR DESC_WRITE)) outs (l1, ?q) =
      Inr (l2, ?q\<lparr>desc := fill pa (DESC_NEXT OR DESC_WRITE) ?fr outs (desc ?q), free_head := fh2\<rparr>) \<and>
      (if outs = [] then l2 = l1 \<and> fh2 = free_head ?q else unat l2 = ?fr ! (length outs - 1)) \<and>
      (length outs < length ?fr \<longrightarrow> unat fh2 = ?fr ! length outs)"
    by (intro rfold_add_one v1(2))
  then obtain l2 fh2 where 2: "rfold (add_one v2p (DESC_NEXT OR DESC_WRITE)) outs (l1, ?q) =
      Inr (l2, ?q\<lparr>desc := fill pa (DESC_NEXT OR DESC_WRITE) ?fr outs (desc ?q), free_head := fh2\<rparr>)"
      "if outs = [] then l2 = l1 \<and> fh2 = free_head ?q else unat l2 = ?fr ! (length outs - 1)"
      "length outs < length ?fr \<longrightarrow> unat fh2 = ?fr ! length outs"
    by (elim exE conjE) (rule that)
  have "unat l2 = fr ! (length ins + length outs - 1)"
  proof (cases outs)
    case Nil
    then show ?thesis using 1(2) 2(2) m by (auto split: if_splits)
  next
    case (Cons b bs)
    then show ?thesis using 2(2) m by simp
  qed
  then show ?thesis using 1(1) 2 m by (intro exI [of _ l2] exI [of _ fh2]) simp
qed

text \<open>One \<open>add\<close> on a queue of any size whose free list is \<open>fr\<close>, as long as the ring has the slot.\<close>

lemma vq_add_run:
  assumes sh: "length (desc q) = unat (queue_size q)"
    and fr: "linked (desc q) fr" "distinct fr" "\<forall>x \<in> set fr. x < length (desc q)" "fr \<noteq> [] \<longrightarrow> unat (free_head q) = hd fr"
    and count: "length fr + unat (num_used q) = unat (queue_size q)"
    and slot: "unat (avail_idx q AND (queue_size q - 1)) < length (av_ring (avail q))"
    and v: "\<forall>b \<in> set (ins @ outs). v2p (fst b) = Inr (pa (fst b))"
    and m: "0 < length ins + length outs" "length ins + length outs \<le> length fr"
  obtains fh where "vq_add v2p ins outs q = Inr (Inr (free_head q),
      q\<lparr>desc := added pa ins outs fr (desc q), free_head := fh,
        num_used := num_used q + of_nat (length ins + length outs),
        avail := (avail q)\<lparr>av_ring := (av_ring (avail q))[unat (avail_idx q AND (queue_size q - 1)) := free_head q],
          av_idx := avail_idx q + 1\<rparr>,
        avail_idx := avail_idx q + 1\<rparr>)"
    "length ins + length outs < length fr \<longrightarrow> unat fh = fr ! (length ins + length outs)"
proof -
  obtain l fh where r: "rbind (rfold (add_one v2p DESC_NEXT) ins (free_head q, q))
      (rfold (add_one v2p (DESC_NEXT OR DESC_WRITE)) outs) =
    Inr (l, q\<lparr>desc := fill pa (DESC_NEXT OR DESC_WRITE) (drop (length ins) fr) outs (fill pa DESC_NEXT fr ins (desc q)),
      free_head := fh\<rparr>)" and l: "unat l = fr ! (length ins + length outs - 1)"
    and fh: "length ins + length outs < length fr \<longrightarrow> unat fh = fr ! (length ins + length outs)"
    using vq_add_chain [OF sh fr v m] by blast
  have small: "\<not> unat (queue_size q) < length ins + length outs + unat (num_used q)"
    using count m by linarith
  have "length ins + length outs - 1 < length fr" using m by linarith
  then have lx: "unat l < length (desc q)" using l fr(3) nth_mem by metis
  have ne: "\<not> (ins = [] \<and> outs = [])" using m by auto
  have "vq_add v2p ins outs q = rbind (rbind (rfold (add_one v2p DESC_NEXT) ins (free_head q, q))
      (rfold (add_one v2p (DESC_NEXT OR DESC_WRITE)) outs)) (\<lambda>(last_idx, q'). 
           rbind (vec_at (desc q') (unat last_idx)) (\<lambda>d.
           let q' = q'\<lparr>desc := (desc q')[unat last_idx := d\<lparr>d_flags := d_flags d AND NOT DESC_NEXT\<rparr>]\<rparr>;
               q' = q'\<lparr>num_used := num_used q' + of_nat (length ins + length outs)\<rparr>;
               avail_slot = avail_idx q' AND (queue_size q' - 1)
           in rbind (vec_at (av_ring (avail q')) (unat avail_slot)) (\<lambda>_.
              let q' = q'\<lparr>avail := (avail q')\<lparr>av_ring := (av_ring (avail q'))[unat avail_slot := free_head q]\<rparr>\<rparr>;
                  q' = q'\<lparr>avail_idx := avail_idx q' + 1\<rparr>;
                  q' = q'\<lparr>avail := (avail q')\<lparr>av_idx := avail_idx q'\<rparr>\<rparr>
              in Inr (Inr (free_head q), q'))))"
    unfolding vq_add_def Let_def rbind_assoc if_not_P [OF ne] if_not_P [OF small] by (rule refl)
  then have "vq_add v2p ins outs q = Inr (Inr (free_head q),
      q\<lparr>desc := added pa ins outs fr (desc q), free_head := fh,
        num_used := num_used q + of_nat (length ins + length outs),
        avail := (avail q)\<lparr>av_ring := (av_ring (avail q))[unat (avail_idx q AND (queue_size q - 1)) := free_head q],
          av_idx := avail_idx q + 1\<rparr>,
        avail_idx := avail_idx q + 1\<rparr>)"
    unfolding r by (simp add: vec_at_def lx [unfolded l sh] slot sh l added_def Let_def del: One_nat_def)
  with fh show ?thesis by (rule that [rotated])
qed

lemma vq_add_eq:
  assumes inv: "vq_inv fr cs q" and v: "\<forall>b \<in> set (ins @ outs). v2p (fst b) = Inr (pa (fst b))"
    and m: "0 < length ins + length outs" "length ins + length outs \<le> length fr"
  obtains fh where "vq_add v2p ins outs q = Inr (Inr (free_head q),
      q\<lparr>desc := added pa ins outs fr (desc q), free_head := fh,
        num_used := num_used q + of_nat (length ins + length outs),
        avail := (avail q)\<lparr>av_ring := (av_ring (avail q))[unat (avail_idx q AND (queue_size q - 1)) := free_head q],
          av_idx := avail_idx q + 1\<rparr>,
        avail_idx := avail_idx q + 1\<rparr>)"
    "length ins + length outs < length fr \<longrightarrow> unat fh = fr ! (length ins + length outs)"
proof -
  have sh: "length (desc q) = unat (queue_size q)" "length (av_ring (avail q)) = 32" "queue_size q \<noteq> 0"
    using inv power_of_two_nonzero by (auto simp: vq_inv_def vq_shape_def)
  have fr: "linked (desc q) fr" "distinct fr" "\<forall>x \<in> set fr. x < length (desc q)" "fr \<noteq> [] \<longrightarrow> unat (free_head q) = hd fr"
    using inv sh by (auto simp: vq_inv_def)
  have "unat (avail_idx q AND (queue_size q - 1)) < length (av_ring (avail q))"
    using slot_less [OF sh(3), of "avail_idx q"] inv sh(2) by (simp add: vq_inv_def)
  then show ?thesis by (rule vq_add_run [OF sh(1) fr vq_free_count [OF inv] _ v m]) (rule that)
qed


text \<open>The new abstract state: the front of the free list becomes a chain.\<close>

lemma vq_add_inv:
  assumes inv: "vq_inv fr cs q" and v: "\<forall>b \<in> set (ins @ outs). v2p (fst b) = Inr (pa (fst b))"
    and m: "0 < m" "m \<le> length fr" "m = length ins + length outs"
    and q': "q' = q\<lparr>desc := added pa ins outs fr (desc q), free_head := fh, num_used := num_used q + of_nat m,
        avail := (avail q)\<lparr>av_ring := (av_ring (avail q))[i := h], av_idx := j\<rparr>, avail_idx := k\<rparr>"
    and fh: "m < length fr \<longrightarrow> unat fh = fr ! m"
  shows "vq_inv (drop m fr) (take m fr # cs) q'"
proof -
  let ?n = "unat (queue_size q)" and ?ds = "added pa ins outs fr (desc q)"
  have i: "vq_shape q" "?n \<le> 32" "distinct (fr @ concat cs)" "set (fr @ concat cs) = {..<?n}"
    "unat (num_used q) = length (concat cs)" "linked (desc q) fr" "\<forall>c \<in> set cs. chained (desc q) c"
    using inv unfolding vq_inv_def by blast+
  have len: "length (desc q) = ?n" using i(1) by (simp add: vq_shape_def)
  have fr: "distinct fr" "\<forall>x \<in> set fr. x < length (desc q)" using i(3,4) len by auto
  have split: "fr = take m fr @ drop m fr" by simp
  have lk: "linked ?ds fr" using i(6) linked_cong [of fr ?ds "desc q"] fr(2) added_next by metis
  have lk2: "linked ?ds (take m fr)" "linked ?ds (drop m fr)"
    using lk linked_append [of ?ds "take m fr" "drop m fr"] by simp_all
  have at: "?ds ! (fr ! a) = (desc q ! (fr ! a))\<lparr>d_addr := pa (fst ((ins @ outs) ! a)),
      d_len := ucast (snd ((ins @ outs) ! a)), d_flags := (if a < length ins then 0 else DESC_WRITE) OR
      (if Suc a < m then DESC_NEXT else 0)\<rparr>" if "a < m" for a
    using added_at [OF fr, of ins outs a pa] m that by simp
  have hn: "has_next (?ds ! (fr ! a)) \<longleftrightarrow> Suc a < m" if "a < m" for a
    unfolding at [OF that] by (simp add: has_next_def DESC_NEXT_def DESC_WRITE_def)
  have "chained ?ds (take m fr)"
  proof -
    have "has_next (?ds ! x)" if "x \<in> set (butlast (take m fr))" for x
    proof -
      from that obtain a where "a < m - 1" "x = fr ! a" using m by (auto simp: in_set_conv_nth nth_butlast)
      then show ?thesis using hn [of a] by simp
    qed
    moreover have "last (take m fr) = fr ! (m - 1)" using m(1,2) by (subst last_conv_nth) auto
    then have "\<not> has_next (?ds ! last (take m fr))" using hn [of "m - 1"] m(1) by simp
    moreover have "take m fr \<noteq> []" using m(1,2) by auto
    ultimately show ?thesis unfolding chained_alt using lk2(1) by blast
  qed
  moreover have "chained ?ds c" if c: "c \<in> set cs" for c
  proof -
    have "x \<notin> set (take m fr)" if "x \<in> set c" for x using i(3) c that by (auto dest: in_set_takeD)
    then have "chained ?ds c = chained (desc q) c"
      using added_other m by (intro chained_cong) metis
    then show ?thesis using i(7) c by blast
  qed
  moreover have "unat (num_used q + of_nat m) = m + length (concat cs)"
  proof -
    have "m + unat (num_used q) \<le> 32" using vq_free_count [OF inv] m(2) i(2) by linarith
    then show ?thesis using i(5) by (simp add: unat_word_ariths unat_of_nat)
  qed
  moreover have "unat fh = hd (drop m fr)" if "drop m fr \<noteq> []" using fh that by (simp add: hd_drop_conv_nth)
  moreover have "distinct (drop m fr @ concat (take m fr # cs))" "set (drop m fr @ concat (take m fr # cs)) = {..<?n}"
  proof -
    have "mset (drop m fr @ concat (take m fr # cs)) = mset (fr @ concat cs)"
      by (metis append.assoc append_take_drop_id concat.simps(2) mset_append union_assoc union_commute)
    then show "distinct (drop m fr @ concat (take m fr # cs))" "set (drop m fr @ concat (take m fr # cs)) = {..<?n}"
      using i(3,4) mset_eq_imp_distinct_iff mset_eq_setD by metis+
  qed
  moreover have "vq_shape q'" using i(1) by (simp add: q' vq_shape_def)
  ultimately show ?thesis using i(2) lk2(2) m unfolding vq_inv_def
    by (simp add: q')
qed


section \<open>Taking back chains\<close>

lemma recycle_loop_chain:
  assumes "chained (desc q) c" and "\<forall>x \<in> set c. x < length (desc q)" and "unat head = hd c"
  shows "recycle_loop o_head head q = Some (Inr (q\<lparr>num_used := num_used q - of_nat (length c),
    desc := (desc q)[last c := (desc q ! last c)\<lparr>d_next := o_head\<rparr>]\<rparr>))"
  using assms
proof (induction c arbitrary: head q)
  case Nil
  then show ?case by simp
next
  case (Cons x xs)
  have x: "unat head = x" "x < length (desc q)" using Cons.prems by simp_all
  show ?case
  proof (cases "xs = []")
    case True
    then show ?thesis using Cons.prems x
      by (subst recycle_loop.simps) (simp add: vec_at_def)
  next
    case False
    let ?q = "q\<lparr>num_used := num_used q - 1\<rparr>"
    have c: "has_next (desc q ! x)" "unat (d_next (desc q ! x)) = hd xs" "chained (desc q) xs"
      using Cons.prems(1) False by (simp_all add: chained_Cons)
    have "recycle_loop o_head head q = recycle_loop o_head (d_next (desc q ! x)) ?q"
      by (subst recycle_loop.simps) (simp add: vec_at_def x c(1))
    also have "\<dots> = Some (Inr (?q\<lparr>num_used := num_used ?q - of_nat (length xs),
        desc := (desc ?q)[last xs := (desc ?q ! last xs)\<lparr>d_next := o_head\<rparr>]\<rparr>))"
      using c Cons.prems(2) by (intro Cons.IH) simp_all
    finally show ?thesis using False by (simp add: algebra_simps)
  qed
qed

lemma linked_update_last:
  assumes "distinct xs" and "linked ds xs"
  shows "linked (ds[last xs := d]) xs"
  using assms
proof (induction xs)
  case (Cons x xs)
  show ?case
  proof (cases "xs = []")
    case False
    then have "last xs \<noteq> x" using Cons.prems(1) last_in_set by fastforce
    then show ?thesis using False Cons by (simp add: linked_Cons)
  qed simp
qed simp

lemma vq_recycle_inv:
  assumes inv: "vq_inv fr cs q" and c: "c \<in> set cs" and h: "unat head = hd c"
  shows "\<exists>q'. recycle_descriptors head q = Some (Inr q') \<and> vq_inv (c @ fr) (remove1 c cs) q' \<and>
    used q' = used q \<and> avail q' = avail q \<and> last_used_idx q' = last_used_idx q \<and> avail_idx q' = avail_idx q \<and>
    queue_size q' = queue_size q"
proof -
  let ?n = "unat (queue_size q)" and ?ds = "(desc q)[last c := (desc q ! last c)\<lparr>d_next := free_head q\<rparr>]"
  have i: "vq_shape q" "?n \<le> 32" "distinct (fr @ concat cs)" "set (fr @ concat cs) = {..<?n}"
    "unat (num_used q) = length (concat cs)" "linked (desc q) fr" "\<forall>c \<in> set cs. chained (desc q) c"
    "fr \<noteq> [] \<longrightarrow> unat (free_head q) = hd fr"
    using inv unfolding vq_inv_def by blast+
  have len: "length (desc q) = ?n" using i(1) by (simp add: vq_shape_def)
  have cc: "chained (desc q) c" "c \<noteq> []" using i(7) c chained_linked by blast+
  have rng: "\<forall>x \<in> set c. x < length (desc q)" using i(4) c len by auto
  obtain us vs where cs: "cs = us @ c # vs" "remove1 c cs = us @ vs" using c
    by (metis remove1_append remove1.simps(2) split_list_first)
  define q' where "q' = q\<lparr>free_head := head, num_used := num_used q - of_nat (length c), desc := ?ds\<rparr>"
  have r: "recycle_descriptors head q = Some (Inr q')"
    using recycle_loop_chain [of "q\<lparr>free_head := head\<rparr>" c head "free_head q"] cc rng h
    by (simp add: recycle_descriptors_def q'_def)
  have last_c: "last c \<in> set c" "last c < length (desc q)" using cc(2) rng by auto
  have other: "?ds ! x = desc q ! x" if "x \<noteq> last c" for x using that by simp
  have "distinct c" using i(3) cs(1) by simp
  then have "linked ?ds c" using linked_update_last cc chained_linked by blast
  moreover have "linked ?ds fr"
  proof -
    have "last c \<notin> set fr" using i(3) c last_c(1) by auto
    then have "linked ?ds fr = linked (desc q) fr" by (intro linked_cong) (metis other)
    then show ?thesis using i(6) by blast
  qed
  ultimately have lk: "linked ?ds (c @ fr)" using last_c i(8) by (simp add: linked_append)
  have "chained ?ds d" if d: "d \<in> set (us @ vs)" for d
  proof -
    have "last c \<notin> set d" using i(3) last_c(1) d unfolding cs(1) by auto
    then have "chained ?ds d = chained (desc q) d" by (intro chained_cong) (metis other)
    then show ?thesis using i(7) d cs(1) by simp
  qed
  moreover have "unat (num_used q - of_nat (length c)) = length (concat (us @ vs))"
  proof -
    have "length (concat cs) \<le> 32" using i(2) i(5) vq_free_count [OF inv] by linarith
    then have "unat (of_nat (length c) :: u16) = length c" "length c \<le> unat (num_used q)"
      using cs(1) i(5) by (simp_all add: unat_of_nat)
    then show ?thesis using i(5) cs(1) by (simp add: unat_sub word_le_nat_alt)
  qed
  moreover have "mset ((c @ fr) @ concat (us @ vs)) = mset (fr @ concat cs)" by (simp add: cs(1))
  then have "distinct ((c @ fr) @ concat (us @ vs))" "set ((c @ fr) @ concat (us @ vs)) = {..<?n}"
    using i(3,4) mset_eq_imp_distinct_iff mset_eq_setD by metis+
  moreover have "vq_shape q'" using i(1) by (simp add: q'_def vq_shape_def)
  ultimately have "vq_inv (c @ fr) (us @ vs) q'"
    using i(2) lk h cc(2) unfolding vq_inv_def by (simp add: q'_def)
  then show ?thesis using r unfolding cs(2) by (intro exI [of _ q']) (simp add: q'_def)
qed


section \<open>A new queue\<close>

lemma linked_nth: "linked ds xs \<longleftrightarrow> (\<forall>i. Suc i < length xs \<longrightarrow> unat (d_next (ds ! (xs ! i))) = xs ! Suc i)"
proof (induction xs)
  case (Cons x xs)
  show ?case
  proof
    assume "linked ds (x # xs)"
    then show "\<forall>i. Suc i < length (x # xs) \<longrightarrow> unat (d_next (ds ! ((x # xs) ! i))) = (x # xs) ! Suc i"
      using Cons by (auto simp: linked_Cons nth_Cons hd_conv_nth split: nat.splits)
  next
    assume a: "\<forall>i. Suc i < length (x # xs) \<longrightarrow> unat (d_next (ds ! ((x # xs) ! i))) = (x # xs) ! Suc i"
    have "unat (d_next (ds ! x)) = hd xs" if "xs \<noteq> []" using spec [OF a, of 0] that by (simp add: hd_conv_nth)
    moreover have "linked ds xs" unfolding Cons using a by (metis Suc_less_eq length_Cons nth_Cons_Suc)
    ultimately show "linked ds (x # xs)" by (simp add: linked_Cons)
  qed
qed simp

lemma link_prefix:
  assumes "k \<le> length ds"
  shows "length (foldl (\<lambda>ds i. ds[i := (ds ! i)\<lparr>d_next := of_nat i + 1\<rparr>]) ds [0..<k]) = length ds \<and>
    (\<forall>i < length ds. foldl (\<lambda>ds i. ds[i := (ds ! i)\<lparr>d_next := of_nat i + 1\<rparr>]) ds [0..<k] ! i =
      (if i < k then (ds ! i)\<lparr>d_next := of_nat i + 1\<rparr> else ds ! i))"
  using assms by (induction k) (auto simp: nth_update_at less_Suc_eq)

lemma link_descriptors_linked:
  assumes "length ds = unat sz" and "sz \<noteq> 0"
  shows "length (link_descriptors sz ds) = unat sz" and "linked (link_descriptors sz ds) [0..<unat sz]"
proof -
  have k: "unat (sz - 1) = unat sz - 1" using assms(2) by (simp add: unat_minus_one)
  note l = link_prefix [of "unat (sz - 1)" ds, folded link_descriptors_def]
  show "length (link_descriptors sz ds) = unat sz" using l k assms(1) by simp
  have "unat (d_next (link_descriptors sz ds ! i)) = Suc i" if "Suc i < unat sz" for i
  proof -
    have "unat sz < 2 ^ 16" using unsigned_less [of sz] by simp
    then have "Suc i < 2 ^ 16" using that by linarith
    then have "unat (of_nat i + 1 :: u16) = Suc i" by (simp add: unat_word_ariths unat_of_nat)
    moreover have "i < unat sz" "i < unat sz - 1" using that by linarith+
    ultimately show ?thesis using l k assms(1) by simp
  qed
  then show "linked (link_descriptors sz ds) [0..<unat sz]" by (simp add: linked_nth)
qed

lemma VirtQueue_new_inv:
  assumes "VirtQueue_new dma_alloc (ds, av, us) idx sz h s = Inr (Inr q, h', s')"
    and "unat sz \<le> 32" "unat sz \<le> length ds" "length (av_ring av) = 32" "length (us_ring us) = 32"
  shows "vq_inv [0..<unat sz] [] q \<and> queue_size q = sz \<and> queue_pfn h' (ucast idx) = dma_pfn (vq_dma q) \<and>
    queue_num h' (ucast idx) = ucast sz"
proof -
  from assms(1) obtain dma where pw: "is_power_of_two sz"
    and q: "q = \<lparr>vq_dma = dma, desc = link_descriptors sz (take (unat sz) ds), avail = av, used = us,
      queue_idx = ucast idx, queue_size = sz, num_used = 0, free_head = 0, avail_idx = 0, last_used_idx = 0\<rparr>"
    and h': "h' = queue_set (ucast idx) (ucast sz) (ucast VIRTIO_PAGE_SIZE) (dma_pfn dma)
      (snd (queue_used (ucast idx) h))"
    by (auto simp: VirtQueue_new_def Let_def queue_used_def split: if_splits prod.splits sum.splits elim!: rbind_eq_InrE)
  have nz: "sz \<noteq> 0" using pw by (rule power_of_two_nonzero)
  have "length (take (unat sz) ds) = unat sz" using assms(3) by simp
  note l = link_descriptors_linked [OF this nz]
  have "vq_inv [0..<unat sz] [] q" using l pw assms nz
    by (auto simp: vq_inv_def vq_shape_def q upt_conv_Cons unat_gt_0)
  then show ?thesis by (simp add: q h' queue_set_def Let_def)
qed

section \<open>Properties\<close>

text \<open>
  C28: \<open>VirtQueue::add\<close> implements taking buffers' descriptors from the front of a free list. It
  refuses an empty request and one that does not fit, changing nothing; otherwise it returns the
  head of a chain that lists the buffers in order, device-writable exactly for the outputs, and
  offers that head to the device in the next slot of the available ring. The descriptors of the
  chains in flight are not touched, and no descriptor is both free and in flight.
\<close>

theorem vq_add_refines:
  assumes "vq_inv fr cs q" and "\<forall>b \<in> set (ins @ outs). v2p (fst b) = Inr (pa (fst b))"
    and "m = length ins + length outs"
  shows "(m = 0 \<longrightarrow> vq_add v2p ins outs q = Inr (Inl InvalidParam, q)) \<and>
    (length fr < m \<longrightarrow> vq_add v2p ins outs q = Inr (Inl BufferTooSmall, q)) \<and>
    (0 < m \<and> m \<le> length fr \<longrightarrow> (\<exists>q'. vq_add v2p ins outs q = Inr (Inr (free_head q), q') \<and>
      vq_inv (drop m fr) (take m fr # cs) q' \<and> unat (free_head q) = hd (take m fr) \<and>
      (\<forall>j < m. d_addr (desc q' ! (fr ! j)) = pa (fst ((ins @ outs) ! j)) \<and>
        d_len (desc q' ! (fr ! j)) = ucast (snd ((ins @ outs) ! j)) \<and>
        (d_flags (desc q' ! (fr ! j)) AND DESC_WRITE = DESC_WRITE \<longleftrightarrow> length ins \<le> j)) \<and>
      (\<forall>c \<in> set cs. \<forall>x \<in> set c. desc q' ! x = desc q ! x) \<and>
      av_ring (avail q') ! unat (avail_idx q AND (queue_size q - 1)) = free_head q \<and>
      av_idx (avail q') = avail_idx q + 1 \<and> used q' = used q))"
proof (intro conjI impI)
  show "vq_add v2p ins outs q = Inr (Inl InvalidParam, q)" if "m = 0" using that assms(3) by (simp add: vq_add_def)
  show "vq_add v2p ins outs q = Inr (Inl BufferTooSmall, q)" if "length fr < m"
  proof -
    have "unat (queue_size q) < length ins + length outs + unat (num_used q)"
      using vq_free_count [OF assms(1)] that assms(3) by linarith
    moreover have "\<not> (ins = [] \<and> outs = [])" using that assms(3) by auto
    ultimately show ?thesis unfolding vq_add_def by (simp only: if_True if_False)
  qed
  assume m: "0 < m \<and> m \<le> length fr"
  obtain fh where r: "vq_add v2p ins outs q = Inr (Inr (free_head q),
      q\<lparr>desc := added pa ins outs fr (desc q), free_head := fh, num_used := num_used q + of_nat (length ins + length outs),
        avail := (avail q)\<lparr>av_ring := (av_ring (avail q))[unat (avail_idx q AND (queue_size q - 1)) := free_head q],
          av_idx := avail_idx q + 1\<rparr>, avail_idx := avail_idx q + 1\<rparr>)" (is "_ = Inr (_, ?q)")
    and fh: "length ins + length outs < length fr \<longrightarrow> unat fh = fr ! (length ins + length outs)"
    using vq_add_eq [OF assms(1,2)] m assms(3) by metis
  have inv': "vq_inv (drop m fr) (take m fr # cs) ?q"
    using vq_add_inv [OF assms(1,2) _ _ assms(3) _ fh [folded assms(3)]] m assms(3) by simp
  have i: "vq_shape q" "unat (queue_size q) \<le> 32" "distinct (fr @ concat cs)" "set (fr @ concat cs) = {..<unat (queue_size q)}"
    "fr \<noteq> [] \<longrightarrow> unat (free_head q) = hd fr" using assms(1) unfolding vq_inv_def by blast+
  have fr: "distinct fr" "\<forall>x \<in> set fr. x < length (desc q)" using i(1,3,4) by (auto simp: vq_shape_def)
  have at: "desc ?q ! (fr ! j) = (desc q ! (fr ! j))\<lparr>d_addr := pa (fst ((ins @ outs) ! j)),
      d_len := ucast (snd ((ins @ outs) ! j)), d_flags := (if j < length ins then 0 else DESC_WRITE) OR
      (if Suc j < m then DESC_NEXT else 0)\<rparr>" if "j < m" for j
    using added_at [OF fr, of ins outs j pa] m assms(3) that by simp
  have slot: "unat (avail_idx q AND (queue_size q - 1)) < length (av_ring (avail q))"
    using slot_less [of q "avail_idx q"] power_of_two_nonzero i(1,2) by (fastforce simp: vq_shape_def)
  show "\<exists>q'. vq_add v2p ins outs q = Inr (Inr (free_head q), q') \<and>
      vq_inv (drop m fr) (take m fr # cs) q' \<and> unat (free_head q) = hd (take m fr) \<and>
      (\<forall>j < m. d_addr (desc q' ! (fr ! j)) = pa (fst ((ins @ outs) ! j)) \<and>
        d_len (desc q' ! (fr ! j)) = ucast (snd ((ins @ outs) ! j)) \<and>
        (d_flags (desc q' ! (fr ! j)) AND DESC_WRITE = DESC_WRITE \<longleftrightarrow> length ins \<le> j)) \<and>
      (\<forall>c \<in> set cs. \<forall>x \<in> set c. desc q' ! x = desc q ! x) \<and>
      av_ring (avail q') ! unat (avail_idx q AND (queue_size q - 1)) = free_head q \<and>
      av_idx (avail q') = avail_idx q + 1 \<and> used q' = used q"
  proof (intro exI [of _ ?q] conjI r inv' allI ballI impI)
    show "unat (free_head q) = hd (take m fr)" using i(5) m by auto
    fix c x assume "c \<in> set cs" "x \<in> set c"
    then have "x \<notin> set (take (length ins + length outs) fr)" using i(3) by (auto dest: in_set_takeD)
    then show "desc ?q ! x = desc q ! x" using added_other m assms(3) by simp
  qed (use slot at in \<open>auto simp: DESC_WRITE_def DESC_NEXT_def\<close>)
qed


text \<open>A queue of four descriptors; the device holds the chain 0, 1 and has returned it.\<close>

definition sample_queue :: VirtQueue where
  "sample_queue =
     \<lparr>vq_dma = \<lparr>dma_paddr = 0x80500000, dma_pages = 2\<rparr>,
      desc = [\<lparr>d_addr = 0x1000, d_len = 16, d_flags = DESC_NEXT, d_next = 1\<rparr>,
              \<lparr>d_addr = 0x2000, d_len = 512, d_flags = DESC_WRITE, d_next = 2\<rparr>,
              \<lparr>d_addr = 0, d_len = 0, d_flags = 0, d_next = 3\<rparr>,
              \<lparr>d_addr = 0, d_len = 0, d_flags = 0, d_next = 0\<rparr>],
      avail = \<lparr>av_flags = 0, av_idx = 1, av_ring = replicate 32 0, av_used_event = 0\<rparr>,
      used = \<lparr>us_flags = 0, us_idx = 1, us_ring = (0, 512) # replicate 31 (0, 0), us_avail_event = 0\<rparr>,
      queue_idx = 0, queue_size = 4, num_used = 2, free_head = 2, avail_idx = 1, last_used_idx = 0\<rparr>"

lemma sample_queue_inv: "vq_inv [2, 3] [[0, 1]] sample_queue"
proof -
  have "set ([2, 3] @ concat [[0, 1]]) = {..<4 :: nat}" by (auto simp: lessThan_def)
  moreover have "is_power_of_two 4" by (simp add: power_of_two_values)
  ultimately show ?thesis
    by (simp add: vq_inv_def vq_shape_def sample_queue_def has_next_def DESC_NEXT_def DESC_WRITE_def)
qed

theorem vq_add_refines_witness:
  "\<exists>q'. vq_add Inr [(0x3000, 16)] [(0x4000, 1)] sample_queue = Inr (Inr 2, q') \<and> vq_inv [] [[2, 3], [0, 1]] q' \<and>
     d_addr (desc q' ! 3) = 0x4000"
proof -
  let ?ins = "[(0x3000, 16)] :: (usize \<times> usize) list" and ?outs = "[(0x4000, 1)] :: (usize \<times> usize) list"
  have "\<forall>b \<in> set (?ins @ ?outs). Inr (fst b) = Inr (id (fst b))" by simp
  note a = vq_add_refines [OF sample_queue_inv this, of 2]
  have two: "2 = length ?ins + length ?outs" "0 < (2 :: nat) \<and> 2 \<le> length [2, 3 :: nat]" by simp_all
  from mp [OF conjunct2 [OF conjunct2 [OF a [OF two(1)]]] two(2)] obtain q' where
    q': "vq_add Inr ?ins ?outs sample_queue = Inr (Inr (free_head sample_queue), q')"
    "vq_inv (drop 2 [2, 3]) [take 2 [2, 3], [0, 1]] q'"
    "\<forall>j < 2. d_addr (desc q' ! ([2, 3] ! j)) = id (fst ((?ins @ ?outs) ! j)) \<and>
       d_len (desc q' ! ([2, 3] ! j)) = ucast (snd ((?ins @ ?outs) ! j)) \<and>
       (d_flags (desc q' ! ([2, 3] ! j)) AND DESC_WRITE = DESC_WRITE \<longleftrightarrow> length ?ins \<le> j)"
    by (elim exE conjE) (rule that)
  have "d_addr (desc q' ! 3) = 0x4000" using spec [OF q'(3), of 1] by simp
  then show ?thesis using q'(1,2) by (simp add: sample_queue_def)
qed

lemma pop_used_chain:
  assumes "vq_inv fr cs q" and "c \<in> set cs"
    and "us_ring (used q) ! unat (last_used_idx q AND (queue_size q - 1)) = (of_nat (hd c), len)" and cp: "can_pop q"
  shows "\<exists>q'. vq_pop_used q = Some (Inr (Inr (of_nat (hd c), len), q')) \<and> vq_inv (c @ fr) (remove1 c cs) q' \<and>
    last_used_idx q' = last_used_idx q + 1 \<and> used q' = used q \<and> avail q' = avail q \<and> avail_idx q' = avail_idx q"
proof -
  have i: "vq_shape q" "unat (queue_size q) \<le> 32" "\<forall>c \<in> set cs. chained (desc q) c"
    "set (fr @ concat cs) = {..<unat (queue_size q)}" using assms(1) unfolding vq_inv_def by blast+
  have slot: "unat (last_used_idx q AND (queue_size q - 1)) < length (us_ring (used q))"
    using slot_less [of q "last_used_idx q"] power_of_two_nonzero i(1,2) by (fastforce simp: vq_shape_def)
  have "c \<noteq> []" using i(3) assms(2) chained_linked by blast
  then have "hd c \<in> set c" by simp
  then have "hd c \<in> set (fr @ concat cs)" using assms(2) by auto
  then have "hd c < unat (queue_size q)" unfolding i(4) by simp
  then have h: "hd c < 32" using i(2) by linarith
  have uc: "ucast (of_nat (hd c) :: u32) = (of_nat (hd c) :: u16)"
    using h by (intro word_unat_eqI) (simp add: unsigned_ucast_eq unsigned_of_nat take_bit_nat_eq_self)
  have uh: "unat (of_nat (hd c) :: u16) = hd c" using h by (simp add: unat_of_nat)
  obtain q' where r: "recycle_descriptors (of_nat (hd c)) q = Some (Inr q')" "vq_inv (c @ fr) (remove1 c cs) q'"
    "used q' = used q" "avail q' = avail q" "last_used_idx q' = last_used_idx q" "avail_idx q' = avail_idx q"
    using vq_recycle_inv [OF assms(1,2) uh] by blast
  have "vq_pop_used q = Some (Inr (Inr (of_nat (hd c), len), q'\<lparr>last_used_idx := last_used_idx q + 1\<rparr>))"
    using cp slot assms(3) r by (simp add: vq_pop_used_def vec_at_def uc)
  moreover have "vq_inv (c @ fr) (remove1 c cs) (q'\<lparr>last_used_idx := last_used_idx q + 1\<rparr>)"
    using r(2) unfolding vq_inv_def vq_shape_def by simp
  ultimately show ?thesis using r by auto
qed

text \<open>
  C29: \<open>VirtQueue::pop_used\<close> implements giving a chain back to the free list: with nothing returned it
  answers \<open>NotReady\<close>; when the device has returned the head of a chain in flight, it ends, answers that
  head and the length the device wrote, and the chain's descriptors are free again, at the front.
\<close>

theorem vq_pop_used_refines:
  assumes "vq_inv fr cs q" and "c \<in> set cs"
    and "us_ring (used q) ! unat (last_used_idx q AND (queue_size q - 1)) = (of_nat (hd c), len)"
  shows "(\<not> can_pop q \<longrightarrow> vq_pop_used q = Some (Inr (Inl NotReady, q))) \<and>
    (can_pop q \<longrightarrow> (\<exists>q'. vq_pop_used q = Some (Inr (Inr (of_nat (hd c), len), q')) \<and>
      vq_inv (c @ fr) (remove1 c cs) q' \<and> last_used_idx q' = last_used_idx q + 1 \<and> used q' = used q \<and> avail q' = avail q))"
  using pop_used_chain [OF assms] by (auto simp: vq_pop_used_def)

theorem vq_pop_used_refines_witness:
  "\<exists>q'. vq_pop_used sample_queue = Some (Inr (Inr (0, 512), q')) \<and> vq_inv [0, 1, 2, 3] [] q'"
proof -
  have "us_ring (used sample_queue) ! unat (last_used_idx sample_queue AND (queue_size sample_queue - 1)) =
      (of_nat (hd [0, 1]), 512)" and "can_pop sample_queue"
    by (simp_all add: sample_queue_def can_pop_def)
  then show ?thesis using vq_pop_used_refines [OF sample_queue_inv, of "[0, 1]" 512] by auto
qed

lemma align_up_div:
  assumes "unat x + 4096 < 2 ^ 64"
  shows "unat (align_up x) = (unat x div 4096 + 1) * 4096"
proof -
  have m: "VIRTIO_PAGE_SIZE - 1 = mask 12" by (simp add: VIRTIO_PAGE_SIZE_def mask_eq_exp_minus_1)
  have "align_up x = push_bit 12 (drop_bit 12 (x + 0x1000))"
    unfolding align_up_def m by (rule bit_word_eqI) (auto simp: bit_simps VIRTIO_PAGE_SIZE_def)
  moreover have "unat (x + 0x1000) = unat x + 4096" using assms by (simp add: unat_word_ariths)
  ultimately have "unat (align_up x) = (unat x + 4096) div 4096 * 4096 mod 2 ^ 64"
    by (simp add: push_bit_eq_mult drop_bit_eq_div unat_word_ariths(2) unat_div)
  moreover have "(unat x + 4096) div 4096 * 4096 \<le> unat x + 4096" by (rule div_times_less_eq_dividend)
  moreover have "(unat x + 4096) div 4096 = unat x div 4096 + 1" by (rule div_add_self2) simp
  ultimately show ?thesis using assms by simp
qed

lemma next_page:
  assumes "y mod 4096 \<noteq> (0 :: nat)"
  shows "y \<le> (y div 4096 + 1) * 4096" and "(y div 4096 + 1) * 4096 < y + 4096"
proof -
  define d r where "d = y div 4096" and "r = y mod 4096"
  have "y = 4096 * d + r" "r < 4096" "0 < r" using assms by (simp_all add: d_def r_def)
  then show "y \<le> (y div 4096 + 1) * 4096" and "(y div 4096 + 1) * 4096 < y + 4096"
    unfolding d_def [symmetric] by simp_all
qed

lemma queue_sizes: "is_power_of_two sz \<Longrightarrow> unat sz \<le> 32768 \<and> (unat sz = 1 \<or> unat sz mod 2 = 0)"
  by (auto simp: power_of_two_values)

text \<open>
  C30: The layout of a queue: the available ring follows the descriptor table, the used ring starts at the
  first page boundary behind it (where a legacy device looks for it), both rings lie within the
  allocated size, and that size is a whole number of pages with less than a page to spare. The
  rounding \<open>align_up\<close>, which adds a page to a size that is already aligned, never meets one here.
\<close>

theorem queue_layout_bounds:
  assumes "is_power_of_two sz"
  shows "\<exists>l. VirtQueueLayout_new sz = Inr l \<and> unat (lay_avail_offset l) = 16 * unat sz \<and>
    unat (lay_used_offset l) mod 4096 = 0 \<and> unat (lay_avail_offset l) + 6 + 2 * unat sz \<le> unat (lay_used_offset l) \<and>
    unat (lay_used_offset l) < unat (lay_avail_offset l) + 6 + 2 * unat sz + 4096 \<and>
    unat (lay_size l) mod 4096 = 0 \<and> unat (lay_used_offset l) + 6 + 8 * unat sz \<le> unat (lay_size l) \<and>
    unat (lay_size l) < unat (lay_used_offset l) + 6 + 8 * unat sz + 4096"
proof -
  let ?n = "unat sz" and ?w = "ucast sz :: usize"
  note n = conjunct1 [OF queue_sizes [OF assms]] conjunct2 [OF queue_sizes [OF assms]]
  have w: "unat ?w = ?n" using n(1) by (simp add: unsigned_ucast_eq take_bit_nat_eq_self)
  have u: "unat (16 * ?w) = 16 * ?n" "unat (16 * ?w + 2 * (3 + ?w)) = 18 * ?n + 6" "unat (2 * 3 + 8 * ?w) = 8 * ?n + 6"
    using n(1) by (simp_all add: unat_word_ariths w)
  have r1: "(18 * ?n + 6) mod 4096 \<noteq> 0"
  proof
    assume "(18 * ?n + 6) mod 4096 = 0"
    then have "4096 dvd 18 * ?n + 6" by (simp add: mod_eq_0_iff_dvd)
    then have "16 dvd 18 * ?n + 6" using dvd_trans [of 16 4096 "18 * ?n + 6"] by simp
    then show False using n(2) by presburger
  qed
  have r2: "(8 * ?n + 6) mod 4096 \<noteq> 0"
  proof
    assume "(8 * ?n + 6) mod 4096 = 0"
    then have "4096 dvd 8 * ?n + 6" by (simp add: mod_eq_0_iff_dvd)
    then have "8 dvd 8 * ?n + 6" using dvd_trans [of 8 4096 "8 * ?n + 6"] by simp
    then show False by presburger
  qed
  define a where "a = ((18 * ?n + 6) div 4096 + 1) * 4096"
  define b where "b = ((8 * ?n + 6) div 4096 + 1) * 4096"
  have au: "unat (align_up (16 * ?w + 2 * (3 + ?w))) = a" "unat (align_up (2 * 3 + 8 * ?w)) = b"
    unfolding a_def b_def using u n(1) by (subst align_up_div, simp, simp)+
  note ab = next_page [OF r1, folded a_def] next_page [OF r2, folded b_def]
  have sum: "unat (align_up (16 * ?w + 2 * (3 + ?w)) + align_up (2 * 3 + 8 * ?w)) = a + b"
    unfolding unat_word_ariths(1) au using ab n(1) by simp
  have "a mod 4096 = 0" unfolding a_def by (rule mod_mult_self2_is_0)
  moreover have "(a + b) mod 4096 = 0" unfolding a_def b_def distrib_right [symmetric] by (rule mod_mult_self2_is_0)
  ultimately show ?thesis using ab u(1) au(1) sum assms by (simp add: VirtQueueLayout_new_def Let_def)
qed

theorem queue_layout_bounds_witness:
  "\<exists>l. VirtQueueLayout_new 16 = Inr l \<and> unat (lay_avail_offset l) = 256 \<and> unat (lay_used_offset l) mod 4096 = 0"
  using queue_layout_bounds [of 16] by (auto simp: power_of_two_values)

lemma large_queue_panics:
  assumes "length (desc q) = unat (queue_size q)"
    and "linked (desc q) fr" "distinct fr" "\<forall>x \<in> set fr. x < length (desc q)" "fr \<noteq> [] \<longrightarrow> unat (free_head q) = hd fr"
    and "length fr + unat (num_used q) = unat (queue_size q)"
    and "\<forall>b \<in> set (ins @ outs). v2p (fst b) = Inr (pa (fst b))"
    and "0 < length ins + length outs" "length ins + length outs \<le> length fr"
    and "length (av_ring (avail q)) \<le> unat (avail_idx q AND (queue_size q - 1))"
  shows "vq_add v2p ins outs q = Inl Index_Out_Of_Range"
proof -
  obtain l fh where r: "rbind (rfold (add_one v2p DESC_NEXT) ins (free_head q, q))
      (rfold (add_one v2p (DESC_NEXT OR DESC_WRITE)) outs) =
    Inr (l, q\<lparr>desc := fill pa (DESC_NEXT OR DESC_WRITE) (drop (length ins) fr) outs (fill pa DESC_NEXT fr ins (desc q)),
      free_head := fh\<rparr>)" and l: "unat l = fr ! (length ins + length outs - 1)"
    using vq_add_chain [OF assms(1-5,7-9)] by blast
  have "length ins + length outs - 1 < length fr" using assms(8,9) by linarith
  then have lx: "unat l < length (desc q)" using l assms(4) nth_mem by metis
  have small: "\<not> unat (queue_size q) < length ins + length outs + unat (num_used q)" using assms(6,9) by linarith
  have ne: "\<not> (ins = [] \<and> outs = [])" using assms(8) by auto
  show ?thesis
    unfolding vq_add_def Let_def rbind_assoc [symmetric] if_not_P [OF ne] if_not_P [OF small] r
    using assms(10) lx by (simp add: vec_at_def)
qed

lemma power_of_two_slot:
  assumes "is_power_of_two w" and "i < w"
  shows "i AND (w - 1) = i"
proof -
  obtain k where k: "k < 16" "w = push_bit k 1" using assms(1) by (auto simp: is_power_of_two_def list_ex_iff)
  have "w - 1 = mask k" by (simp add: k(2) mask_eq_exp_minus_1 push_bit_eq_mult)
  moreover have "w = of_nat (2 ^ k)" "(2 :: nat) ^ k < 2 ^ 16"
    using k power_strict_increasing [of k 16 "2 :: nat"] by (simp_all add: push_bit_eq_mult)
  then have "unat w = 2 ^ k" by (simp only: unat_of_nat) simp
  then have "take_bit k i = i" using assms(2)
    by (intro word_unat_eqI) (simp add: unsigned_take_bit_eq word_less_nat_alt take_bit_nat_eq_self)
  ultimately show ?thesis by (simp add: take_bit_eq_mask)
qed

text \<open>\<open>n\<close> buffers were added to a queue of \<open>sz\<close> descriptors and none was taken back.\<close>

definition filled :: "u16 \<Rightarrow> nat \<Rightarrow> VirtQueue \<Rightarrow> bool" where
  "filled sz n q \<longleftrightarrow> queue_size q = sz \<and> length (desc q) = unat sz \<and> length (av_ring (avail q)) = 32 \<and>
     linked (desc q) [n..<unat sz] \<and> (n < unat sz \<longrightarrow> unat (free_head q) = n) \<and>
     num_used q = of_nat n \<and> avail_idx q = of_nat n"

lemma filled_facts:
  assumes f: "filled sz n q" and sz: "n \<le> 32" "32 < unat sz"
  shows "length (desc q) = unat (queue_size q)" "linked (desc q) [n..<unat sz]" "\<forall>x \<in> set [n..<unat sz]. x < length (desc q)"
    "[n..<unat sz] \<noteq> [] \<longrightarrow> unat (free_head q) = hd [n..<unat sz]"
    "length [n..<unat sz] + unat (num_used q) = unat (queue_size q)"
    "is_power_of_two sz \<Longrightarrow> unat (avail_idx q AND (queue_size q - 1)) = n"
proof -
  have n: "unat (of_nat n :: u16) = n" using sz(1) by (simp add: unat_of_nat)
  then have "(of_nat n :: u16) < sz" using sz by (simp add: word_less_nat_alt)
  then show "is_power_of_two sz \<Longrightarrow> unat (avail_idx q AND (queue_size q - 1)) = n"
    using f n power_of_two_slot by (simp add: filled_def)
  show "length [n..<unat sz] + unat (num_used q) = unat (queue_size q)" using f n sz by (simp add: filled_def)
qed (use f sz in \<open>simp_all add: filled_def\<close>)

lemma filled_step:
  assumes f: "filled sz n q" and sz: "is_power_of_two sz" "n < 32" "32 < unat sz" and v: "v2p (fst b) = Inr (pa (fst b))"
  shows "\<exists>q'. vq_add v2p [b] [] q = Inr (Inr (of_nat n), q') \<and> filled sz (Suc n) q'"
proof -
  have n: "n \<le> 32" using sz by simp
  note ff = filled_facts [OF f n sz(3)]
  have slot: "unat (avail_idx q AND (queue_size q - 1)) < length (av_ring (avail q))"
    using ff(6) [OF sz(1)] f sz(2) by (simp add: filled_def)
  have v': "\<forall>b \<in> set ([b] @ []). v2p (fst b) = Inr (pa (fst b))" using v by simp
  have m: "0 < length [b] + length ([] :: (usize \<times> usize) list)"
    "length [b] + length ([] :: (usize \<times> usize) list) \<le> length [n..<unat sz]" using sz by simp_all
  obtain fh where a: "vq_add v2p [b] [] q = Inr (Inr (free_head q),
      q\<lparr>desc := added pa [b] [] [n..<unat sz] (desc q), free_head := fh,
        num_used := num_used q + of_nat (length [b] + length ([] :: (usize \<times> usize) list)),
        avail := (avail q)\<lparr>av_ring := (av_ring (avail q))[unat (avail_idx q AND (queue_size q - 1)) := free_head q],
          av_idx := avail_idx q + 1\<rparr>,
        avail_idx := avail_idx q + 1\<rparr>)" (is "_ = Inr (_, ?q)")
    and fh: "length [b] + length ([] :: (usize \<times> usize) list) < length [n..<unat sz] \<longrightarrow>
      unat fh = [n..<unat sz] ! (length [b] + length ([] :: (usize \<times> usize) list))"
    by (rule vq_add_run [OF ff(1,2) distinct_upt ff(3-5) slot v' m])
  have fhd: "free_head q = of_nat n" using f sz by (intro word_unat_eqI) (simp add: filled_def unat_of_nat)
  have "linked (desc ?q) [Suc n..<unat sz] = linked (desc q) [Suc n..<unat sz]"
    using f by (intro linked_cong) (simp add: filled_def added_next)
  moreover have "linked (desc q) (n # [Suc n..<unat sz])" using ff(2) sz by (simp add: upt_conv_Cons)
  ultimately have "linked (desc ?q) [Suc n..<unat sz]" by (simp add: linked_Cons)
  moreover have "Suc n < unat sz \<longrightarrow> unat fh = Suc n" using fh by simp
  ultimately have "filled sz (Suc n) ?q" using f by (simp add: filled_def add.commute)
  then show ?thesis unfolding fhd [symmetric] by (intro exI conjI) (rule a)
qed

text \<open>One \<open>add\<close> for each buffer, and what they answer.\<close>

fun add_each ::
  "(usize \<Rightarrow> usize res) \<Rightarrow> (usize \<times> usize) list \<Rightarrow> VirtQueue \<Rightarrow> ((Error + u16) list \<times> VirtQueue) res" where
  "add_each v2p [] q = Inr ([], q)"
| "add_each v2p (b # bs) q =
     rbind (vq_add v2p [b] [] q) (\<lambda>(r, q).
     rbind (add_each v2p bs q) (\<lambda>(rs, q). Inr (r # rs, q)))"

lemma filled_each:
  assumes "filled sz n q" and "is_power_of_two sz" "n + length bufs \<le> 32" "32 < unat sz"
    and "\<forall>b \<in> set bufs. v2p (fst b) = Inr (pa (fst b))"
  shows "\<exists>q'. add_each v2p bufs q = Inr (map (\<lambda>i. Inr (of_nat i)) [n..<n + length bufs], q') \<and>
    filled sz (n + length bufs) q'"
  using assms
proof (induction bufs arbitrary: n q)
  case Nil
  then show ?case by simp
next
  case (Cons b bs)
  have "n < 32" "v2p (fst b) = Inr (pa (fst b))" using Cons.prems by simp_all
  then obtain q1 where q1: "vq_add v2p [b] [] q = Inr (Inr (of_nat n), q1)" "filled sz (Suc n) q1"
    using filled_step [of sz n q v2p b pa] Cons.prems(1,2,4) by blast
  have "\<exists>q'. add_each v2p bs q1 = Inr (map (\<lambda>i. Inr (of_nat i)) [Suc n..<Suc n + length bs], q') \<and>
      filled sz (Suc n + length bs) q'"
    using Cons.prems by (intro Cons.IH q1(2)) simp_all
  moreover have "[n..<n + length (b # bs)] = n # [Suc n..<Suc n + length bs]"
    by (simp add: upt_conv_Cons del: upt_Suc)
  ultimately show ?case using q1(1) by (auto simp del: upt_Suc)
qed

lemma new_filled:
  assumes sz: "is_power_of_two sz" "ucast sz \<le> queue_num_max h (ucast idx)" and free: "queue_pfn h (ucast idx) = 0"
    and dma: "\<forall>n. \<exists>p s'. dma_alloc n s = Inr (p, s') \<and> p \<noteq> 0"
    and mem: "unat sz \<le> length ds" "length (av_ring av) = 32"
  shows "\<exists>q h' s'. VirtQueue_new dma_alloc (ds, av, us) idx sz h s = Inr (Inr q, h', s') \<and> filled sz 0 q"
proof -
  obtain l where l: "VirtQueueLayout_new sz = Inr l" using sz(1) by (simp add: VirtQueueLayout_new_def Let_def)
  obtain p s' where p: "dma_alloc (lay_size l div VIRTIO_PAGE_SIZE) s = Inr (p, s')" "p \<noteq> 0" using dma by blast
  have nz: "sz \<noteq> 0" by (rule power_of_two_nonzero [OF sz(1)])
  have "length (take (unat sz) ds) = unat sz" using mem(1) by simp
  note link = link_descriptors_linked [OF this nz]
  have "\<not> max_queue_size (h\<lparr>queue_sel := ucast idx\<rparr>) < ucast sz" using sz(2) by (simp add: max_queue_size_def not_less)
  then show ?thesis using sz free l p mem link
    by (simp add: VirtQueue_new_def queue_used_def queue_physical_page_number_def DMA_new_def Let_def filled_def)
qed

text \<open>
  C31: The rings are declared with 32 slots, whatever the size of the queue. \<open>new\<close> accepts every larger
  power of two that the device offers. On the queue it returns, 32 requests are added without
  fault; the next one, whatever its buffers, panics on the index of the available ring, although
  descriptors are free for it and the ring in memory has room.
\<close>

theorem large_queue_add_panics:
  assumes "is_power_of_two sz" "32 < unat sz" and "ucast sz \<le> queue_num_max h (ucast idx)" "queue_pfn h (ucast idx) = 0"
    and "\<forall>n. \<exists>p s'. dma_alloc n s = Inr (p, s') \<and> p \<noteq> 0"
    and "unat sz \<le> length ds" "length (av_ring av) = 32"
    and "length bufs = 32" "\<forall>b \<in> set (bufs @ ins @ outs). v2p (fst b) = Inr (pa (fst b))"
    and "0 < length ins + length outs" "length ins + length outs \<le> unat sz - 32"
  shows "\<exists>q h' s' q'. VirtQueue_new dma_alloc (ds, av, us) idx sz h s = Inr (Inr q, h', s') \<and>
    add_each v2p bufs q = Inr (map (\<lambda>i. Inr (of_nat i)) [0..<32], q') \<and>
    unat (available_desc q') = unat sz - 32 \<and> vq_add v2p ins outs q' = Inl Index_Out_Of_Range"
proof -
  obtain q h' s' where q: "VirtQueue_new dma_alloc (ds, av, us) idx sz h s = Inr (Inr q, h', s')" "filled sz 0 q"
    using new_filled [where dma_alloc = dma_alloc and s = s and us = us, OF assms(1,3-7)] by blast
  have v: "\<forall>b \<in> set bufs. v2p (fst b) = Inr (pa (fst b))" "\<forall>b \<in> set (ins @ outs). v2p (fst b) = Inr (pa (fst b))"
    using assms(9) by auto
  obtain q' where q': "add_each v2p bufs q = Inr (map (\<lambda>i. Inr (of_nat i)) [0..<32], q')" "filled sz 32 q'"
    using filled_each [OF q(2) assms(1) _ assms(2) v(1)] assms(8) by auto
  note ff = filled_facts [OF q'(2) order_refl assms(2)]
  have "length (av_ring (avail q')) \<le> unat (avail_idx q' AND (queue_size q' - 1))"
    using ff(6) [OF assms(1)] q'(2) by (simp add: filled_def)
  then have add: "vq_add v2p ins outs q' = Inl Index_Out_Of_Range"
    using assms(10,11) by (intro large_queue_panics [OF ff(1,2) distinct_upt ff(3-5) v(2)]) simp_all
  have "unat (sz - 32) = unat sz - 32" using assms(2) by (simp add: unat_sub word_le_nat_alt)
  moreover have "unat (sz - 32) < 2 ^ 16" using unsigned_less [of "sz - 32"] by simp
  then have "unat (ucast (sz - 32) :: usize) = unat (sz - 32)"
    unfolding unsigned_ucast_eq by (intro take_bit_nat_eq_self) simp
  ultimately have "unat (available_desc q') = unat sz - 32"
    using q'(2) by (simp add: available_desc_def filled_def)
  with add show ?thesis using q(1) q'(1) by blast
qed

definition offered :: VirtIOHeader where
  "offered =
     \<lparr>magic = 0x74726976, version = 1, device_id = 2, vendor_id = 0, device_features = (\<lambda>_. 0), device_features_sel = 0,
      driver_features = (\<lambda>_. 0), driver_features_sel = 0, guest_page_size = 4096, queue_sel = 0,
      queue_num_max = (\<lambda>_. 1024), queue_num = (\<lambda>_. 0), queue_align = (\<lambda>_. 0), queue_pfn = (\<lambda>_. 0),
      queue_notify = [], interrupt_status = 0, interrupt_ack = [], dev_status = 0\<rparr>"

theorem large_queue_add_panics_witness:
  "\<exists>q h' s' q'. VirtQueue_new (\<lambda>n s. Inr (s, s + n * 4096))
      (replicate 64 \<lparr>d_addr = 0, d_len = 0, d_flags = 0, d_next = 0\<rparr>, avail sample_queue, used sample_queue) 0 64 offered 0x80000000
      = Inr (Inr q, h', s') \<and>
    add_each Inr (replicate 32 (0x1000, 16)) q = Inr (map (\<lambda>i. Inr (of_nat i)) [0..<32], q') \<and>
    unat (available_desc q') = 32 \<and> vq_add Inr [(0x1000, 16)] [(0x2000, 1)] q' = Inl Index_Out_Of_Range"
  using large_queue_add_panics [of 64 offered 0 "\<lambda>n s. Inr (s, s + n * 4096)" "0x80000000"
      "replicate 64 \<lparr>d_addr = 0, d_len = 0, d_flags = 0, d_next = 0\<rparr>" "avail sample_queue"
      "replicate 32 (0x1000, 16)" "[(0x1000, 16)]" "[(0x2000, 1)]" Inr id "used sample_queue"]
  by (simp add: power_of_two_values offered_def sample_queue_def)

lemma word_small:
  assumes "(x :: u32) \<le> 24"
  shows "x \<in> {0, 1, 2, 3, 4, 5, 6, 7, 8, 9, 10, 11, 12, 13, 14, 15, 16, 17, 18, 19, 20, 21, 22, 23, 24}"
proof -
  have "x \<in> of_nat ` set [0..<25]" using assms by (intro image_eqI [of _ _ "unat x"]) (simp_all add: word_le_nat_alt)
  then show ?thesis by (simp add: upt_rec)
qed

text \<open>
  C38: The device type is well-typed: the number that \<open>device_type\<close> transmutes is always the
  discriminant of a constructor of \<open>DeviceType\<close>, the result is that constructor, and a number
  without a constructor gives \<open>Invalid\<close>.
\<close>

theorem device_type_valid:
  "device_type h = (case map_of DeviceType_values (device_id h) of Some t \<Rightarrow> t | None \<Rightarrow> DT_Invalid) \<and>
   {x. 1 \<le> x \<and> x \<le> 13} \<union> {x. 16 \<le> x \<and> x \<le> 24} \<subseteq> fst ` set DeviceType_values \<and> distinct (map fst DeviceType_values)"
proof (intro conjI)
  show "device_type h = (case map_of DeviceType_values (device_id h) of Some t \<Rightarrow> t | None \<Rightarrow> DT_Invalid)"
  proof (cases "device_id h \<le> 24")
    case True
    from word_small [OF this] show ?thesis
      by (elim insertE emptyE) (simp_all add: device_type_def DeviceType_values_def)
  next
    case False
    then have "\<not> device_id h \<le> 13" using order_trans [of "device_id h" 13 24] by auto
    then show ?thesis using False by (auto simp: device_type_def DeviceType_values_def Let_def)
  qed
  have "x \<in> fst ` set DeviceType_values" if "1 \<le> x \<and> x \<le> 13 \<or> 16 \<le> x \<and> x \<le> 24" for x
  proof -
    have "x \<le> 24" using that order_trans [of x 13 24] by auto
    from word_small [OF this] show ?thesis using that by (elim insertE emptyE) (simp_all add: DeviceType_values_def)
  qed
  then show "{x. 1 \<le> x \<and> x \<le> 13} \<union> {x. 16 \<le> x \<and> x \<le> 24} \<subseteq> fst ` set DeviceType_values" by blast
  show "distinct (map fst DeviceType_values)" by (simp add: DeviceType_values_def)
qed

end
