(* ===== verification/Virtio_Blk.thy ===== *)
theory Virtio_Blk
  imports Virt_Queue Translation Memory_Set
begin

text \<open>
  The virtio block driver (\<open>blk.rs\<close> of the \<open>virtio-drivers\<close> crate) and its use by the kernel
  (\<open>os/src/drivers/block/virtio_blk.rs\<close>). Memory is indexed by physical address; the processor
  reaches a byte through \<open>virt_to_phys\<close>, the device directly. The device is a parameter \<open>dev\<close>: what
  it does to its registers, to the used ring, to memory and to its own state while the driver spins
  once. The stack addresses of a request and of its response are arguments.
\<close>

unbundle bit_operations_syntax

section \<open>Requests\<close>

type_synonym mem = "usize \<Rightarrow> u8"
type_synonym 'd world = "mem \<times> 'd"
type_synonym 'd device = "VirtIOHeader \<times> VirtQueue \<times> 'd world \<Rightarrow> VirtIOHeader \<times> UsedRing \<times> 'd world"

definition BLK_SIZE :: usize where "BLK_SIZE = 512"

datatype ReqType = Req_In | Req_Out | Req_Flush | Req_Discard | Req_WriteZeroes

fun ReqType_val :: "ReqType \<Rightarrow> u32" where
  "ReqType_val Req_In = 0"
| "ReqType_val Req_Out = 1"
| "ReqType_val Req_Flush = 4"
| "ReqType_val Req_Discard = 11"
| "ReqType_val Req_WriteZeroes = 13"

datatype RespStatus = Resp_Ok | Resp_IoErr | Resp_Unsupported | Resp_NotReady

fun RespStatus_val :: "RespStatus \<Rightarrow> u8" where
  "RespStatus_val Resp_Ok = 0"
| "RespStatus_val Resp_IoErr = 1"
| "RespStatus_val Resp_Unsupported = 2"
| "RespStatus_val Resp_NotReady = 3"

record BlkReq =
  req_type :: ReqType
  req_reserved :: u32
  req_sector :: u64

text \<open>\<open>AsBuf\<close>: the bytes of a request.\<close>

definition BlkReq_as_buf :: "BlkReq \<Rightarrow> u8 list" where
  "BlkReq_as_buf r = le_bytes 4 (unat (ReqType_val (req_type r))) @ le_bytes 4 (unat (req_reserved r)) @
     le_bytes 8 (unat (req_sector r))"

definition BlkResp_default :: RespStatus where
  "BlkResp_default = Resp_NotReady"

text \<open>Features: the driver asks for none of those it knows.\<close>

definition BlkFeature_bits :: "nat list" where
  "BlkFeature_bits = [0, 1, 2, 4, 5, 6, 7, 9, 10, 11, 13, 14, 24, 27, 28, 29, 30, 32, 33, 34, 35, 36, 37, 38]"

definition BlkFeature_all :: u64 where
  "BlkFeature_all = foldl (\<lambda>w n. w OR push_bit n 1) 0 BlkFeature_bits"

definition BlkFeature_from_bits_truncate :: "u64 \<Rightarrow> u64" where
  "BlkFeature_from_bits_truncate bits = bits AND BlkFeature_all"

definition blk_negotiate :: "u64 \<Rightarrow> u64" where
  "blk_negotiate bits = BlkFeature_from_bits_truncate bits AND 0"

section \<open>Memory\<close>

fun store_bytes :: "(usize \<Rightarrow> usize res) \<Rightarrow> usize \<Rightarrow> u8 list \<Rightarrow> mem \<Rightarrow> mem res" where
  "store_bytes v2p va [] m = Inr m"
| "store_bytes v2p va (b # bs) m = rbind (v2p va) (\<lambda>pa. store_bytes v2p (va + 1) bs (m(pa := b)))"

section \<open>The driver\<close>

record VirtIOBlk =
  vb_header :: VirtIOHeader
  vb_queue :: VirtQueue
  vb_capacity :: usize

definition VirtIOBlk_new ::
  "(usize \<Rightarrow> 's \<Rightarrow> (usize \<times> 's) res) \<Rightarrow> Descriptor list \<times> AvailRing \<times> UsedRing \<Rightarrow> u64 \<Rightarrow>
   VirtIOHeader \<Rightarrow> 's \<Rightarrow> ((Error + VirtIOBlk) \<times> VirtIOHeader \<times> 's) res" where
  "VirtIOBlk_new dma_alloc contents config_capacity h s =
     (let h = begin_init blk_negotiate h
      in rbind (VirtQueue_new dma_alloc contents 0 16 h s) (\<lambda>(r, h, s).
           case r of
             Inl e \<Rightarrow> Inr (Inl e, h, s)
           | Inr queue \<Rightarrow>
               let h = finish_init h
               in Inr (Inr \<lparr>vb_header = h, vb_queue = queue, vb_capacity = config_capacity\<rparr>, h, s)))"

definition blk_ack_interrupt :: "VirtIOBlk \<Rightarrow> bool \<times> VirtIOBlk" where
  "blk_ack_interrupt b = (let (r, h) = header_ack_interrupt (vb_header b) in (r, b\<lparr>vb_header := h\<rparr>))"

text \<open>\<open>while !self.queue.can_pop() { spin_loop(); }\<close>; \<open>None\<close> is a device that never answers.\<close>

partial_function (option) spin ::
  "'d device \<Rightarrow> VirtIOHeader \<times> VirtQueue \<times> 'd world \<Rightarrow> (VirtIOHeader \<times> VirtQueue \<times> 'd world) option" where
  "spin dev st =
     (if can_pop (fst (snd st)) then Some st
      else let (h, u, w) = dev st in spin dev (h, (fst (snd st))\<lparr>used := u\<rparr>, w))"

text \<open>A request that has been added: notify, wait, take the used element, look at the status.\<close>

definition complete_request ::
  "(usize \<Rightarrow> usize res) \<Rightarrow> 'd device \<Rightarrow> usize \<Rightarrow> VirtIOBlk \<Rightarrow> 'd world \<Rightarrow>
   ((Error + unit) \<times> VirtIOBlk \<times> 'd world) res option" where
  "complete_request v2p dev resp_at b w =
     (let b = b\<lparr>vb_header := notify 0 (vb_header b)\<rparr>
      in Option.bind (spin dev (vb_header b, vb_queue b, w)) (\<lambda>(h, q, w).
         Option.bind (vq_pop_used q) (\<lambda>r.
           Some (rbind r (\<lambda>(r, q).
             let b = b\<lparr>vb_header := h, vb_queue := q\<rparr>
             in case r of
                  Inl e \<Rightarrow> Inr (Inl e, b, w)
                | Inr _ \<Rightarrow>
                    rbind (v2p resp_at) (\<lambda>pa.
                    Inr (if fst w pa = RespStatus_val Resp_Ok then Inr () else Inl IoError, b, w)))))))"

definition submit ::
  "(usize \<Rightarrow> usize res) \<Rightarrow> ReqType \<Rightarrow> usize \<Rightarrow> usize \<Rightarrow> usize \<Rightarrow> usize \<times> usize \<Rightarrow> VirtIOBlk \<Rightarrow> mem \<Rightarrow>
   ((Error + u16) \<times> VirtIOBlk \<times> mem) res" where
  "submit v2p ty req_at resp_at block_id buf b m =
     rbind (rassert (snd buf = BLK_SIZE)) (\<lambda>_.
     let req = \<lparr>req_type = ty, req_reserved = 0, req_sector = block_id\<rparr>
     in rbind (store_bytes v2p req_at (BlkReq_as_buf req) m) (\<lambda>m.
        rbind (store_bytes v2p resp_at [RespStatus_val BlkResp_default] m) (\<lambda>m.
        rbind (if ty = Req_In
               then vq_add v2p [(req_at, 16)] [buf, (resp_at, 1)] (vb_queue b)
               else vq_add v2p [(req_at, 16), buf] [(resp_at, 1)] (vb_queue b)) (\<lambda>(r, q).
        Inr (r, b\<lparr>vb_queue := q\<rparr>, m)))))"

definition blk_request ::
  "(usize \<Rightarrow> usize res) \<Rightarrow> 'd device \<Rightarrow> ReqType \<Rightarrow> usize \<Rightarrow> usize \<Rightarrow> usize \<Rightarrow> usize \<times> usize \<Rightarrow>
   VirtIOBlk \<Rightarrow> 'd world \<Rightarrow> ((Error + unit) \<times> VirtIOBlk \<times> 'd world) res option" where
  "blk_request v2p dev ty req_at resp_at block_id buf b w =
     (case submit v2p ty req_at resp_at block_id buf b (fst w) of
        Inl e \<Rightarrow> Some (Inl e)
      | Inr (Inl e, b, m) \<Rightarrow> Some (Inr (Inl e, b, m, snd w))
      | Inr (Inr _, b, m) \<Rightarrow> complete_request v2p dev resp_at b (m, snd w))"

definition blk_read_block ::
  "(usize \<Rightarrow> usize res) \<Rightarrow> 'd device \<Rightarrow> usize \<Rightarrow> usize \<Rightarrow> usize \<Rightarrow> usize \<times> usize \<Rightarrow>
   VirtIOBlk \<Rightarrow> 'd world \<Rightarrow> ((Error + unit) \<times> VirtIOBlk \<times> 'd world) res option" where
  "blk_read_block v2p dev req_at resp_at block_id buf b w = blk_request v2p dev Req_In req_at resp_at block_id buf b w"

definition blk_write_block ::
  "(usize \<Rightarrow> usize res) \<Rightarrow> 'd device \<Rightarrow> usize \<Rightarrow> usize \<Rightarrow> usize \<Rightarrow> usize \<times> usize \<Rightarrow>
   VirtIOBlk \<Rightarrow> 'd world \<Rightarrow> ((Error + unit) \<times> VirtIOBlk \<times> 'd world) res option" where
  "blk_write_block v2p dev req_at resp_at block_id buf b w = blk_request v2p dev Req_Out req_at resp_at block_id buf b w"

text \<open>The requests that do not wait; the response is the caller's.\<close>

definition submit_nb ::
  "(usize \<Rightarrow> usize res) \<Rightarrow> ReqType \<Rightarrow> usize \<Rightarrow> usize \<Rightarrow> usize \<Rightarrow> usize \<times> usize \<Rightarrow> VirtIOBlk \<Rightarrow> mem \<Rightarrow>
   ((Error + u16) \<times> VirtIOBlk \<times> mem) res" where
  "submit_nb v2p ty req_at resp_at block_id buf b m =
     rbind (rassert (snd buf = BLK_SIZE)) (\<lambda>_.
     let req = \<lparr>req_type = ty, req_reserved = 0, req_sector = block_id\<rparr>
     in rbind (store_bytes v2p req_at (BlkReq_as_buf req) m) (\<lambda>m.
        rbind (if ty = Req_In
               then vq_add v2p [(req_at, 16)] [buf, (resp_at, 1)] (vb_queue b)
               else vq_add v2p [(req_at, 16), buf] [(resp_at, 1)] (vb_queue b)) (\<lambda>(r, q).
        let b = b\<lparr>vb_queue := q\<rparr>
        in case r of
             Inl e \<Rightarrow> Inr (Inl e, b, m)
           | Inr token \<Rightarrow> Inr (Inr token, b\<lparr>vb_header := notify 0 (vb_header b)\<rparr>, m))))"

definition blk_read_block_nb ::
  "(usize \<Rightarrow> usize res) \<Rightarrow> usize \<Rightarrow> usize \<Rightarrow> usize \<Rightarrow> usize \<times> usize \<Rightarrow> VirtIOBlk \<Rightarrow> mem \<Rightarrow>
   ((Error + u16) \<times> VirtIOBlk \<times> mem) res" where
  "blk_read_block_nb v2p req_at resp_at block_id buf b m = submit_nb v2p Req_In req_at resp_at block_id buf b m"

definition blk_write_block_nb ::
  "(usize \<Rightarrow> usize res) \<Rightarrow> usize \<Rightarrow> usize \<Rightarrow> usize \<Rightarrow> usize \<times> usize \<Rightarrow> VirtIOBlk \<Rightarrow> mem \<Rightarrow>
   ((Error + u16) \<times> VirtIOBlk \<times> mem) res" where
  "blk_write_block_nb v2p req_at resp_at block_id buf b m = submit_nb v2p Req_Out req_at resp_at block_id buf b m"

definition blk_pop_used :: "VirtIOBlk \<Rightarrow> ((Error + u16) \<times> VirtIOBlk) res option" where
  "blk_pop_used b =
     map_option (\<lambda>r. rbind r (\<lambda>(r, q).
       Inr (case r of Inl e \<Rightarrow> Inl e | Inr p \<Rightarrow> Inr (fst p), b\<lparr>vb_queue := q\<rparr>))) (vq_pop_used (vb_queue b))"

definition virt_queue_size :: "VirtIOBlk \<Rightarrow> u16" where
  "virt_queue_size b = queue_size (vb_queue b)"

section \<open>The kernel's side\<close>

definition VIRTIO0 :: usize where "VIRTIO0 = 0x10001000"

text \<open>\<open>virtio_dma_alloc\<close>: the frames must be consecutive; they are kept in \<open>QUEUE_FRAMES\<close>.\<close>

fun dma_alloc_loop ::
  "nat list \<Rightarrow> usize \<Rightarrow> PhysPageNum \<times> machine \<times> PhysPageNum list \<Rightarrow>
   (PhysPageNum \<times> machine \<times> PhysPageNum list) res" where
  "dma_alloc_loop [] i st = Inr st"
| "dma_alloc_loop (_ # is) i (ppn_base, m, frames) =
     (case frame_alloc m of
        (None, m) \<Rightarrow> Inl Unwrap_None
      | (Some frame, m) \<Rightarrow>
          let ppn_base = if i = 0 then frame else ppn_base
          in rbind (rassert (ppn_0 frame = ppn_0 ppn_base + i)) (\<lambda>_.
             dma_alloc_loop is (i + 1) (ppn_base, m, vec_push frames frame)))"

definition virtio_dma_alloc :: "usize \<Rightarrow> machine \<times> PhysPageNum list \<Rightarrow> (usize \<times> machine \<times> PhysPageNum list) res" where
  "virtio_dma_alloc pages st =
     (let (m, frames) = st
      in rbind (dma_alloc_loop [0..<unat pages] 0 (PhysPageNum 0, m, frames)) (\<lambda>(ppn_base, m, frames).
         Inr (pa_0 (pa_of_ppn ppn_base), m, frames)))"

fun dma_dealloc_loop :: "nat \<Rightarrow> PhysPageNum \<Rightarrow> machine \<Rightarrow> machine res" where
  "dma_dealloc_loop 0 ppn m = Inr m"
| "dma_dealloc_loop (Suc n) ppn m =
     rbind (frame_dealloc ppn m) (dma_dealloc_loop n (ppn_step ppn))"

definition virtio_dma_dealloc ::
  "usize \<Rightarrow> usize \<Rightarrow> machine \<times> PhysPageNum list \<Rightarrow> (u32 \<times> machine \<times> PhysPageNum list) res" where
  "virtio_dma_dealloc pa pages st =
     (let (m, frames) = st
      in rbind (ppn_of_pa (PhysAddr pa)) (\<lambda>ppn_base.
         rbind (dma_dealloc_loop (unat pages) ppn_base m) (\<lambda>m. Inr (0, m, frames))))"

definition virtio_phys_to_virt :: "usize \<Rightarrow> usize" where
  "virtio_phys_to_virt paddr = paddr"

definition virtio_virt_to_phys :: "machine \<Rightarrow> MemorySet \<Rightarrow> usize \<Rightarrow> usize res" where
  "virtio_virt_to_phys m kernel_space vaddr =
     rbind (runwrap (pt_translate_va m (from_token (ms_token kernel_space)) (VirtAddr vaddr))) (\<lambda>pa. Inr (pa_0 pa))"

text \<open>\<open>BlockDevice for VirtIOBlock\<close>: an error of the driver panics.\<close>

definition expect_ok :: "((Error + 'a) \<times> 'b) res option \<Rightarrow> ('a \<times> 'b) res option" where
  "expect_ok r = map_option (\<lambda>r. rbind r (\<lambda>(r, s).
     case r of Inl _ \<Rightarrow> Inl Unwrap_None | Inr x \<Rightarrow> Inr (x, s))) r"

definition virtio_read_block ::
  "(usize \<Rightarrow> usize res) \<Rightarrow> 'd device \<Rightarrow> usize \<Rightarrow> usize \<Rightarrow> usize \<Rightarrow> usize \<times> usize \<Rightarrow>
   VirtIOBlk \<Rightarrow> 'd world \<Rightarrow> (unit \<times> VirtIOBlk \<times> 'd world) res option" where
  "virtio_read_block v2p dev req_at resp_at block_id buf b w =
     expect_ok (blk_read_block v2p dev req_at resp_at block_id buf b w)"

definition virtio_write_block ::
  "(usize \<Rightarrow> usize res) \<Rightarrow> 'd device \<Rightarrow> usize \<Rightarrow> usize \<Rightarrow> usize \<Rightarrow> usize \<times> usize \<Rightarrow>
   VirtIOBlk \<Rightarrow> 'd world \<Rightarrow> (unit \<times> VirtIOBlk \<times> 'd world) res option" where
  "virtio_write_block v2p dev req_at resp_at block_id buf b w =
     expect_ok (blk_write_block v2p dev req_at resp_at block_id buf b w)"

definition VirtIOBlock_new ::
  "Descriptor list \<times> AvailRing \<times> UsedRing \<Rightarrow> u64 \<Rightarrow> VirtIOHeader \<Rightarrow> machine \<times> PhysPageNum list \<Rightarrow>
   (VirtIOBlk \<times> VirtIOHeader \<times> machine \<times> PhysPageNum list) res" where
  "VirtIOBlock_new contents config_capacity h st =
     rbind (VirtIOBlk_new virtio_dma_alloc contents config_capacity h st) (\<lambda>(r, s).
     case r of Inl _ \<Rightarrow> Inl Unwrap_None | Inr b \<Rightarrow> Inr (b, s))"

section \<open>Memory ranges\<close>

definition mem_range :: "usize \<Rightarrow> nat \<Rightarrow> usize set" where
  "mem_range a n = (\<lambda>i. a + of_nat i) ` {..<n}"

definition load_mem :: "mem \<Rightarrow> usize \<Rightarrow> nat \<Rightarrow> u8 list" where
  "load_mem m a n = map (\<lambda>i. m (a + of_nat i)) [0..<n]"

fun put_mem :: "usize \<Rightarrow> u8 list \<Rightarrow> mem \<Rightarrow> mem" where
  "put_mem a [] m = m"
| "put_mem a (b # bs) m = put_mem (a + 1) bs (m(a := b))"

definition contiguous :: "(usize \<Rightarrow> usize res) \<Rightarrow> usize \<Rightarrow> usize \<Rightarrow> nat \<Rightarrow> bool" where
  "contiguous v2p va pa n \<longleftrightarrow> (\<forall>i < n. v2p (va + of_nat i) = Inr (pa + of_nat i))"

lemma contiguous_start: "contiguous v2p va pa n \<Longrightarrow> 0 < n \<Longrightarrow> v2p va = Inr pa"
  unfolding contiguous_def by (drule spec [of _ 0]) simp

lemma store_bytes_put: "contiguous v2p va pa (length bs) \<Longrightarrow> store_bytes v2p va bs m = Inr (put_mem pa bs m)"
proof (induction bs arbitrary: va pa m)
  case (Cons b bs)
  note c = Cons.prems [unfolded contiguous_def, rule_format]
  have "v2p va = Inr pa" using c [of 0] by simp
  moreover have "contiguous v2p (va + 1) (pa + 1) (length bs)"
    unfolding contiguous_def
  proof (intro allI impI)
    fix i assume "i < length bs"
    then show "v2p (va + 1 + of_nat i) = Inr (pa + 1 + of_nat i)"
      using c [of "Suc i"] by (simp add: add.assoc)
  qed
  ultimately show ?case using Cons.IH by (simp add: fun_upd_def)
qed simp

lemma mem_range_Suc: "mem_range a (Suc n) = insert a (mem_range (a + 1) n)"
  by (auto simp: mem_range_def lessThan_Suc_eq_insert_0 image_image add.assoc)

lemma put_mem_other: "x \<notin> mem_range a (length bs) \<Longrightarrow> put_mem a bs m x = m x"
  by (induction bs arbitrary: a m) (auto simp: mem_range_Suc)

lemma put_mem_cong: "m x = m' x \<Longrightarrow> put_mem a bs m x = put_mem a bs m' x"
proof (induction bs arbitrary: a m m')
  case (Cons b bs)
  have "put_mem (a + 1) bs (m(a := b)) x = put_mem (a + 1) bs (m'(a := b)) x"
    by (rule Cons.IH) (simp add: Cons.prems)
  then show ?case by (simp only: put_mem.simps)
qed simp

lemma unat_index: "i < 2 ^ 32 \<Longrightarrow> unat (of_nat i :: usize) = i"
  by (simp add: unat_of_nat)

lemma mem_range_inj:
  assumes "i < 2 ^ 32" and "j < 2 ^ 32" and "(a :: usize) + of_nat i = a + of_nat j"
  shows "i = j"
proof -
  have "(of_nat i :: usize) = of_nat j" using assms(3) by (rule add_left_imp_eq)
  then show ?thesis using unat_index assms(1,2) by metis
qed

lemma put_mem_nth:
  assumes "i < length bs" and "length bs < 2 ^ 32"
  shows "put_mem a bs m (a + of_nat i) = bs ! i"
  using assms
proof (induction bs arbitrary: a m i)
  case (Cons b bs)
  show ?case
  proof (cases i)
    case 0
    have "a \<notin> mem_range (a + 1) (length bs)"
    proof
      assume "a \<in> mem_range (a + 1) (length bs)"
      then obtain j where j: "j < length bs" "a = a + 1 + of_nat j" by (auto simp: mem_range_def)
      then have "a + of_nat 0 = a + of_nat (Suc j)" by (simp add: add.assoc)
      then have "0 = Suc j" using j(1) Cons.prems(2) by (intro mem_range_inj [of 0 "Suc j" a]) auto
      then show False by simp
    qed
    then show ?thesis using 0 by (simp add: put_mem_other)
  next
    case (Suc j)
    then have "put_mem (a + 1) bs (m(a := b)) (a + 1 + of_nat j) = bs ! j"
      using Cons.prems by (intro Cons.IH) simp_all
    then show ?thesis using Suc by (simp add: add.assoc)
  qed
qed simp

lemma load_put_same: "length bs < 2 ^ 32 \<Longrightarrow> load_mem (put_mem a bs m) a (length bs) = bs"
  by (intro nth_equalityI) (simp_all add: load_mem_def put_mem_nth)

lemma load_cong: "(\<And>x. x \<in> mem_range a n \<Longrightarrow> m x = m' x) \<Longrightarrow> load_mem m a n = load_mem m' a n"
  by (auto simp: load_mem_def mem_range_def)


section \<open>The device\<close>

fun dev_run ::
  "'d device \<Rightarrow> nat \<Rightarrow> VirtIOHeader \<times> VirtQueue \<times> 'd world \<Rightarrow> VirtIOHeader \<times> VirtQueue \<times> 'd world" where
  "dev_run dev 0 st = st"
| "dev_run dev (Suc n) st = (let (h, u, w) = dev st in dev_run dev n (h, (fst (snd st))\<lparr>used := u\<rparr>, w))"

lemma spin_returns:
  assumes "\<forall>i < n. \<not> can_pop (fst (snd (dev_run dev i st)))" and "can_pop (fst (snd (dev_run dev n st)))"
  shows "spin dev st = Some (dev_run dev n st)"
  using assms
proof (induction n arbitrary: st)
  case 0
  then show ?case by (subst spin.simps) simp
next
  case (Suc n)
  obtain h u w where d: "dev st = (h, u, w)" by (cases "dev st")
  have "\<not> can_pop (fst (snd st))" using Suc.prems(1) by (metis dev_run.simps(1) zero_less_Suc)
  moreover have "\<forall>i < n. \<not> can_pop (fst (snd (dev_run dev i (h, (fst (snd st))\<lparr>used := u\<rparr>, w))))"
    using Suc.prems(1) d by (metis Suc_less_eq case_prod_conv dev_run.simps(2))
  moreover have "can_pop (fst (snd (dev_run dev n (h, (fst (snd st))\<lparr>used := u\<rparr>, w))))" using Suc.prems(2) d by simp
  ultimately show ?case using Suc.IH d by (subst spin.simps) simp
qed

text \<open>The chain the device takes next from the available ring, and how it returns it.\<close>

definition pending :: "VirtQueue \<Rightarrow> u16" where
  "pending q = av_ring (avail q) ! unat (us_idx (used q) AND (queue_size q - 1))"

definition pending_chain :: "VirtQueue \<Rightarrow> Descriptor \<times> Descriptor \<times> Descriptor" where
  "pending_chain q =
     (let d0 = desc q ! unat (pending q);
          d1 = desc q ! unat (d_next d0);
          d2 = desc q ! unat (d_next d1)
      in (d0, d1, d2))"

definition answered :: "u32 \<Rightarrow> VirtQueue \<Rightarrow> VirtQueue" where
  "answered len q = q\<lparr>used := (used q)\<lparr>us_idx := us_idx (used q) + 1,
     us_ring := (us_ring (used q))[unat (us_idx (used q) AND (queue_size q - 1)) := (ucast (pending q), len)]\<rparr>\<rparr>"

text \<open>
  What the virtio specification says of a block device of \<open>cap\<close> sectors. The driver must have set
  \<open>DRIVER_OK\<close> and have notified queue 0 since the device last looked, and the chain must be a request
  that the device can read, a data buffer of one sector that it can write exactly when the request
  is a read, and a status byte that it can write. Then, within finitely many steps in which the used
  ring does not change, the device takes the notification, sets its interrupt status as it likes,
  returns the chain, and either carries out the request with status 0 or, when the sector is
  beyond the end, answers another status and leaves the data alone.
\<close>

type_synonym disk = "u64 \<Rightarrow> u8 list"

definition sectors_ok :: "disk \<Rightarrow> bool" where
  "sectors_ok dk \<longleftrightarrow> (\<forall>s. length (dk s) = 512)"

definition carried_out :: "ReqType \<Rightarrow> u64 \<Rightarrow> usize \<Rightarrow> usize \<Rightarrow> mem \<times> disk \<Rightarrow> mem \<times> disk" where
  "carried_out ty s buf_at resp_at w =
     (if ty = Req_In then ((put_mem buf_at (snd w s) (fst w))(resp_at := 0), snd w)
      else ((fst w)(resp_at := 0), (snd w)(s := load_mem (fst w) buf_at 512)))"

definition request_chain :: "ReqType \<Rightarrow> Descriptor \<times> Descriptor \<times> Descriptor \<Rightarrow> bool" where
  "request_chain ty ds \<longleftrightarrow>
     (let (d0, d1, d2) = ds
      in d_len d0 = 16 \<and> d_flags d0 = DESC_NEXT \<and>
         d_len d1 = 512 \<and> d_flags d1 = (if ty = Req_In then DESC_WRITE OR DESC_NEXT else DESC_NEXT) \<and>
         d_len d2 = 1 \<and> d_flags d2 = DESC_WRITE)"

definition notified :: "VirtIOHeader \<Rightarrow> bool" where
  "notified h \<longleftrightarrow> dev_status h AND DRIVER_OK = DRIVER_OK \<and> 0 \<in> set (queue_notify h)"

definition blk_outcome :: "u64 \<Rightarrow> ReqType \<Rightarrow> u64 \<Rightarrow> usize \<Rightarrow> usize \<Rightarrow> mem \<times> disk \<Rightarrow> mem \<times> disk \<Rightarrow> bool" where
  "blk_outcome cap ty s buf_at resp_at w w' \<longleftrightarrow>
     (if s < cap then w' = carried_out ty s buf_at resp_at w
      else \<exists>status. status \<noteq> 0 \<and> w' = ((fst w)(resp_at := status), snd w))"

definition blk_device :: "u64 \<Rightarrow> disk device \<Rightarrow> bool" where
  "blk_device cap dev \<longleftrightarrow>
     (\<forall>h q w d0 d1 d2 ty s. notified h \<longrightarrow> \<not> can_pop q \<longrightarrow> us_idx (used q) + 1 = av_idx (avail q) \<longrightarrow>
        pending_chain q = (d0, d1, d2) \<longrightarrow> ty \<in> {Req_In, Req_Out} \<longrightarrow> request_chain ty (d0, d1, d2) \<longrightarrow>
        load_mem (fst w) (d_addr d0) 16 = BlkReq_as_buf \<lparr>req_type = ty, req_reserved = 0, req_sector = s\<rparr> \<longrightarrow>
        sectors_ok (snd w) \<longrightarrow>
        (\<exists>n len isr w'. (\<forall>i < n. \<not> can_pop (fst (snd (dev_run dev i (h, q, w))))) \<and>
           dev_run dev n (h, q, w) = (h\<lparr>queue_notify := [], interrupt_status := isr\<rparr>, answered len q, w') \<and>
           blk_outcome cap ty s (d_addr d1) (d_addr d2) w w'))"

section \<open>One request\<close>

definition blk_idle :: "nat list \<Rightarrow> VirtQueue \<Rightarrow> bool" where
  "blk_idle fr q \<longleftrightarrow> vq_inv fr [] q \<and> 3 \<le> length fr \<and> us_idx (used q) = last_used_idx q \<and>
     avail_idx q = last_used_idx q"

definition blk_ready :: "nat list \<Rightarrow> VirtIOBlk \<Rightarrow> bool" where
  "blk_ready fr b \<longleftrightarrow> blk_idle fr (vb_queue b) \<and> queue_notify (vb_header b) = [] \<and>
     dev_status (vb_header b) AND DRIVER_OK = DRIVER_OK"

definition bufs :: "ReqType \<Rightarrow> usize \<Rightarrow> usize \<Rightarrow> usize \<times> usize \<Rightarrow> (usize \<times> usize) list \<times> (usize \<times> usize) list" where
  "bufs ty req_at resp_at buf =
     (if ty = Req_In then ([(req_at, 16)], [buf, (resp_at, 1)]) else ([(req_at, 16), buf], [(resp_at, 1)]))"

lemma add_request:
  assumes idle: "blk_idle fr q" and v: "v2p req_at = Inr p0" "v2p (fst buf) = Inr p1" "v2p resp_at = Inr p2"
    and sz: "snd buf = 512"
  obtains q' where "vq_add v2p (fst (bufs ty req_at resp_at buf)) (snd (bufs ty req_at resp_at buf)) q = Inr (Inr (free_head q), q')"
    "vq_inv (drop 3 fr) [take 3 fr] q'" "used q' = used q" "last_used_idx q' = last_used_idx q" "queue_size q' = queue_size q"
    "avail_idx q' = avail_idx q + 1" "av_idx (avail q') = avail_idx q + 1" "pending q' = free_head q"
    "d_addr (fst (pending_chain q')) = p0" "d_addr (fst (snd (pending_chain q'))) = p1"
    "d_addr (snd (snd (pending_chain q'))) = p2" "request_chain ty (pending_chain q')"
proof -
  let ?ins = "fst (bufs ty req_at resp_at buf)" and ?outs = "snd (bufs ty req_at resp_at buf)"
  define pa where "pa = (\<lambda>a. case v2p a of Inl _ \<Rightarrow> 0 | Inr x \<Rightarrow> x)"
  have app: "?ins @ ?outs = [(req_at, 16), buf, (resp_at, 1)]" by (simp add: bufs_def)
  have n: "length ?ins + length ?outs = 3" by (simp add: bufs_def)
  have vv: "\<forall>b \<in> set (?ins @ ?outs). v2p (fst b) = Inr (pa (fst b))" unfolding app by (simp add: pa_def v)
  have inv: "vq_inv fr [] q" and l3: "3 \<le> length fr" using idle by (simp_all add: blk_idle_def)
  obtain fh where r: "vq_add v2p ?ins ?outs q = Inr (Inr (free_head q),
      q\<lparr>desc := added pa ?ins ?outs fr (desc q), free_head := fh, num_used := num_used q + of_nat (length ?ins + length ?outs),
        avail := (avail q)\<lparr>av_ring := (av_ring (avail q))[unat (avail_idx q AND (queue_size q - 1)) := free_head q],
          av_idx := avail_idx q + 1\<rparr>, avail_idx := avail_idx q + 1\<rparr>)"
    and fh: "length ?ins + length ?outs < length fr \<longrightarrow> unat fh = fr ! (length ?ins + length ?outs)"
    by (rule vq_add_eq [OF inv vv]) (use l3 n in simp_all)
  define q' where "q' = q\<lparr>desc := added pa ?ins ?outs fr (desc q), free_head := fh, num_used := num_used q + of_nat 3,
        avail := (avail q)\<lparr>av_ring := (av_ring (avail q))[unat (avail_idx q AND (queue_size q - 1)) := free_head q],
          av_idx := avail_idx q + 1\<rparr>, avail_idx := avail_idx q + 1\<rparr>"
  have inv': "vq_inv (drop 3 fr) [take 3 fr] q'"
    using vq_add_inv [OF inv vv _ l3 n [symmetric] q'_def] fh n by simp
  have ne: "fr \<noteq> []" using l3 by auto
  have i: "vq_shape q" "unat (queue_size q) \<le> 32" "distinct fr" "set fr = {..<unat (queue_size q)}" "unat (free_head q) = hd fr"
    using inv ne by (simp_all add: vq_inv_def)
  have fr: "\<forall>x \<in> set fr. x < length (desc q)" using i(1,4) by (simp add: vq_shape_def)
  have slot: "unat (avail_idx q AND (queue_size q - 1)) < length (av_ring (avail q))"
    using slot_less [of q "avail_idx q"] power_of_two_nonzero i(1,2) by (fastforce simp: vq_shape_def)
  have pend: "pending q' = free_head q" using slot idle by (simp add: pending_def q'_def blk_idle_def)
  have at: "desc q' ! (fr ! j) = (desc q ! (fr ! j))\<lparr>d_addr := pa (fst ([(req_at, 16), buf, (resp_at, 1)] ! j)),
      d_len := ucast (snd ([(req_at, 16), buf, (resp_at, 1)] ! j)),
      d_flags := (if j < length ?ins then 0 else DESC_WRITE) OR (if Suc j < 3 then DESC_NEXT else 0)\<rparr>" if "j < 3" for j
    using added_at [OF i(3) fr, of ?ins ?outs j pa] l3 n that unfolding app by (simp add: q'_def)
  obtain x0 x1 x2 rest where x: "fr = x0 # x1 # x2 # rest"
    using l3 by (auto simp: numeral_3_eq_3 Suc_le_length_iff)
  have "chained (desc q') (take 3 fr)" using inv' unfolding vq_inv_def by simp
  then have nx: "unat (d_next (desc q' ! x0)) = x1" "unat (d_next (desc q' ! x1)) = x2" by (simp_all add: x)
  have pc: "pending_chain q' = (desc q' ! x0, desc q' ! x1, desc q' ! x2)"
    using nx i(5) by (simp add: pending_chain_def pend x Let_def)
  have chain: "d_addr (fst (pending_chain q')) = p0" "d_addr (fst (snd (pending_chain q'))) = p1"
    "d_addr (snd (snd (pending_chain q'))) = p2" "request_chain ty (pending_chain q')"
    unfolding pc using at [of 0] at [of 1] at [of 2]
    by (simp_all add: x pa_def v request_chain_def sz bufs_def)
  show ?thesis using that [of q'] r inv' pend chain n by (simp add: q'_def)
qed


lemma answered_pop:
  assumes inv: "vq_inv fr [c] q" and h: "unat (pending q) = hd c" and u: "us_idx (used q) = last_used_idx q"
  shows "\<exists>q' tok. vq_pop_used (answered len q) = Some (Inr (Inr tok, q')) \<and> vq_inv (c @ fr) [] q' \<and>
    last_used_idx q' = last_used_idx q + 1 \<and> us_idx (used q') = last_used_idx q + 1 \<and> avail_idx q' = avail_idx q"
proof -
  let ?q = "answered len q" and ?slot = "unat (us_idx (used q) AND (queue_size q - 1))"
  have i: "vq_shape q" "unat (queue_size q) \<le> 32" using inv unfolding vq_inv_def by blast+
  have slot: "?slot < length (us_ring (used q))"
    using slot_less [of q "us_idx (used q)"] power_of_two_nonzero i by (fastforce simp: vq_shape_def)
  have inv': "vq_inv fr [c] ?q" using inv unfolding vq_inv_def vq_shape_def answered_def by simp
  have "ucast (pending q) = (of_nat (hd c) :: u32)" unfolding h [symmetric]
    by (intro word_unat_eqI) (simp add: unsigned_ucast_eq)
  then have entry: "us_ring (used ?q) ! unat (last_used_idx ?q AND (queue_size ?q - 1)) = (of_nat (hd c), len)"
    using slot by (simp add: answered_def u [symmetric])
  have cp: "can_pop ?q" by (simp add: can_pop_def answered_def u)
  have mem: "c \<in> set [c]" by simp
  obtain q' where q': "vq_pop_used ?q = Some (Inr (Inr (of_nat (hd c), len), q'))" "vq_inv (c @ fr) (remove1 c [c]) q'"
    "last_used_idx q' = last_used_idx ?q + 1" "used q' = used ?q" "avail_idx q' = avail_idx ?q"
    using pop_used_chain [OF inv' mem entry cp] by blast
  have "vq_inv (c @ fr) [] q'" using q'(2) by simp
  moreover have "last_used_idx q' = last_used_idx q + 1" "us_idx (used q') = last_used_idx q + 1" "avail_idx q' = avail_idx q"
    using q'(3-5) by (simp_all add: answered_def u)
  ultimately show ?thesis using q'(1) by blast
qed

lemma length_BlkReq [simp]: "length (BlkReq_as_buf r) = 16"
  by (simp add: BlkReq_as_buf_def)

lemma blk_request_done:
  assumes dev: "blk_device cap dev" and rdy: "blk_ready fr b" and ty: "ty \<in> {Req_In, Req_Out}"
    and c: "contiguous v2p req_at p0 16" "contiguous v2p (fst buf) p1 512" "contiguous v2p resp_at p2 1"
    and sz: "snd buf = 512" and dj: "p2 \<notin> mem_range p0 16" "mem_range p1 512 \<inter> mem_range p0 16 = {}" "p2 \<notin> mem_range p1 512"
    and dk: "sectors_ok dk"
  shows "\<exists>b' fr' w'. blk_request v2p dev ty req_at resp_at s buf b (m, dk) =
      Some (Inr (if s < cap then Inr () else Inl IoError, b', w')) \<and> blk_ready fr' b' \<and>
    (s < cap \<longrightarrow> w' = carried_out ty s p1 p2
        (put_mem p0 (BlkReq_as_buf \<lparr>req_type = ty, req_reserved = 0, req_sector = s\<rparr>) m, dk))"
proof -
  let ?req = "BlkReq_as_buf \<lparr>req_type = ty, req_reserved = 0, req_sector = s\<rparr>" and ?h = "notify 0 (vb_header b)"
  let ?m1 = "(put_mem p0 ?req m)(p2 := 3)"
  have v: "v2p req_at = Inr p0" "v2p (fst buf) = Inr p1" "v2p resp_at = Inr p2"
    by (rule contiguous_start [OF c(1)] contiguous_start [OF c(2)] contiguous_start [OF c(3)], simp)+
  have idle: "blk_idle fr (vb_queue b)" using rdy by (simp add: blk_ready_def)
  obtain q' where q': "vq_add v2p (fst (bufs ty req_at resp_at buf)) (snd (bufs ty req_at resp_at buf)) (vb_queue b) =
      Inr (Inr (free_head (vb_queue b)), q')" "vq_inv (drop 3 fr) [take 3 fr] q'" "used q' = used (vb_queue b)"
    "last_used_idx q' = last_used_idx (vb_queue b)" "queue_size q' = queue_size (vb_queue b)"
    "avail_idx q' = avail_idx (vb_queue b) + 1" "av_idx (avail q') = avail_idx (vb_queue b) + 1"
    "pending q' = free_head (vb_queue b)" "d_addr (fst (pending_chain q')) = p0"
    "d_addr (fst (snd (pending_chain q'))) = p1" "d_addr (snd (snd (pending_chain q'))) = p2"
    "request_chain ty (pending_chain q')"
    by (rule add_request [OF idle v sz])
  obtain d0 d1 d2 where pc: "pending_chain q' = (d0, d1, d2)" by (cases "pending_chain q'")
  have d: "d_addr d0 = p0" "d_addr d1 = p1" "d_addr d2 = p2" "request_chain ty (d0, d1, d2)"
    using q'(9-12) by (simp_all add: pc)
  have id: "us_idx (used (vb_queue b)) = last_used_idx (vb_queue b)" "avail_idx (vb_queue b) = last_used_idx (vb_queue b)"
    "vq_inv fr [] (vb_queue b)" "3 \<le> length fr" using idle by (simp_all add: blk_idle_def)
  have sub: "submit v2p ty req_at resp_at s buf b m = Inr (Inr (free_head (vb_queue b)), b\<lparr>vb_queue := q'\<rparr>, ?m1)"
    using q'(1) c store_bytes_put [of v2p req_at p0 ?req m] store_bytes_put [of v2p resp_at p2 "[3]" "put_mem p0 ?req m"]
    by (simp add: submit_def sz BLK_SIZE_def BlkResp_default_def bufs_def split: if_splits)
  have "load_mem ?m1 p0 16 = load_mem (put_mem p0 ?req m) p0 16" using dj(1) by (intro load_cong) auto
  then have ld: "load_mem ?m1 p0 16 = ?req" using load_put_same [of ?req p0 m] by simp
  have np: "\<not> can_pop q'" "us_idx (used q') + 1 = av_idx (avail q')" by (simp_all add: can_pop_def q'(3,4,7) id)
  have nt: "notified ?h" using rdy by (simp add: notified_def notify_def blk_ready_def)
  from dev [unfolded blk_device_def, rule_format, OF nt np pc ty d(4), of "(?m1, dk)" s] obtain n len isr w'
    where run: "\<forall>i < n. \<not> can_pop (fst (snd (dev_run dev i (?h, q', ?m1, dk))))"
      "dev_run dev n (?h, q', ?m1, dk) = (?h\<lparr>queue_notify := [], interrupt_status := isr\<rparr>, answered len q', w')"
      "blk_outcome cap ty s p1 p2 (?m1, dk) w'"
    using ld dk unfolding d by auto
  have "can_pop (answered len q')" by (simp add: can_pop_def answered_def q'(3,4) id)
  then have sp: "spin dev (?h, q', ?m1, dk) = Some (?h\<lparr>queue_notify := [], interrupt_status := isr\<rparr>, answered len q', w')"
    using spin_returns [OF run(1)] by (simp add: run(2))
  have h: "unat (pending q') = hd (take 3 fr)"
    using id(3,4) q'(8) unfolding vq_inv_def by (cases fr) auto
  obtain q2 tok where pop: "vq_pop_used (answered len q') = Some (Inr (Inr tok, q2))" "vq_inv (take 3 fr @ drop 3 fr) [] q2"
    "last_used_idx q2 = last_used_idx q' + 1" "us_idx (used q2) = last_used_idx q' + 1" "avail_idx q2 = avail_idx q'"
    using answered_pop [OF q'(2) h, of len] q'(3,4) id(1) by auto
  have co: "carried_out ty s p1 p2 (?m1, dk) = carried_out ty s p1 p2 (put_mem p0 ?req m, dk)"
    using ty dj(3) by (auto simp: carried_out_def fun_eq_iff intro!: load_cong put_mem_cong)
  have st: "fst w' p2 = 0 \<longleftrightarrow> s < cap" "s < cap \<longrightarrow> w' = carried_out ty s p1 p2 (put_mem p0 ?req m, dk)"
    using run(3) co by (auto simp: blk_outcome_def carried_out_def split: if_splits)
  let ?b = "b\<lparr>vb_header := ?h\<lparr>queue_notify := [], interrupt_status := isr\<rparr>, vb_queue := q2\<rparr>"
  have "complete_request v2p dev resp_at (b\<lparr>vb_queue := q'\<rparr>) (?m1, dk) =
      Some (Inr (if s < cap then Inr () else Inl IoError, ?b, w'))"
    by (simp add: complete_request_def sp pop(1) v(3) st(1))
  moreover have "blk_ready (take 3 fr @ drop 3 fr) ?b"
    using pop(2-5) id q'(4,6) rdy by (simp add: blk_ready_def blk_idle_def notify_def)
  ultimately show ?thesis using st(2)
    by (intro exI [of _ ?b] exI [of _ "take 3 fr @ drop 3 fr"] exI [of _ w']) (simp add: blk_request_def sub)
qed


section \<open>Properties\<close>

text \<open>
  C32: With a device that behaves as the virtio specification says, which acts only when it is notified
  and only on chains with the right lengths and access flags, the block driver of the kernel does
  not wait forever. A sector within the capacity that was written reads back as written, into any
  buffer, with every other sector of the disk unchanged; afterwards all descriptors are free again
  and the driver is ready for the next request. A sector beyond the capacity, which the driver does
  not check, makes the kernel panic. Buffers must be contiguous in physical memory, since only their
  first address is translated, and disjoint from the request and the status byte.
\<close>

theorem virtio_read_after_write:
  assumes "blk_device cap dev" and "blk_ready fr b"
    and "contiguous v2p req_at p0 16" "contiguous v2p resp_at p2 1" "p2 \<notin> mem_range p0 16"
    and "snd buf = 512" "contiguous v2p (fst buf) p1 512" "mem_range p1 512 \<inter> mem_range p0 16 = {}" "p2 \<notin> mem_range p1 512"
    and "snd buf' = 512" "contiguous v2p (fst buf') p1' 512" "mem_range p1' 512 \<inter> mem_range p0 16 = {}" "p2 \<notin> mem_range p1' 512"
    and "sectors_ok dk"
  shows "(s < cap \<longrightarrow>
      (\<exists>b1 w1 b2 w2 fr'. virtio_write_block v2p dev req_at resp_at s buf b (m, dk) = Some (Inr ((), b1, w1)) \<and>
        virtio_read_block v2p dev req_at resp_at s buf' b1 w1 = Some (Inr ((), b2, w2)) \<and>
        load_mem (fst w2) p1' 512 = load_mem m p1 512 \<and> (\<forall>s'. s' \<noteq> s \<longrightarrow> snd w2 s' = dk s') \<and> blk_ready fr' b2)) \<and>
    (cap \<le> s \<longrightarrow> virtio_write_block v2p dev req_at resp_at s buf b (m, dk) = Some (Inl Unwrap_None) \<and>
        virtio_read_block v2p dev req_at resp_at s buf b (m, dk) = Some (Inl Unwrap_None))"
proof (intro conjI impI)
  assume s: "s < cap"
  let ?m0 = "put_mem p0 (BlkReq_as_buf \<lparr>req_type = Req_Out, req_reserved = 0, req_sector = s\<rparr>) m"
  have ty: "Req_Out \<in> {Req_In, Req_Out}" "Req_In \<in> {Req_In, Req_Out}" by simp_all
  obtain b1 fr1 where w: "blk_request v2p dev Req_Out req_at resp_at s buf b (m, dk) =
      Some (Inr (Inr (), b1, carried_out Req_Out s p1 p2 (?m0, dk)))" "blk_ready fr1 b1"
    using blk_request_done [OF assms(1,2) ty(1) assms(3,7,4,6,5,8,9,14), of s m] s by auto
  define m1 dk1 where "m1 = ?m0(p2 := 0)" and "dk1 = dk(s := load_mem ?m0 p1 512)"
  have co: "carried_out Req_Out s p1 p2 (?m0, dk) = (m1, dk1)" by (simp add: carried_out_def m1_def dk1_def)
  have dk1: "sectors_ok dk1" using assms(14) by (simp add: sectors_ok_def dk1_def load_mem_def)
  let ?m2 = "put_mem p0 (BlkReq_as_buf \<lparr>req_type = Req_In, req_reserved = 0, req_sector = s\<rparr>) m1"
  obtain b2 fr2 where r: "blk_request v2p dev Req_In req_at resp_at s buf' b1 (m1, dk1) =
      Some (Inr (Inr (), b2, carried_out Req_In s p1' p2 (?m2, dk1)))" "blk_ready fr2 b2"
    using blk_request_done [OF assms(1) w(2) ty(2) assms(3,11,4,10,5,12,13) dk1, of s m1] s by auto
  have data: "load_mem ?m0 p1 512 = load_mem m p1 512"
    by (intro load_cong put_mem_other) (use assms(8) in auto)
  have "load_mem ((put_mem p1' (dk1 s) ?m2)(p2 := 0)) p1' 512 = load_mem (put_mem p1' (dk1 s) ?m2) p1' 512"
    using assms(13) by (intro load_cong) auto
  also have "\<dots> = dk1 s" using load_put_same [of "dk1 s" p1' ?m2] by (simp add: dk1_def load_mem_def)
  finally have readback: "load_mem (fst (carried_out Req_In s p1' p2 (?m2, dk1))) p1' 512 = load_mem m p1 512"
    by (simp add: carried_out_def dk1_def data)
  have same: "snd (carried_out Req_In s p1' p2 (?m2, dk1)) s' = dk s'" if "s' \<noteq> s" for s'
    using that by (simp add: carried_out_def dk1_def)
  show "\<exists>b1 w1 b2 w2 fr'. virtio_write_block v2p dev req_at resp_at s buf b (m, dk) = Some (Inr ((), b1, w1)) \<and>
        virtio_read_block v2p dev req_at resp_at s buf' b1 w1 = Some (Inr ((), b2, w2)) \<and>
        load_mem (fst w2) p1' 512 = load_mem m p1 512 \<and> (\<forall>s'. s' \<noteq> s \<longrightarrow> snd w2 s' = dk s') \<and> blk_ready fr' b2"
    by (rule exI [of _ b1], rule exI [of _ "(m1, dk1)"], rule exI [of _ b2],
        rule exI [of _ "carried_out Req_In s p1' p2 (?m2, dk1)"], rule exI [of _ fr2])
      (use w(1) r readback same in \<open>simp add: virtio_write_block_def virtio_read_block_def blk_write_block_def
        blk_read_block_def expect_ok_def co\<close>)
next
  assume "cap \<le> s"
  then have e: "\<exists>b' w'. blk_request v2p dev ty req_at resp_at s buf b (m, dk) = Some (Inr (Inl IoError, b', w'))"
    if "ty \<in> {Req_In, Req_Out}" for ty
    using blk_request_done [OF assms(1,2) that assms(3,7,4,6,5,8,9,14), of s m] by (auto simp: not_less)
  show "virtio_write_block v2p dev req_at resp_at s buf b (m, dk) = Some (Inl Unwrap_None)"
    "virtio_read_block v2p dev req_at resp_at s buf b (m, dk) = Some (Inl Unwrap_None)"
    using e [of Req_Out] e [of Req_In]
    by (auto simp: virtio_write_block_def virtio_read_block_def blk_write_block_def blk_read_block_def expect_ok_def)
qed

text \<open>A device that answers every request as soon as it is notified.\<close>

definition ram_disk :: "u64 \<Rightarrow> disk device" where
  "ram_disk cap = (\<lambda>(h, q, w).
     if \<not> notified h then (h, used q, w)
     else
       let (d0, d1, d2) = pending_chain q;
           req = load_mem (fst w) (d_addr d0) 16;
           ty = (if le_val (take 4 req) = 0 then Req_In else Req_Out);
           s = of_nat (le_val (drop 8 req));
           h' = h\<lparr>queue_notify := [], interrupt_status := 1\<rparr>
       in if request_chain ty (d0, d1, d2) \<and> s < cap
          then (h', used (answered 513 q), carried_out ty s (d_addr d1) (d_addr d2) w)
          else (h', used (answered 1 q), (fst w)(d_addr d2 := RespStatus_val Resp_IoErr), snd w))"

lemma blk_device_ram_disk: "blk_device cap (ram_disk cap)"
  unfolding blk_device_def
proof (intro allI impI)
  fix h q d0 d1 d2 ty and s :: u64 and w :: "mem \<times> disk"
  assume a: "notified h" "\<not> can_pop q" "pending_chain q = (d0, d1, d2)" "ty \<in> {Req_In, Req_Out}"
    "request_chain ty (d0, d1, d2)"
    "load_mem (fst w) (d_addr d0) 16 = BlkReq_as_buf \<lparr>req_type = ty, req_reserved = 0, req_sector = s\<rparr>"
  have r: "(if le_val (take 4 (load_mem (fst w) (d_addr d0) 16)) = 0 then Req_In else Req_Out) = ty"
    "of_nat (le_val (drop 8 (load_mem (fst w) (d_addr d0) 16))) = s"
    using a(4) unsigned_less [of s] by (auto simp: a(6) BlkReq_as_buf_def)
  let ?h = "h\<lparr>queue_notify := [], interrupt_status := 1\<rparr>"
  let ?len = "if s < cap then 513 else 1 :: u32"
  let ?w = "if s < cap then carried_out ty s (d_addr d1) (d_addr d2) w else ((fst w)(d_addr d2 := 1), snd w)"
  have "ram_disk cap (h, q, w) = (?h, used (answered ?len q), ?w)"
    using a(1,5) by (simp add: ram_disk_def a(3) r Let_def)
  then have "dev_run (ram_disk cap) 1 (h, q, w) = (?h, answered ?len q, ?w)" by (simp add: answered_def)
  moreover have "blk_outcome cap ty s (d_addr d1) (d_addr d2) w ?w" by (auto simp: blk_outcome_def intro!: exI [of _ 1])
  ultimately show "\<exists>n len isr w'. (\<forall>i < n. \<not> can_pop (fst (snd (dev_run (ram_disk cap) i (h, q, w))))) \<and>
      dev_run (ram_disk cap) n (h, q, w) = (h\<lparr>queue_notify := [], interrupt_status := isr\<rparr>, answered len q, w') \<and>
      blk_outcome cap ty s (d_addr d1) (d_addr d2) w w'"
    using a(2) by (intro exI [of _ 1] exI [of _ ?len] exI [of _ ?w]) auto
qed


definition idle_queue :: VirtQueue where
  "idle_queue = sample_queue\<lparr>desc := link_descriptors 4 (replicate 4 \<lparr>d_addr = 0, d_len = 0, d_flags = 0, d_next = 0\<rparr>),
     num_used := 0, free_head := 0, avail_idx := 1, last_used_idx := 1\<rparr>"

lemma idle_queue_idle: "blk_idle [0..<4] idle_queue"
proof -
  let ?ds = "replicate 4 \<lparr>d_addr = 0, d_len = 0, d_flags = 0, d_next = 0\<rparr>"
  have "length ?ds = unat (4 :: u16)" "(4 :: u16) \<noteq> 0" by simp_all
  note l = link_descriptors_linked [OF this]
  have "is_power_of_two 4" by (simp add: power_of_two_values)
  then have "vq_inv [0..<4] [] idle_queue"
    using l by (auto simp: vq_inv_def vq_shape_def idle_queue_def sample_queue_def upt_conv_Cons)
  then show ?thesis by (simp add: blk_idle_def idle_queue_def sample_queue_def)
qed

lemma mem_range_bounds:
  assumes "x \<in> mem_range a n" and "unat a + n < 2 ^ 64"
  shows "unat a \<le> unat x \<and> unat x < unat a + n"
proof -
  obtain i where i: "i < n" "x = a + of_nat i" using assms(1) by (auto simp: mem_range_def)
  then have "unat x = unat a + i" using assms(2) by (simp add: unat_word_ariths unat_of_nat)
  then show ?thesis using i by simp
qed

definition sample_blk :: VirtIOBlk where
  "sample_blk =
     \<lparr>vb_header = \<lparr>magic = 0x74726976, version = 1, device_id = 2, vendor_id = 0, device_features = (\<lambda>_. 0),
        device_features_sel = 0, driver_features = (\<lambda>_. 0), driver_features_sel = 0, guest_page_size = 4096, queue_sel = 0,
        queue_num_max = (\<lambda>_. 1024), queue_num = (\<lambda>_. 4), queue_align = (\<lambda>_. 4096), queue_pfn = (\<lambda>_. 0x80500),
        queue_notify = [], interrupt_status = 0, interrupt_ack = [], dev_status = DRIVER_OK\<rparr>,
      vb_queue = idle_queue, vb_capacity = 100\<rparr>"

theorem virtio_read_after_write_witness:
  "(\<exists>b1 w1 b2 w2. virtio_write_block Inr (ram_disk 100) 0x1000 0x2000 7 (0x3000, 512) sample_blk
       (\<lambda>_. 42, \<lambda>_. replicate 512 0) = Some (Inr ((), b1, w1)) \<and>
     virtio_read_block Inr (ram_disk 100) 0x1000 0x2000 7 (0x4000, 512) b1 w1 = Some (Inr ((), b2, w2)) \<and>
     load_mem (fst w2) 0x4000 512 = load_mem (\<lambda>_. 42) 0x3000 512) \<and>
   virtio_write_block Inr (ram_disk 100) 0x1000 0x2000 100 (0x3000, 512) sample_blk (\<lambda>_. 42, \<lambda>_. replicate 512 0) =
     Some (Inl Unwrap_None)"
proof -
  have c: "contiguous Inr a a n" for a n by (simp add: contiguous_def)
  have d: "(0x2000 :: usize) \<notin> mem_range 0x1000 16" "(0x2000 :: usize) \<notin> mem_range 0x3000 512"
    "(0x2000 :: usize) \<notin> mem_range 0x4000 512" by (auto dest: mem_range_bounds)
  have e: "mem_range 0x3000 512 \<inter> mem_range 0x1000 16 = {}" "mem_range 0x4000 512 \<inter> mem_range 0x1000 16 = {}"
    by (auto dest!: mem_range_bounds)
  have b: "blk_ready [0..<4] sample_blk" by (simp add: blk_ready_def sample_blk_def idle_queue_idle)
  have s: "snd (0x3000 :: usize, 512 :: usize) = 512" "snd (0x4000 :: usize, 512 :: usize) = 512" by simp_all
  have cc: "contiguous Inr (fst (a, n)) a k" for a k and n :: usize by (simp add: c)
  have dk: "sectors_ok (\<lambda>_. replicate 512 0)" by (simp add: sectors_ok_def)
  note w = virtio_read_after_write
    [OF blk_device_ram_disk b c c d(1) s(1) cc e(1) d(2) s(2) cc e(2) d(3) dk, of _ 100 "\<lambda>_. 42"]
  have lt: "(7 :: u64) < 100" "(100 :: u64) \<le> 100" by simp_all
  show ?thesis using w [of 7, THEN conjunct1, rule_format, OF lt(1)] w [of 100, THEN conjunct2, rule_format, OF lt(2)] by blast
qed

end
