(* ===== verification/Virtio_Input.thy ===== *)
theory Virtio_Input
  imports Virtio_Blk
begin

text \<open>
  The virtio input driver (\<open>input.rs\<close> of the \<open>virtio-drivers\<close> crate): 32 event slots, each offered
  to the device in a descriptor of its own. The slots lie in memory at the address of the box
  \<open>event_buf\<close>, an argument. Returning early from \<open>new\<close> drops the queues made before, which gives their
  pages back.
\<close>

unbundle bit_operations_syntax

section \<open>The driver\<close>

definition QUEUE_EVENT :: usize where "QUEUE_EVENT = 0"
definition QUEUE_STATUS :: usize where "QUEUE_STATUS = 1"
definition INPUT_QUEUE_SIZE :: nat where "INPUT_QUEUE_SIZE = 32"

record InputEvent =
  ev_type :: u16
  ev_code :: u16
  ev_value :: u32

definition InputEvent_size :: nat where "InputEvent_size = 8"

definition InputEvent_of_bytes :: "u8 list \<Rightarrow> InputEvent" where
  "InputEvent_of_bytes bs =
     \<lparr>ev_type = of_nat (le_val (slice 0 2 bs)), ev_code = of_nat (le_val (slice 2 2 bs)),
      ev_value = of_nat (le_val (slice 4 4 bs))\<rparr>"

definition InputEvent_as_buf :: "InputEvent \<Rightarrow> u8 list" where
  "InputEvent_as_buf e = le_bytes 2 (unat (ev_type e)) @ le_bytes 2 (unat (ev_code e)) @ le_bytes 4 (unat (ev_value e))"

datatype InputConfigSelect = IdName | IdSerial | IdDevids | PropBits | EvBits | AbsInfo

fun InputConfigSelect_val :: "InputConfigSelect \<Rightarrow> u8" where
  "InputConfigSelect_val IdName = 0x01"
| "InputConfigSelect_val IdSerial = 0x02"
| "InputConfigSelect_val IdDevids = 0x03"
| "InputConfigSelect_val PropBits = 0x10"
| "InputConfigSelect_val EvBits = 0x11"
| "InputConfigSelect_val AbsInfo = 0x12"

definition InputFeature_bits :: "nat list" where
  "InputFeature_bits = [24, 27, 28, 29, 30, 32, 33, 34, 35, 36, 37, 38]"

definition InputFeature_from_bits_truncate :: "u64 \<Rightarrow> u64" where
  "InputFeature_from_bits_truncate bits = bits AND foldl (\<lambda>w n. w OR push_bit n 1) 0 InputFeature_bits"

definition input_negotiate :: "u64 \<Rightarrow> u64" where
  "input_negotiate bits = InputFeature_from_bits_truncate bits AND 0"

record VirtIOInput =
  vi_header :: VirtIOHeader
  vi_event_queue :: VirtQueue
  vi_status_queue :: VirtQueue
  vi_event_buf :: usize

text \<open>Dropping a queue drops its DMA memory.\<close>

definition drop_queue :: "(usize \<Rightarrow> usize \<Rightarrow> 's \<Rightarrow> (u32 \<times> 's) res) \<Rightarrow> VirtQueue \<Rightarrow> 's \<Rightarrow> 's res" where
  "drop_queue dma_dealloc q s = DMA_drop dma_dealloc (vq_dma q) s"

text \<open>The address of a slot, and the loop of \<open>new\<close> that offers the slots to the device.\<close>

definition event_slot :: "usize \<Rightarrow> nat \<Rightarrow> usize" where
  "event_slot buf i = buf + of_nat (InputEvent_size * i)"

fun add_events :: "(usize \<Rightarrow> usize res) \<Rightarrow> usize \<Rightarrow> nat list \<Rightarrow> VirtQueue \<Rightarrow> ((Error + unit) \<times> VirtQueue) res" where
  "add_events v2p buf [] q = Inr (Inr (), q)"
| "add_events v2p buf (i # is) q =
     rbind (vq_add v2p [] [(event_slot buf i, of_nat InputEvent_size)] q) (\<lambda>(r, q).
       case r of
         Inl e \<Rightarrow> Inr (Inl e, q)
       | Inr token \<Rightarrow> rbind (rassert (token = of_nat i)) (\<lambda>_. add_events v2p buf is q))"

definition VirtIOInput_new ::
  "(usize \<Rightarrow> usize res) \<Rightarrow> (usize \<Rightarrow> 's \<Rightarrow> (usize \<times> 's) res) \<Rightarrow> (usize \<Rightarrow> usize \<Rightarrow> 's \<Rightarrow> (u32 \<times> 's) res) \<Rightarrow>
   Descriptor list \<times> AvailRing \<times> UsedRing \<Rightarrow> Descriptor list \<times> AvailRing \<times> UsedRing \<Rightarrow> usize \<Rightarrow>
   VirtIOHeader \<Rightarrow> mem \<Rightarrow> 's \<Rightarrow> ((Error + VirtIOInput) \<times> VirtIOHeader \<times> mem \<times> 's) res" where
  "VirtIOInput_new v2p dma_alloc dma_dealloc contents0 contents1 event_buf h m s =
     rbind (store_bytes v2p event_buf (replicate (InputEvent_size * INPUT_QUEUE_SIZE) 0) m) (\<lambda>m.
     let h = begin_init input_negotiate h
     in rbind (VirtQueue_new dma_alloc contents0 QUEUE_EVENT (of_nat INPUT_QUEUE_SIZE) h s) (\<lambda>(r, h, s).
        case r of
          Inl e \<Rightarrow> Inr (Inl e, h, m, s)
        | Inr event_queue \<Rightarrow>
            rbind (VirtQueue_new dma_alloc contents1 QUEUE_STATUS (of_nat INPUT_QUEUE_SIZE) h s) (\<lambda>(r, h, s).
            case r of
              Inl e \<Rightarrow> rbind (drop_queue dma_dealloc event_queue s) (\<lambda>s. Inr (Inl e, h, m, s))
            | Inr status_queue \<Rightarrow>
                rbind (add_events v2p event_buf [0..<INPUT_QUEUE_SIZE] event_queue) (\<lambda>(r, event_queue).
                case r of
                  Inl e \<Rightarrow>
                    rbind (drop_queue dma_dealloc status_queue s) (\<lambda>s.
                    rbind (drop_queue dma_dealloc event_queue s) (\<lambda>s. Inr (Inl e, h, m, s)))
                | Inr _ \<Rightarrow>
                    let h = finish_init h
                    in Inr (Inr \<lparr>vi_header = h, vi_event_queue = event_queue, vi_status_queue = status_queue,
                                vi_event_buf = event_buf\<rparr>, h, m, s)))))"

definition input_ack_interrupt :: "VirtIOInput \<Rightarrow> bool \<times> VirtIOInput" where
  "input_ack_interrupt d = (let (r, h) = header_ack_interrupt (vi_header d) in (r, d\<lparr>vi_header := h\<rparr>))"

fun load_bytes :: "(usize \<Rightarrow> usize res) \<Rightarrow> usize \<Rightarrow> nat \<Rightarrow> mem \<Rightarrow> u8 list res" where
  "load_bytes v2p va 0 m = Inr []"
| "load_bytes v2p va (Suc n) m = rbind (v2p va) (\<lambda>pa. rbind (load_bytes v2p (va + 1) n m) (\<lambda>bs. Inr (m pa # bs)))"

definition pop_pending_event ::
  "(usize \<Rightarrow> usize res) \<Rightarrow> mem \<Rightarrow> VirtIOInput \<Rightarrow> (InputEvent option \<times> VirtIOInput) res option" where
  "pop_pending_event v2p m d =
     map_option (\<lambda>r. rbind r (\<lambda>(r, q).
       case r of
         Inl _ \<Rightarrow> Inr (None, d\<lparr>vi_event_queue := q\<rparr>)
       | Inr (token, _) \<Rightarrow>
           rbind (vec_at [0..<INPUT_QUEUE_SIZE] (unat token)) (\<lambda>i.
           let event = event_slot (vi_event_buf d) i
           in rbind (vq_add v2p [] [(event, of_nat InputEvent_size)] q) (\<lambda>(r, q).
              let d = d\<lparr>vi_event_queue := q\<rparr>
              in case r of
                   Inl _ \<Rightarrow> Inr (None, d)
                 | Inr _ \<Rightarrow>
                     rbind (load_bytes v2p event InputEvent_size m) (\<lambda>bs.
                     Inr (Some (InputEvent_of_bytes bs), d)))))) (vq_pop_used (vi_event_queue d))"

text \<open>
  \<open>config\<close> is what the device shows in \<open>size\<close> and the 128 bytes of \<open>data\<close> for each value of the two
  selectors.
\<close>

definition query_config_select ::
  "(u8 \<Rightarrow> u8 \<Rightarrow> u8 \<times> u8 list) \<Rightarrow> InputConfigSelect \<Rightarrow> u8 \<Rightarrow> u8 list \<Rightarrow> (u8 \<times> u8 list) res" where
  "query_config_select config select subsel out =
     (let (size_of, data) = config (InputConfigSelect_val select) subsel
      in if length out < unat size_of \<or> length data < unat size_of then Inl Index_Out_Of_Range
         else Inr (size_of, splice 0 (take (unat size_of) data) out))"

section \<open>The slots\<close>

text \<open>The event queue between calls: descriptor \<open>i\<close> is in flight and names slot \<open>i\<close>.\<close>

definition slot_desc :: "(usize \<Rightarrow> usize) \<Rightarrow> usize \<Rightarrow> Descriptor list \<Rightarrow> nat \<Rightarrow> bool" where
  "slot_desc pa buf ds i \<longleftrightarrow> d_addr (ds ! i) = pa (event_slot buf i) \<and> d_len (ds ! i) = 8 \<and> d_flags (ds ! i) = DESC_WRITE"

definition event_slots :: "(usize \<Rightarrow> usize) \<Rightarrow> usize \<Rightarrow> VirtQueue \<Rightarrow> bool" where
  "event_slots pa buf q \<longleftrightarrow> (\<exists>cs. vq_inv [] cs q \<and> set cs = (\<lambda>i. [i]) ` {..<32}) \<and> queue_size q = 32 \<and>
     (\<forall>i < 32. slot_desc pa buf (desc q) i)"

lemma add_slot:
  assumes inv: "vq_inv (i # fr) cs q" and v: "v2p (event_slot buf i) = Inr (pa (event_slot buf i))"
  obtains q' where "vq_add v2p [] [(event_slot buf i, of_nat InputEvent_size)] q = Inr (Inr (of_nat i), q')"
    "vq_inv fr ([i] # cs) q'" "slot_desc pa buf (desc q') i" "\<And>x. x \<noteq> i \<Longrightarrow> desc q' ! x = desc q ! x"
    "avail q' = (avail q)\<lparr>av_ring := (av_ring (avail q))[unat (avail_idx q AND (queue_size q - 1)) := of_nat i], av_idx := avail_idx q + 1\<rparr>"
    "avail_idx q' = avail_idx q + 1" "used q' = used q" "last_used_idx q' = last_used_idx q" "queue_size q' = queue_size q"
proof -
  let ?outs = "[(event_slot buf i, of_nat InputEvent_size)] :: (usize \<times> usize) list"
  have vv: "\<forall>b \<in> set ([] @ ?outs). v2p (fst b) = Inr (pa (fst b))" using v by simp
  have i: "vq_shape q" "distinct (i # fr)" "unat (free_head q) = i" "set (i # fr) \<subseteq> {..<unat (queue_size q)}"
    using inv by (auto simp: vq_inv_def)
  have fh: "free_head q = of_nat i" using i(3) by auto
  have rng: "\<forall>x \<in> set (i # fr). x < length (desc q)" using i(1,4) by (auto simp: vq_shape_def)
  obtain f where r: "vq_add v2p [] ?outs q = Inr (Inr (free_head q),
      q\<lparr>desc := added pa [] ?outs (i # fr) (desc q), free_head := f, num_used := num_used q + of_nat (length [] + length ?outs),
        avail := (avail q)\<lparr>av_ring := (av_ring (avail q))[unat (avail_idx q AND (queue_size q - 1)) := free_head q],
          av_idx := avail_idx q + 1\<rparr>, avail_idx := avail_idx q + 1\<rparr>)"
    and f: "length [] + length ?outs < length (i # fr) \<longrightarrow> unat f = (i # fr) ! (length [] + length ?outs)"
    by (rule vq_add_eq [OF inv vv]) simp_all
  define q' where "q' = q\<lparr>desc := added pa [] ?outs (i # fr) (desc q), free_head := f, num_used := num_used q + of_nat 1,
        avail := (avail q)\<lparr>av_ring := (av_ring (avail q))[unat (avail_idx q AND (queue_size q - 1)) := free_head q],
          av_idx := avail_idx q + 1\<rparr>, avail_idx := avail_idx q + 1\<rparr>"
  have inv': "vq_inv fr ([i] # cs) q'" using vq_add_inv [OF inv vv _ _ _ q'_def] f by simp
  have "added pa [] ?outs (i # fr) (desc q) ! ((i # fr) ! 0) = (desc q ! i)\<lparr>d_addr := pa (event_slot buf i), d_len := 8, d_flags := DESC_WRITE\<rparr>"
    using added_at [OF i(2) rng, of "[]" ?outs 0 pa] by (simp add: InputEvent_size_def)
  then have slot: "slot_desc pa buf (desc q') i" by (simp add: slot_desc_def q'_def)
  have other: "desc q' ! x = desc q ! x" if "x \<noteq> i" for x
    using added_other [of x "[]" ?outs "i # fr" pa "desc q"] that by (simp add: q'_def)
  show ?thesis by (rule that [OF _ inv' slot other]) (use r in \<open>simp_all add: q'_def fh\<close>)
qed

text \<open>The loop of \<open>new\<close> from the point where the slots below \<open>k\<close> have been offered.\<close>

lemma add_events_slots:
  assumes "k \<le> 32" and "vq_inv [k..<32] (map (\<lambda>i. [i]) (rev [0..<k])) q" and "queue_size q = 32"
    and "\<forall>i < k. slot_desc pa buf (desc q) i" and v: "\<forall>i < 32. v2p (event_slot buf i) = Inr (pa (event_slot buf i))"
  shows "\<exists>q'. add_events v2p buf [k..<32] q = Inr (Inr (), q') \<and> event_slots pa buf q' \<and>
    avail_idx q' = avail_idx q + of_nat (32 - k) \<and> used q' = used q \<and> last_used_idx q' = last_used_idx q"
  using assms(1-4)
proof (induction "32 - k" arbitrary: k q)
  case 0
  then have "k = 32" by simp
  moreover have "set (map (\<lambda>i. [i]) (rev [0..<32])) = (\<lambda>i. [i]) ` {..<32 :: nat}" by (auto simp del: upt_Suc upt_rec_numeral)
  ultimately show ?case using 0 unfolding event_slots_def
    by (intro exI [of _ q] conjI exI [of _ "map (\<lambda>i. [i]) (rev [0..<32])"]) simp_all
next
  case (Suc n)
  have k: "k < 32" and u: "[k..<32] = k # [Suc k..<32]" using Suc.hyps(2) by (simp_all add: upt_conv_Cons)
  have vk: "v2p (event_slot buf k) = Inr (pa (event_slot buf k))" using v k by blast
  obtain q1 where q1: "vq_add v2p [] [(event_slot buf k, of_nat InputEvent_size)] q = Inr (Inr (of_nat k), q1)"
    "vq_inv [Suc k..<32] ([k] # map (\<lambda>i. [i]) (rev [0..<k])) q1" "slot_desc pa buf (desc q1) k"
    "\<And>x. x \<noteq> k \<Longrightarrow> desc q1 ! x = desc q ! x" "avail_idx q1 = avail_idx q + 1" "used q1 = used q"
    "last_used_idx q1 = last_used_idx q" "queue_size q1 = queue_size q"
    by (rule add_slot [OF Suc.prems(2) [unfolded u], of v2p buf pa, OF vk]) (rule that)
  have sl: "\<forall>i < Suc k. slot_desc pa buf (desc q1) i"
    using Suc.prems(4) q1(3,4) by (metis less_Suc_eq slot_desc_def)
  have "\<exists>q'. add_events v2p buf [Suc k..<32] q1 = Inr (Inr (), q') \<and> event_slots pa buf q' \<and>
      avail_idx q' = avail_idx q1 + of_nat (32 - Suc k) \<and> used q' = used q1 \<and> last_used_idx q' = last_used_idx q1"
    using Suc.hyps(2) k q1(2,8) Suc.prems(3) by (intro Suc.hyps(1) sl) simp_all
  then obtain q' where q': "add_events v2p buf [Suc k..<32] q1 = Inr (Inr (), q')" "event_slots pa buf q'"
      "avail_idx q' = avail_idx q1 + of_nat (32 - Suc k)" "used q' = used q1" "last_used_idx q' = last_used_idx q1" by blast
  have "(of_nat (32 - k) :: u16) = 1 + of_nat (32 - Suc k)" using k by (simp add: Suc_diff_Suc [symmetric])
  then show ?case using q1(1,5-7) q' unfolding u by (intro exI [of _ q']) simp
qed

text \<open>Taking back a chain of one descriptor changes only its link.\<close>

lemma pop_used_single:
  assumes inv: "vq_inv [] cs q" and c: "[i] \<in> set cs" and cp: "can_pop q"
    and e: "us_ring (used q) ! unat (last_used_idx q AND (queue_size q - 1)) = (of_nat i, len)"
  obtains q' where "vq_pop_used q = Some (Inr (Inr (of_nat i, len), q'))" "vq_inv [i] (remove1 [i] cs) q'"
    "\<And>x. x \<noteq> i \<Longrightarrow> desc q' ! x = desc q ! x" "last_used_idx q' = last_used_idx q + 1" "used q' = used q" "avail q' = avail q"
    "avail_idx q' = avail_idx q" "queue_size q' = queue_size q"
proof -
  obtain q' where q': "vq_pop_used q = Some (Inr (Inr (of_nat i, len), q'))" "vq_inv [i] (remove1 [i] cs) q'"
    "last_used_idx q' = last_used_idx q + 1" "used q' = used q" "avail q' = avail q" "avail_idx q' = avail_idx q"
    using pop_used_chain [OF inv c _ cp, of len] e by auto
  have i: "vq_shape q" "unat (queue_size q) \<le> 32" "\<forall>c \<in> set cs. chained (desc q) c" "set (concat cs) = {..<unat (queue_size q)}"
    using inv by (auto simp: vq_inv_def)
  have "i \<in> set (concat cs)" using c by (auto intro!: bexI [of _ "[i]"])
  then have lt: "i < unat (queue_size q)" unfolding i(4) by simp
  then have h: "i < 32" using i(2) by linarith
  have uc: "ucast (of_nat i :: u32) = (of_nat i :: u16)"
    using h by (intro word_unat_eqI) (simp add: unsigned_ucast_eq unsigned_of_nat take_bit_nat_eq_self)
  have uh: "unat (of_nat i :: u16) = i" using h by (simp add: unat_of_nat)
  have rng: "\<forall>x \<in> set [i]. x < length (desc q)" using i(1) lt by (simp add: vq_shape_def)
  have slot: "unat (last_used_idx q AND (queue_size q - 1)) < length (us_ring (used q))"
    using slot_less [of q "last_used_idx q"] power_of_two_nonzero i(1,2) by (fastforce simp: vq_shape_def)
  have "chained (desc q) [i]" using i(3) c by blast
  then have "chained (desc (q\<lparr>free_head := of_nat i\<rparr>)) [i]" by simp
  from recycle_loop_chain [OF this, of "of_nat i" "free_head q"] rng uh
  have "recycle_descriptors (of_nat i) q = Some (Inr (q\<lparr>free_head := of_nat i, num_used := num_used q - 1,
      desc := (desc q)[i := (desc q ! i)\<lparr>d_next := free_head q\<rparr>]\<rparr>))" by (simp add: recycle_descriptors_def)
  then have "q' = q\<lparr>free_head := of_nat i, num_used := num_used q - 1, desc := (desc q)[i := (desc q ! i)\<lparr>d_next := free_head q\<rparr>],
      last_used_idx := last_used_idx q + 1\<rparr>"
    using q'(1) cp slot e by (simp add: vq_pop_used_def vec_at_def uc Let_def)
  then show ?thesis using that [of q'] q' by simp
qed

lemma load_bytes_mem: "contiguous v2p va pa n \<Longrightarrow> load_bytes v2p va n m = Inr (load_mem m pa n)"
proof (induction n arbitrary: va pa)
  case (Suc n)
  note c = Suc.prems [unfolded contiguous_def, rule_format]
  have "v2p va = Inr pa" using c [of 0] by simp
  moreover have "contiguous v2p (va + 1) (pa + 1) n" unfolding contiguous_def
  proof (intro allI impI)
    fix i assume "i < n"
    then show "v2p (va + 1 + of_nat i) = Inr (pa + 1 + of_nat i)" using c [of "Suc i"] by (simp add: add.assoc)
  qed
  moreover have "load_mem m pa (Suc n) = m pa # load_mem m (pa + 1) n"
    by (simp add: load_mem_def upt_conv_Cons map_Suc_upt [symmetric] comp_def add.assoc del: upt_Suc)
  ultimately show ?case using Suc.IH by simp
qed (simp add: load_mem_def)

section \<open>Properties\<close>

lemma slot_chains:
  assumes "set cs = (\<lambda>i. [i]) ` {..<32 :: nat}" and "distinct (concat cs)" and "i < 32"
  shows "set ([i] # remove1 [i] cs) = (\<lambda>i. [i]) ` {..<32}"
proof -
  have "[] \<notin> set cs" using assms(1) by auto
  then have "distinct cs" using assms(2) by (simp add: distinct_concat_iff)
  then show ?thesis using assms(1,3) by (auto simp: set_remove1_eq)
qed

lemma pop_event_slot:
  assumes sl: "event_slots pa (vi_event_buf d) (vi_event_queue d)" and i: "i < 32" and cp: "can_pop (vi_event_queue d)"
    and e: "us_ring (used (vi_event_queue d)) ! unat (last_used_idx (vi_event_queue d) AND 31) = (of_nat i, len)"
    and v: "contiguous v2p (event_slot (vi_event_buf d) i) (pa (event_slot (vi_event_buf d) i)) 8"
  shows "\<exists>q'. pop_pending_event v2p m d =
      Some (Inr (Some (InputEvent_of_bytes (load_mem m (pa (event_slot (vi_event_buf d) i)) 8)), d\<lparr>vi_event_queue := q'\<rparr>)) \<and>
    event_slots pa (vi_event_buf d) q' \<and> last_used_idx q' = last_used_idx (vi_event_queue d) + 1 \<and>
    av_idx (avail q') = avail_idx (vi_event_queue d) + 1 \<and>
    av_ring (avail q') ! unat (avail_idx (vi_event_queue d) AND 31) = of_nat i"
proof -
  let ?q = "vi_event_queue d" and ?b = "vi_event_buf d"
  obtain cs where cs: "vq_inv [] cs ?q" "set cs = (\<lambda>i. [i]) ` {..<32}" and sz: "queue_size ?q = 32"
    and ds: "\<forall>i < 32. slot_desc pa ?b (desc ?q) i" using sl by (auto simp: event_slots_def)
  have c: "[i] \<in> set cs" using cs(2) i by auto
  have e': "us_ring (used ?q) ! unat (last_used_idx ?q AND (queue_size ?q - 1)) = (of_nat i, len)" using e by (simp add: sz)
  obtain q1 where q1: "vq_pop_used ?q = Some (Inr (Inr (of_nat i, len), q1))" "vq_inv [i] (remove1 [i] cs) q1"
    "\<And>x. x \<noteq> i \<Longrightarrow> desc q1 ! x = desc ?q ! x" "last_used_idx q1 = last_used_idx ?q + 1" "avail q1 = avail ?q"
    "avail_idx q1 = avail_idx ?q" "queue_size q1 = queue_size ?q"
    by (rule pop_used_single [OF cs(1) c cp e']) (rule that)
  have v0: "v2p (event_slot ?b i) = Inr (pa (event_slot ?b i))" by (rule contiguous_start [OF v]) simp
  obtain q2 where q2: "vq_add v2p [] [(event_slot ?b i, of_nat InputEvent_size)] q1 = Inr (Inr (of_nat i), q2)"
    "vq_inv [] ([i] # remove1 [i] cs) q2" "slot_desc pa ?b (desc q2) i" "\<And>x. x \<noteq> i \<Longrightarrow> desc q2 ! x = desc q1 ! x"
    "avail q2 = (avail q1)\<lparr>av_ring := (av_ring (avail q1))[unat (avail_idx q1 AND (queue_size q1 - 1)) := of_nat i], av_idx := avail_idx q1 + 1\<rparr>"
    "last_used_idx q2 = last_used_idx q1" "queue_size q2 = queue_size q1"
    by (rule add_slot [OF q1(2), of v2p ?b pa, OF v0]) (rule that)
  have ds2: "slot_desc pa ?b (desc q2) x" if "x < 32" for x
    using that ds q1(3) q2(3,4) by (cases "x = i") (simp_all add: slot_desc_def)
  have cs2: "set ([i] # remove1 [i] cs) = (\<lambda>i. [i]) ` {..<32}"
    using cs i by (intro slot_chains) (simp_all add: vq_inv_def)
  have "event_slots pa ?b q2" unfolding event_slots_def
    by (intro conjI exI [of _ "[i] # remove1 [i] cs"] q2(2) cs2 allI impI ds2) (simp_all add: q2(7) q1(7) sz)
  moreover have "unat (avail_idx ?q AND 31) < length (av_ring (avail ?q))"
    using slot_less [of ?q "avail_idx ?q"] cs(1) sz by (simp add: vq_inv_def vq_shape_def)
  then have "av_ring (avail q2) ! unat (avail_idx ?q AND 31) = of_nat i" by (simp add: q2(5) q1(5-7) sz)
  moreover have "unat (of_nat i :: u16) = i" using i by (simp add: unat_of_nat)
  then have "pop_pending_event v2p m d =
      Some (Inr (Some (InputEvent_of_bytes (load_mem m (pa (event_slot ?b i)) 8)), d\<lparr>vi_event_queue := q2\<rparr>))"
    using q1(1) q2(1) i load_bytes_mem [OF v, of m]
    by (simp add: pop_pending_event_def vec_at_def INPUT_QUEUE_SIZE_def InputEvent_size_def Let_def)
  ultimately show ?thesis using q1(4-6) q2(5,6) by (intro exI [of _ q2]) simp
qed

text \<open>
  C39: Every input event is read from the slot the device wrote it to. The loop in \<open>new\<close> offers the 32
  slots so that descriptor \<open>i\<close> names slot \<open>i\<close>, and its assertion on the tokens holds. Between calls
  this stays so: \<open>pop_pending_event\<close> for the token \<open>i\<close> that the device returned gives the event in slot
  \<open>i\<close> and offers that slot again under the same token, with all other slots still in flight; with
  nothing returned it gives \<open>None\<close> and changes nothing.
\<close>

theorem input_event_slots:
  assumes "\<forall>i < 32. contiguous v2p (event_slot (vi_event_buf d) i) (pa (event_slot (vi_event_buf d) i)) 8"
  shows "(vq_inv [0..<32] [] q \<and> queue_size q = 32 \<longrightarrow>
      (\<exists>q'. add_events v2p (vi_event_buf d) [0..<32] q = Inr (Inr (), q') \<and> event_slots pa (vi_event_buf d) q' \<and>
        used q' = used q \<and> last_used_idx q' = last_used_idx q)) \<and>
    (event_slots pa (vi_event_buf d) (vi_event_queue d) \<and> \<not> can_pop (vi_event_queue d) \<longrightarrow>
      pop_pending_event v2p m d = Some (Inr (None, d))) \<and>
    (event_slots pa (vi_event_buf d) (vi_event_queue d) \<and> can_pop (vi_event_queue d) \<and> i < 32 \<and>
     us_ring (used (vi_event_queue d)) ! unat (last_used_idx (vi_event_queue d) AND 31) = (of_nat i, len) \<longrightarrow>
      (\<exists>q'. pop_pending_event v2p m d =
         Some (Inr (Some (InputEvent_of_bytes (load_mem m (pa (event_slot (vi_event_buf d) i)) 8)), d\<lparr>vi_event_queue := q'\<rparr>)) \<and>
       event_slots pa (vi_event_buf d) q' \<and> last_used_idx q' = last_used_idx (vi_event_queue d) + 1 \<and>
       av_idx (avail q') = avail_idx (vi_event_queue d) + 1 \<and>
       av_ring (avail q') ! unat (avail_idx (vi_event_queue d) AND 31) = of_nat i))"
proof (intro conjI impI)
  have v: "\<forall>i < 32. v2p (event_slot (vi_event_buf d) i) = Inr (pa (event_slot (vi_event_buf d) i))"
  proof (intro allI impI)
    fix i :: nat assume "i < 32"
    then show "v2p (event_slot (vi_event_buf d) i) = Inr (pa (event_slot (vi_event_buf d) i))"
      using assms by (intro contiguous_start [where n = 8]) simp_all
  qed
  show "\<exists>q'. add_events v2p (vi_event_buf d) [0..<32] q = Inr (Inr (), q') \<and> event_slots pa (vi_event_buf d) q' \<and>
      used q' = used q \<and> last_used_idx q' = last_used_idx q"
    if "vq_inv [0..<32] [] q \<and> queue_size q = 32"
    using add_events_slots [of 0 q pa "vi_event_buf d" v2p, OF _ _ _ _ v] that by auto
  show "pop_pending_event v2p m d = Some (Inr (None, d))"
    if "event_slots pa (vi_event_buf d) (vi_event_queue d) \<and> \<not> can_pop (vi_event_queue d)"
    using that by (simp add: pop_pending_event_def vq_pop_used_def)
  show "\<exists>q'. pop_pending_event v2p m d =
       Some (Inr (Some (InputEvent_of_bytes (load_mem m (pa (event_slot (vi_event_buf d) i)) 8)), d\<lparr>vi_event_queue := q'\<rparr>)) \<and>
     event_slots pa (vi_event_buf d) q' \<and> last_used_idx q' = last_used_idx (vi_event_queue d) + 1 \<and>
     av_idx (avail q') = avail_idx (vi_event_queue d) + 1 \<and>
     av_ring (avail q') ! unat (avail_idx (vi_event_queue d) AND 31) = of_nat i"
    if a: "event_slots pa (vi_event_buf d) (vi_event_queue d) \<and> can_pop (vi_event_queue d) \<and> i < 32 \<and>
      us_ring (used (vi_event_queue d)) ! unat (last_used_idx (vi_event_queue d) AND 31) = (of_nat i, len)"
  proof -
    have "event_slots pa (vi_event_buf d) (vi_event_queue d)" "i < 32" "can_pop (vi_event_queue d)"
      "us_ring (used (vi_event_queue d)) ! unat (last_used_idx (vi_event_queue d) AND 31) = (of_nat i, len)" using a by simp_all
    then show ?thesis using assms by (intro pop_event_slot) simp_all
  qed
qed

text \<open>A driver whose device has written an event to slot 5 and returned it.\<close>

definition blank_event_queue :: VirtQueue where
  "blank_event_queue = sample_queue\<lparr>desc := link_descriptors 32 (replicate 32 \<lparr>d_addr = 0, d_len = 0, d_flags = 0, d_next = 0\<rparr>),
     queue_size := 32, num_used := 0, free_head := 0, avail_idx := 0, last_used_idx := 0,
     used := \<lparr>us_flags = 0, us_idx = 1, us_ring = (5, 8) # replicate 31 (0, 0), us_avail_event = 0\<rparr>\<rparr>"

lemma blank_event_queue_inv: "vq_inv [0..<32] [] blank_event_queue"
proof -
  let ?ds = "replicate 32 \<lparr>d_addr = 0, d_len = 0, d_flags = 0, d_next = 0\<rparr>"
  have "length ?ds = unat (32 :: u16)" "(32 :: u16) \<noteq> 0" by simp_all
  note l = link_descriptors_linked [OF this]
  have "is_power_of_two 32" by (simp add: power_of_two_values)
  then show ?thesis using l
    by (simp add: vq_inv_def vq_shape_def blank_event_queue_def sample_queue_def atLeast0LessThan del: upt_rec_numeral)
qed

definition sample_input :: "VirtQueue \<Rightarrow> VirtIOInput" where
  "sample_input q = \<lparr>vi_header = vb_header sample_blk, vi_event_queue = q, vi_status_queue = idle_queue, vi_event_buf = 0x8000\<rparr>"

theorem input_event_slots_witness:
  "\<exists>q d'. add_events Inr 0x8000 [0..<32] blank_event_queue = Inr (Inr (), q) \<and>
     pop_pending_event Inr (\<lambda>_. 1) (sample_input q) =
       Some (Inr (Some \<lparr>ev_type = 0x101, ev_code = 0x101, ev_value = 0x1010101\<rparr>, d'))"
proof -
  have c: "\<forall>i < 32. contiguous Inr (event_slot (vi_event_buf (sample_input q)) i) (id (event_slot (vi_event_buf (sample_input q)) i)) 8" for q
    by (simp add: contiguous_def)
  have b: "vi_event_buf (sample_input q) = 0x8000" "vi_event_queue (sample_input q) = q" for q by (simp_all add: sample_input_def)
  have "vq_inv [0..<32] [] blank_event_queue \<and> queue_size blank_event_queue = 32"
    by (intro conjI blank_event_queue_inv) (simp add: blank_event_queue_def)
  from mp [OF conjunct1 [OF input_event_slots [OF c]] this] obtain q where
    q: "add_events Inr 0x8000 [0..<32] blank_event_queue = Inr (Inr (), q)" "event_slots id 0x8000 q"
    "used q = used blank_event_queue" "last_used_idx q = last_used_idx blank_event_queue" unfolding b by blast
  have "event_slots id (vi_event_buf (sample_input q)) (vi_event_queue (sample_input q)) \<and> can_pop (vi_event_queue (sample_input q)) \<and>
      (5 :: nat) < 32 \<and> us_ring (used (vi_event_queue (sample_input q))) ! unat (last_used_idx (vi_event_queue (sample_input q)) AND 31) = (of_nat 5, 8)"
    using q(2-4) by (simp add: b can_pop_def blank_event_queue_def)
  from mp [OF conjunct2 [OF conjunct2 [OF input_event_slots [OF c]]] this, of "\<lambda>_. 1"] obtain d' where
    "pop_pending_event Inr (\<lambda>_. 1) (sample_input q) =
       Some (Inr (Some (InputEvent_of_bytes (load_mem (\<lambda>_. 1) (id (event_slot 0x8000 5)) 8)), d'))" unfolding b by blast
  moreover have "InputEvent_of_bytes (load_mem (\<lambda>_. 1) a 8) = \<lparr>ev_type = 0x101, ev_code = 0x101, ev_value = 0x1010101\<rparr>" for a
    by (simp add: InputEvent_of_bytes_def load_mem_def slice_def upt_rec)
  ultimately show ?thesis using q(1) by auto
qed

end
