(* ===== verification/Sd_Card.thy ===== *)
theory Sd_Card
  imports Prelude
begin

text \<open>
  The SD card driver of the K210 board (\<open>os/src/drivers/block/sdcard.rs\<close>). The SPI controller and
  the chip-select pin are the record \<open>spi_bus\<close>: the bytes the card will shift out, the position
  reached in them, and the log of what the driver did to the bus. Any behaviour of a card in a run
  of the driver is some sequence of bytes, so nothing is assumed of the card. A wait without a
  bound is a partial function, and \<open>None\<close> means that the driver waits forever.
\<close>

unbundle bit_operations_syntax

section \<open>The bus\<close>

datatype tmod = TRANS | RECV

text \<open>
  \<open>configure\<close> is always called with mode 0, the standard frame format, 8 data bits and zeros;
  only the transfer mode varies.
\<close>

datatype bus_event = Configured tmod | Sent "u8 list" | Cs bool | Output_Pin | Clock "32 word"

record spi_bus =
  bus_in :: "nat \<Rightarrow> u8"
  bus_pos :: nat
  bus_log :: "bus_event list"

definition bus_do :: "bus_event \<Rightarrow> spi_bus \<Rightarrow> spi_bus" where
  "bus_do e s = s\<lparr>bus_log := bus_log s @ [e]\<rparr>"

section \<open>Constants and registers\<close>

definition SD_START_DATA_SINGLE_BLOCK_READ :: u8 where "SD_START_DATA_SINGLE_BLOCK_READ = 0xFE"
definition SD_START_DATA_MULTIPLE_BLOCK_READ :: u8 where "SD_START_DATA_MULTIPLE_BLOCK_READ = 0xFE"
definition SD_START_DATA_SINGLE_BLOCK_WRITE :: u8 where "SD_START_DATA_SINGLE_BLOCK_WRITE = 0xFE"
definition SD_START_DATA_MULTIPLE_BLOCK_WRITE :: u8 where "SD_START_DATA_MULTIPLE_BLOCK_WRITE = 0xFC"

definition SEC_LEN :: nat where "SEC_LEN = 512"

datatype CMD =
    CMD0 | CMD8 | CMD9 | CMD10 | CMD12 | CMD16 | CMD17 | CMD18 | ACMD23 | CMD24 | CMD25 | ACMD41
  | CMD55 | CMD58 | CMD59

fun CMD_val :: "CMD \<Rightarrow> u8" where
  "CMD_val CMD0 = 0"
| "CMD_val CMD8 = 8"
| "CMD_val CMD9 = 9"
| "CMD_val CMD10 = 10"
| "CMD_val CMD12 = 12"
| "CMD_val CMD16 = 16"
| "CMD_val CMD17 = 17"
| "CMD_val CMD18 = 18"
| "CMD_val ACMD23 = 23"
| "CMD_val CMD24 = 24"
| "CMD_val CMD25 = 25"
| "CMD_val ACMD41 = 41"
| "CMD_val CMD55 = 55"
| "CMD_val CMD58 = 58"
| "CMD_val CMD59 = 59"

datatype InitError = CMDFailed CMD u8 | CardCapacityStatusNotSet "u8 list" | CannotGetCardInfo

record SDCardCSD =
  csd_CSDStruct :: u8
  csd_SysSpecVersion :: u8
  csd_Reserved1 :: u8
  csd_TAAC :: u8
  csd_NSAC :: u8
  csd_MaxBusClkFrec :: u8
  csd_CardComdClasses :: "16 word"
  csd_RdBlockLen :: u8
  csd_PartBlockRead :: u8
  csd_WrBlockMisalign :: u8
  csd_RdBlockMisalign :: u8
  csd_DSRImpl :: u8
  csd_Reserved2 :: u8
  csd_DeviceSize :: "32 word"
  csd_EraseGrSize :: u8
  csd_EraseGrMul :: u8
  csd_WrProtectGrSize :: u8
  csd_WrProtectGrEnable :: u8
  csd_ManDeflECC :: u8
  csd_WrSpeedFact :: u8
  csd_MaxWrBlockLen :: u8
  csd_WriteBlockPaPartial :: u8
  csd_Reserved3 :: u8
  csd_ContentProtectAppli :: u8
  csd_FileFormatGroup :: u8
  csd_CopyFlag :: u8
  csd_PermWrProtect :: u8
  csd_TempWrProtect :: u8
  csd_FileFormat :: u8
  csd_ECC :: u8
  csd_CSD_CRC :: u8
  csd_Reserved4 :: u8

record SDCardCID =
  cid_ManufacturerID :: u8
  cid_OEM_AppliID :: "16 word"
  cid_ProdName1 :: "32 word"
  cid_ProdName2 :: u8
  cid_ProdRev :: u8
  cid_ProdSN :: "32 word"
  cid_Reserved1 :: u8
  cid_ManufactDate :: "16 word"
  cid_CID_CRC :: u8
  cid_Reserved2 :: u8

record SDCardInfo =
  SD_csd :: SDCardCSD
  SD_cid :: SDCardCID
  CardCapacity :: "64 word"
  CardBlockSize :: "64 word"

section \<open>Transfers\<close>

definition CS_HIGH :: "spi_bus \<Rightarrow> spi_bus" where "CS_HIGH s = bus_do (Cs True) s"
definition CS_LOW :: "spi_bus \<Rightarrow> spi_bus" where "CS_LOW s = bus_do (Cs False) s"
definition HIGH_SPEED_ENABLE :: "spi_bus \<Rightarrow> spi_bus" where "HIGH_SPEED_ENABLE s = bus_do (Clock 10000000) s"

definition lowlevel_init :: "spi_bus \<Rightarrow> spi_bus" where
  "lowlevel_init s = bus_do (Clock 200000) (bus_do Output_Pin s)"

definition write_data :: "u8 list \<Rightarrow> spi_bus \<Rightarrow> spi_bus" where
  "write_data bs s = bus_do (Sent bs) (bus_do (Configured TRANS) s)"

definition read_data :: "nat \<Rightarrow> spi_bus \<Rightarrow> u8 list \<times> spi_bus" where
  "read_data n s =
     (let s = bus_do (Configured RECV) s
      in (map (\<lambda>i. bus_in s (bus_pos s + i)) [0..<n], s\<lparr>bus_pos := bus_pos s + n\<rparr>))"

definition cmd_frame :: "CMD \<Rightarrow> 32 word \<Rightarrow> u8 \<Rightarrow> u8 list" where
  "cmd_frame cmd arg crc =
     [CMD_val cmd OR 0x40, ucast (drop_bit 24 arg), ucast (drop_bit 16 arg AND 0xff),
      ucast (drop_bit 8 arg AND 0xff), ucast (arg AND 0xff), crc]"

definition send_cmd :: "CMD \<Rightarrow> 32 word \<Rightarrow> u8 \<Rightarrow> spi_bus \<Rightarrow> spi_bus" where
  "send_cmd cmd arg crc s = write_data (cmd_frame cmd arg crc) (CS_LOW s)"

definition end_cmd :: "spi_bus \<Rightarrow> spi_bus" where
  "end_cmd s = write_data [0xff] (CS_HIGH s)"

text \<open>\<open>get_response\<close>: the counter \<open>timeout\<close> runs down from 0x0FFF.\<close>

fun get_response_loop :: "nat \<Rightarrow> spi_bus \<Rightarrow> u8 \<times> spi_bus" where
  "get_response_loop 0 s = (0xFF, s)"
| "get_response_loop (Suc timeout) s =
     (let (result, s) = read_data 1 s
      in if result ! 0 \<noteq> 0xFF then (result ! 0, s) else get_response_loop timeout s)"

definition get_response :: "spi_bus \<Rightarrow> u8 \<times> spi_bus" where
  "get_response s = get_response_loop 0x0FFF s"

partial_function (option) wait_busy :: "u8 \<Rightarrow> spi_bus \<Rightarrow> spi_bus option" where
  "wait_busy response s =
     (if response = 0 then let (r, s) = read_data 1 s in wait_busy (r ! 0) s else Some s)"

definition get_dataresponse :: "spi_bus \<Rightarrow> (u8 \<times> spi_bus) option" where
  "get_dataresponse s =
     (let (response, s) = read_data 1 s
      in if response ! 0 AND 0x1F \<noteq> 0x05 then Some (0xFF, s)
         else let (response, s) = read_data 1 s
              in map_option (\<lambda>s. (0, s)) (wait_busy (response ! 0) s))"

section \<open>Card information\<close>

definition parse_csd :: "u8 list \<Rightarrow> SDCardCSD" where
  "parse_csd t =
     \<lparr>csd_CSDStruct = drop_bit 6 (t ! 0 AND 0xC0),
      csd_SysSpecVersion = drop_bit 2 (t ! 0 AND 0x3C),
      csd_Reserved1 = t ! 0 AND 0x03,
      csd_TAAC = t ! 1,
      csd_NSAC = t ! 2,
      csd_MaxBusClkFrec = t ! 3,
      csd_CardComdClasses = push_bit 4 (ucast (t ! 4)) OR drop_bit 4 (ucast (t ! 5) AND 0xF0),
      csd_RdBlockLen = t ! 5 AND 0x0F,
      csd_PartBlockRead = drop_bit 7 (t ! 6 AND 0x80),
      csd_WrBlockMisalign = drop_bit 6 (t ! 6 AND 0x40),
      csd_RdBlockMisalign = drop_bit 5 (t ! 6 AND 0x20),
      csd_DSRImpl = drop_bit 4 (t ! 6 AND 0x10),
      csd_Reserved2 = 0,
      csd_DeviceSize = push_bit 16 (ucast (t ! 7) AND 0x3F) OR push_bit 8 (ucast (t ! 8)) OR ucast (t ! 9),
      csd_EraseGrSize = drop_bit 6 (t ! 10 AND 0x40),
      csd_EraseGrMul = push_bit 1 (t ! 10 AND 0x3F) OR drop_bit 7 (t ! 11 AND 0x80),
      csd_WrProtectGrSize = t ! 11 AND 0x7F,
      csd_WrProtectGrEnable = drop_bit 7 (t ! 12 AND 0x80),
      csd_ManDeflECC = drop_bit 5 (t ! 12 AND 0x60),
      csd_WrSpeedFact = drop_bit 2 (t ! 12 AND 0x1C),
      csd_MaxWrBlockLen = push_bit 2 (t ! 12 AND 0x03) OR drop_bit 6 (t ! 13 AND 0xC0),
      csd_WriteBlockPaPartial = drop_bit 5 (t ! 13 AND 0x20),
      csd_Reserved3 = 0,
      csd_ContentProtectAppli = t ! 13 AND 0x01,
      csd_FileFormatGroup = drop_bit 7 (t ! 14 AND 0x80),
      csd_CopyFlag = drop_bit 6 (t ! 14 AND 0x40),
      csd_PermWrProtect = drop_bit 5 (t ! 14 AND 0x20),
      csd_TempWrProtect = drop_bit 4 (t ! 14 AND 0x10),
      csd_FileFormat = drop_bit 2 (t ! 14 AND 0x0C),
      csd_ECC = t ! 14 AND 0x03,
      csd_CSD_CRC = drop_bit 1 (t ! 15 AND 0xFE),
      csd_Reserved4 = 1\<rparr>"

definition parse_cid :: "u8 list \<Rightarrow> SDCardCID" where
  "parse_cid t =
     \<lparr>cid_ManufacturerID = t ! 0,
      cid_OEM_AppliID = push_bit 8 (ucast (t ! 1)) OR ucast (t ! 2),
      cid_ProdName1 = push_bit 24 (ucast (t ! 3)) OR push_bit 16 (ucast (t ! 4)) OR push_bit 8 (ucast (t ! 5)) OR ucast (t ! 6),
      cid_ProdName2 = t ! 7,
      cid_ProdRev = t ! 8,
      cid_ProdSN = push_bit 24 (ucast (t ! 9)) OR push_bit 16 (ucast (t ! 10)) OR push_bit 8 (ucast (t ! 11)) OR ucast (t ! 12),
      cid_Reserved1 = drop_bit 4 (t ! 13 AND 0xF0),
      cid_ManufactDate = push_bit 8 (ucast (t ! 13) AND 0x0F) OR ucast (t ! 14),
      cid_CID_CRC = drop_bit 1 (t ! 15 AND 0xFE),
      cid_Reserved2 = 1\<rparr>"

text \<open>Reading a register is a command followed by a block of 18 bytes; \<open>Inl ()\<close> is \<open>Err(())\<close>.\<close>

definition get_csdregister :: "spi_bus \<Rightarrow> (unit + SDCardCSD) \<times> spi_bus" where
  "get_csdregister s =
     (let s = send_cmd CMD9 0 0 s;
          (r, s) = get_response s
      in if r \<noteq> 0x00 then (Inl (), end_cmd s)
         else let (r, s) = get_response s
              in if r \<noteq> SD_START_DATA_SINGLE_BLOCK_READ then (Inl (), end_cmd s)
                 else let (csd_tab, s) = read_data 18 s
                      in (Inr (parse_csd csd_tab), end_cmd s))"

definition get_cidregister :: "spi_bus \<Rightarrow> (unit + SDCardCID) \<times> spi_bus" where
  "get_cidregister s =
     (let s = send_cmd CMD10 0 0 s;
          (r, s) = get_response s
      in if r \<noteq> 0x00 then (Inl (), end_cmd s)
         else let (r, s) = get_response s
              in if r \<noteq> SD_START_DATA_SINGLE_BLOCK_READ then (Inl (), end_cmd s)
                 else let (cid_tab, s) = read_data 18 s
                      in (Inr (parse_cid cid_tab), end_cmd s))"

definition card_block_size :: "SDCardCSD \<Rightarrow> 64 word" where
  "card_block_size csd = push_bit (unat (csd_RdBlockLen csd)) 1"

definition card_capacity :: "SDCardCSD \<Rightarrow> 64 word" where
  "card_capacity csd = (ucast (csd_DeviceSize csd) + 1) * 1024 * card_block_size csd"

definition get_cardinfo :: "spi_bus \<Rightarrow> (unit + SDCardInfo) \<times> spi_bus" where
  "get_cardinfo s =
     (let (csd, s) = get_csdregister s
      in case csd of
           Inl e \<Rightarrow> (Inl e, s)
         | Inr csd \<Rightarrow>
             let (cid, s) = get_cidregister s
             in case cid of
                  Inl e \<Rightarrow> (Inl e, s)
                | Inr cid \<Rightarrow> (Inr \<lparr>SD_csd = csd, SD_cid = cid, CardCapacity = card_capacity csd,
                                    CardBlockSize = card_block_size csd\<rparr>, s))"


section \<open>Initialisation\<close>

text \<open>The loops end with the value of \<open>index\<close>, which is 0 after 255 attempts in vain.\<close>

fun acmd41_loop :: "nat \<Rightarrow> spi_bus \<Rightarrow> (InitError + nat) \<times> spi_bus" where
  "acmd41_loop 0 s = (Inr 0, s)"
| "acmd41_loop (Suc i) s =
     (let (result, s) = get_response (send_cmd CMD55 0 0 s);
          s = end_cmd s
      in if result \<noteq> 0x01 then (Inl (CMDFailed CMD55 result), s)
         else let (result, s) = get_response (send_cmd ACMD41 0x40000000 0 s);
                  s = end_cmd s
              in if result = 0x00 then (Inr (Suc i), s) else acmd41_loop i s)"

fun cmd58_loop :: "nat \<Rightarrow> u8 list \<Rightarrow> spi_bus \<Rightarrow> nat \<times> u8 list \<times> spi_bus" where
  "cmd58_loop 0 frame s = (0, frame, s)"
| "cmd58_loop (Suc i) frame s =
     (let (result, s) = get_response (send_cmd CMD58 0 1 s);
          (frame, s) = read_data 4 s;
          s = end_cmd s
      in if result = 0 then (Suc i, frame, s) else cmd58_loop i frame s)"

text \<open>The variable \<open>result\<close> of the loops shadows the one that the error values are built from.\<close>

definition sd_init :: "spi_bus \<Rightarrow> (InitError + SDCardInfo) \<times> spi_bus" where
  "sd_init s =
     (let s = CS_HIGH (lowlevel_init s);
          s = write_data (replicate 10 0xff) s;
          (result, s) = get_response (send_cmd CMD0 0 0x95 s);
          s = end_cmd s
      in if result \<noteq> 0x01 then (Inl (CMDFailed CMD0 result), s)
         else let (result, s) = get_response (send_cmd CMD8 0x01AA 0x87 s);
                  (frame, s) = read_data 4 s;
                  s = end_cmd s
              in if result \<noteq> 0x01 then (Inl (CMDFailed CMD8 result), s)
                 else let (r, s) = acmd41_loop 255 s
                      in case r of
                           Inl e \<Rightarrow> (Inl e, s)
                         | Inr index \<Rightarrow>
                             if index = 0 then (Inl (CMDFailed ACMD41 result), s)
                             else let (index, frame, s) = cmd58_loop 255 (replicate 4 0) s
                                  in if index = 0 then (Inl (CMDFailed CMD58 result), s)
                                     else if frame ! 0 AND 0x40 = 0 then (Inl (CardCapacityStatusNotSet frame), s)
                                     else let (info, s) = get_cardinfo (HIGH_SPEED_ENABLE s)
                                          in (case info of Inl _ \<Rightarrow> Inl CannotGetCardInfo | Inr i \<Rightarrow> Inr i, s))"

section \<open>Sectors\<close>

definition chunks :: "u8 list \<Rightarrow> u8 list list" where
  "chunks buf = map (\<lambda>i. slice (i * SEC_LEN) SEC_LEN buf) [0..<length buf div SEC_LEN]"

fun read_chunks :: "u8 list list \<Rightarrow> spi_bus \<Rightarrow> bool \<times> u8 list list \<times> spi_bus" where
  "read_chunks [] s = (False, [], s)"
| "read_chunks (chunk # cs) s =
     (let (r, s) = get_response s
      in if r \<noteq> SD_START_DATA_SINGLE_BLOCK_READ then (True, chunk # cs, s)
         else let (tmp_chunk, s) = read_data SEC_LEN s;
                  (frame, s) = read_data 2 s;
                  (error, cs, s) = read_chunks cs s
              in (error, splice 0 (take (length chunk) tmp_chunk) chunk # cs, s))"

definition read_sector :: "u8 list \<Rightarrow> 32 word \<Rightarrow> spi_bus \<Rightarrow> ((unit + unit) \<times> u8 list \<times> spi_bus) res" where
  "read_sector data_buf sector s =
     rbind (rassert (length data_buf \<ge> SEC_LEN \<and> length data_buf mod SEC_LEN = 0)) (\<lambda>_.
     let flag = length data_buf \<noteq> SEC_LEN;
         s = send_cmd (if flag then CMD18 else CMD17) sector 0 s;
         (r, s) = get_response s
     in if r \<noteq> 0x00 then Inr (Inl (), data_buf, end_cmd s)
        else let (error, cs, s) = read_chunks (chunks data_buf) s;
                 s = end_cmd s;
                 s = (if flag
                      then let (r, s) = get_response (send_cmd CMD12 0 0 s) in end_cmd (end_cmd s)
                      else s)
             in Inr (if error then Inl () else Inr (), concat cs, s))"

fun write_chunks :: "u8 list \<Rightarrow> u8 list list \<Rightarrow> spi_bus \<Rightarrow> ((unit + unit) \<times> spi_bus) option" where
  "write_chunks frame [] s = Some (Inr (), end_cmd (end_cmd s))"
| "write_chunks frame (chunk # cs) s =
     (let s = write_data frame s;
          s = write_data chunk s;
          s = write_data [0xff, 0xff] s
      in Option.bind (get_dataresponse s) (\<lambda>(r, s).
           if r \<noteq> 0x00 then Some (Inl (), end_cmd s) else write_chunks frame cs s))"

definition write_sector :: "u8 list \<Rightarrow> 32 word \<Rightarrow> spi_bus \<Rightarrow> ((unit + unit) \<times> spi_bus) res option" where
  "write_sector data_buf sector s =
     (if \<not> (length data_buf \<ge> SEC_LEN \<and> length data_buf mod SEC_LEN = 0) then Some (Inl Assertion_Failed)
      else if length data_buf \<noteq> SEC_LEN \<and> length data_buf div SEC_LEN \<ge> 2 ^ 32 then Some (Inl Unwrap_None)
      else
        let (frame, s) =
              (if length data_buf = SEC_LEN
               then ([0xff, SD_START_DATA_SINGLE_BLOCK_WRITE], send_cmd CMD24 sector 0 s)
               else let (r, s) = get_response (send_cmd ACMD23 (of_nat (length data_buf div SEC_LEN)) 0 s)
                    in ([0xff, SD_START_DATA_MULTIPLE_BLOCK_WRITE], send_cmd CMD25 sector 0 (end_cmd s)));
            (r, s) = get_response s
        in if r \<noteq> 0x00 then Some (Inr (Inl (), end_cmd s))
           else map_option Inr (write_chunks frame (chunks data_buf) s))"

section \<open>The block device\<close>

definition SD_CS_GPIONUM :: u8 where "SD_CS_GPIONUM = 7"
definition SD_CS :: "32 word" where "SD_CS = 3"

text \<open>\<open>init_sdcard\<close> after clocks and pins are set up.\<close>

definition init_sdcard :: "spi_bus \<Rightarrow> spi_bus res" where
  "init_sdcard s =
     (let (r, s) = sd_init s
      in case r of
           Inl _ \<Rightarrow> Inl Unwrap_None
         | Inr info \<Rightarrow> rbind (rassert (CardCapacity info div 512 > 0)) (\<lambda>_. Inr s))"

definition sd_read_block :: "usize \<Rightarrow> u8 list \<Rightarrow> spi_bus \<Rightarrow> (u8 list \<times> spi_bus) res" where
  "sd_read_block block_id buf s =
     rbind (read_sector buf (ucast block_id) s) (\<lambda>(r, buf, s).
     case r of Inl _ \<Rightarrow> Inl Unwrap_None | Inr _ \<Rightarrow> Inr (buf, s))"

definition sd_write_block :: "usize \<Rightarrow> u8 list \<Rightarrow> spi_bus \<Rightarrow> spi_bus res option" where
  "sd_write_block block_id buf s =
     map_option (\<lambda>r. rbind r (\<lambda>(r, s). case r of Inl _ \<Rightarrow> Inl Unwrap_None | Inr _ \<Rightarrow> Inr s))
       (write_sector buf (ucast block_id) s)"

section \<open>Streams of bytes\<close>

text \<open>The next bytes the card sends.\<close>

definition coming :: "u8 list \<Rightarrow> spi_bus \<Rightarrow> bool" where
  "coming bs s \<longleftrightarrow> (\<forall>i < length bs. bus_in s (bus_pos s + i) = bs ! i)"

lemma coming_append: "coming (xs @ ys) s \<longleftrightarrow> coming xs s \<and> coming ys (s\<lparr>bus_pos := bus_pos s + length xs\<rparr>)"
proof
  assume a: "coming (xs @ ys) s"
  show "coming xs s \<and> coming ys (s\<lparr>bus_pos := bus_pos s + length xs\<rparr>)"
    unfolding coming_def
  proof (intro conjI allI impI)
    fix i assume "i < length xs" then show "bus_in s (bus_pos s + i) = xs ! i"
      using a [unfolded coming_def, rule_format, of i] by (simp add: nth_append)
  next
    fix i assume "i < length ys"
    then show "bus_in (s\<lparr>bus_pos := bus_pos s + length xs\<rparr>) (bus_pos (s\<lparr>bus_pos := bus_pos s + length xs\<rparr>) + i) = ys ! i"
      using a [unfolded coming_def, rule_format, of "length xs + i"] by (simp add: add.assoc)
  qed
next
  assume a: "coming xs s \<and> coming ys (s\<lparr>bus_pos := bus_pos s + length xs\<rparr>)"
  show "coming (xs @ ys) s" unfolding coming_def
  proof (intro allI impI)
    fix i assume i: "i < length (xs @ ys)"
    show "bus_in s (bus_pos s + i) = (xs @ ys) ! i"
    proof (cases "i < length xs")
      case True
      then show ?thesis using a by (simp add: coming_def nth_append)
    next
      case False
      then show ?thesis using a i conjunct2 [OF a, unfolded coming_def, rule_format, of "i - length xs"]
        by (simp add: nth_append add.assoc)
    qed
  qed
qed


text \<open>All bytes the driver has shifted out.\<close>

fun event_bytes :: "bus_event \<Rightarrow> u8 list" where
  "event_bytes (Sent bs) = bs"
| "event_bytes _ = []"

definition sent :: "spi_bus \<Rightarrow> u8 list" where
  "sent s = concat (map event_bytes (bus_log s))"

text \<open>From \<open>s\<close> to \<open>s'\<close> the driver receives \<open>k\<close> bytes and sends \<open>bs\<close>.\<close>

definition transfers :: "spi_bus \<Rightarrow> nat \<Rightarrow> u8 list \<Rightarrow> spi_bus \<Rightarrow> bool" where
  "transfers s k bs s' \<longleftrightarrow>
     bus_in s' = bus_in s \<and> bus_pos s' = bus_pos s + k \<and> sent s' = sent s @ bs"

lemma transfers_refl: "transfers s 0 [] s"
  by (simp add: transfers_def)

lemma transfers_trans:
  "transfers s k xs s' \<Longrightarrow> transfers s' l ys s'' \<Longrightarrow> transfers s (k + l) (xs @ ys) s''"
  by (simp add: transfers_def)

lemma coming_transfers:
  assumes "transfers s (length xs) bs s'" and "coming (xs @ ys) s"
  shows "coming ys s'"
  using assms by (simp add: coming_append) (simp add: coming_def transfers_def)

lemma coming_send:
  assumes "transfers s 0 bs s'" and "coming ys s"
  shows "coming ys s'"
  using assms by (simp add: coming_def transfers_def)

lemma bus_do_transfers: "transfers s 0 (event_bytes e) (bus_do e s)"
  by (simp add: transfers_def bus_do_def sent_def)

lemma write_data_transfers: "transfers s 0 bs (write_data bs s)"
  using transfers_trans [OF bus_do_transfers [of s "Configured TRANS"] bus_do_transfers [of _ "Sent bs"]]
  by (simp add: write_data_def)

lemma send_cmd_transfers: "transfers s 0 (cmd_frame cmd arg crc) (send_cmd cmd arg crc s)"
  using transfers_trans [OF bus_do_transfers [of s "Cs False"] write_data_transfers]
  by (simp add: send_cmd_def CS_LOW_def)

lemma end_cmd_transfers: "transfers s 0 [0xff] (end_cmd s)"
  using transfers_trans [OF bus_do_transfers [of s "Cs True"] write_data_transfers]
  by (simp add: end_cmd_def CS_HIGH_def)

lemma read_data_transfers: "transfers s n [] (snd (read_data n s))"
  by (simp add: read_data_def Let_def transfers_def bus_do_def sent_def)

lemma read_data_coming:
  assumes "coming xs s" and "n = length xs"
  obtains s' where "read_data n s = (xs, s')" "transfers s n [] s'"
proof (rule that)
  show "read_data n s = (xs, snd (read_data n s))"
    using assms by (auto simp: read_data_def Let_def bus_do_def coming_def intro!: nth_equalityI)
  show "transfers s n [] (snd (read_data n s))" by (rule read_data_transfers)
qed

lemma coming_front: "coming (xs @ ys) s \<Longrightarrow> coming xs s"
  by (simp add: coming_append)

section \<open>Responses\<close>

lemma get_response_loop_coming:
  assumes "coming (replicate a 0xFF @ [r]) s" and "r \<noteq> 0xFF" and "a < n"
  shows "\<exists>s'. get_response_loop n s = (r, s') \<and> transfers s (Suc a) [] s'"
  using assms
proof (induction a arbitrary: n s)
  case 0
  then obtain m where n: "n = Suc m" by (cases n) auto
  have "coming [r] s" using 0(1) by simp
  then obtain s' where "read_data 1 s = ([r], s')" "transfers s 1 [] s'"
    using read_data_coming [of "[r]" s 1] by auto
  then show ?case using 0(2) n by simp
next
  case (Suc a)
  then obtain m where n: "n = Suc m" "a < m" by (cases n) auto
  have c: "coming ([0xFF] @ (replicate a 0xFF @ [r])) s" using Suc.prems(1) by simp
  obtain s1 where s1: "read_data 1 s = ([0xFF], s1)" "transfers s 1 [] s1"
    using read_data_coming [OF coming_front [OF c], of 1] by auto
  have "transfers s (length [0xFF :: u8]) [] s1" using s1(2) by simp
  then have "coming (replicate a 0xFF @ [r]) s1" by (rule coming_transfers [OF _ c])
  then obtain s2 where s2: "get_response_loop m s1 = (r, s2)" "transfers s1 (Suc a) [] s2"
    using Suc.IH [OF _ Suc.prems(2) n(2)] by auto
  show ?case
    using s1(1) s2(1) n(1) transfers_trans [OF s1(2) s2(2)] by simp
qed

lemma get_response_coming:
  assumes "coming (replicate a 0xFF @ [r] @ ys) s" and "r \<noteq> 0xFF" and "a < 0x0FFF"
  obtains s' where "get_response s = (r, s')" "transfers s (Suc a) [] s'" "coming ys s'"
proof -
  have c: "coming ((replicate a 0xFF @ [r]) @ ys) s" using assms(1) by simp
  obtain s' where s': "get_response_loop 0x0FFF s = (r, s')" "transfers s (Suc a) [] s'"
    using get_response_loop_coming [OF coming_front [OF c] assms(2,3)] by blast
  have "transfers s (length (replicate a 0xFF @ [r])) [] s'" using s'(2) by simp
  then have "coming ys s'" by (rule coming_transfers [OF _ c])
  with s' that show ?thesis by (simp add: get_response_def)
qed

text \<open>Whatever the card does, \<open>get_response\<close> returns and sends nothing.\<close>

lemma get_response_loop_silent: "\<exists>k. transfers s k [] (snd (get_response_loop n s))"
proof (induction n arbitrary: s)
  case 0
  show ?case using transfers_refl by auto
next
  case (Suc n)
  obtain k where "transfers (snd (read_data 1 s)) k [] (snd (get_response_loop n (snd (read_data 1 s))))"
    using Suc.IH by blast
  then have k: "transfers s (1 + k) [] (snd (get_response_loop n (snd (read_data 1 s))))"
    using transfers_trans [OF read_data_transfers [of s 1]] by fastforce
  show ?case using k read_data_transfers [of s 1]
    by (cases "read_data 1 s") (auto simp: Let_def)
qed

lemma get_response_silent:
  obtains k where "transfers s k [] (snd (get_response s))"
  using get_response_loop_silent [of s "0x0FFF"] that unfolding get_response_def by blast


section \<open>Reading sectors\<close>

text \<open>A data packet of the card: idle bytes, the start token, the data and its checksum.\<close>

record packet =
  pk_idle :: nat
  pk_data :: "u8 list"
  pk_crc :: "u8 list"

definition packet_ok :: "packet \<Rightarrow> bool" where
  "packet_ok p \<longleftrightarrow> pk_idle p < 0x0FFF \<and> length (pk_data p) = SEC_LEN \<and> length (pk_crc p) = 2"

definition packet_bytes :: "packet \<Rightarrow> u8 list" where
  "packet_bytes p = replicate (pk_idle p) 0xFF @ [SD_START_DATA_SINGLE_BLOCK_READ] @ pk_data p @ pk_crc p"

lemma read_packet:
  assumes "packet_ok p" and "coming (packet_bytes p @ ys) s"
  obtains s1 s2 s3 where
    "get_response s = (SD_START_DATA_SINGLE_BLOCK_READ, s1)" "read_data SEC_LEN s1 = (pk_data p, s2)"
    "read_data 2 s2 = (pk_crc p, s3)" "transfers s (length (packet_bytes p)) [] s3" "coming ys s3"
proof -
  have l: "length (pk_data p) = SEC_LEN" "length (pk_crc p) = 2" "pk_idle p < 0x0FFF"
    using assms(1) by (auto simp: packet_ok_def)
  obtain s1 where s1: "get_response s = (SD_START_DATA_SINGLE_BLOCK_READ, s1)" "transfers s (Suc (pk_idle p)) [] s1"
    and c1: "coming (pk_data p @ pk_crc p @ ys) s1"
    using get_response_coming [of "pk_idle p" SD_START_DATA_SINGLE_BLOCK_READ "pk_data p @ pk_crc p @ ys" s] assms(2) l(3)
    by (auto simp: packet_bytes_def SD_START_DATA_SINGLE_BLOCK_READ_def)
  obtain s2 where s2: "read_data SEC_LEN s1 = (pk_data p, s2)" "transfers s1 (length (pk_data p)) [] s2"
    using read_data_coming [OF coming_front [OF c1] refl] unfolding l(1) by metis
  have c2: "coming (pk_crc p @ ys) s2" by (rule coming_transfers [OF s2(2) c1])
  obtain s3 where s3: "read_data 2 s2 = (pk_crc p, s3)" "transfers s2 (length (pk_crc p)) [] s3"
    using read_data_coming [OF coming_front [OF c2] refl] unfolding l(2) by metis
  have "transfers s (length (packet_bytes p)) [] s3"
    using transfers_trans [OF transfers_trans [OF s1(2) s2(2)] s3(2)] by (simp add: packet_bytes_def add.assoc)
  with s1(1) s2(1) s3(1) coming_transfers [OF s3(2) c2] that show ?thesis by blast
qed

lemma read_chunks_coming:
  assumes "\<forall>p \<in> set ps. packet_ok p" and "length cs = length ps" and "\<forall>c \<in> set cs. length c = SEC_LEN"
    and "coming (concat (map packet_bytes ps)) s"
  shows "\<exists>s'. read_chunks cs s = (False, map pk_data ps, s') \<and>
           transfers s (length (concat (map packet_bytes ps))) [] s'"
  using assms
proof (induction ps arbitrary: cs s)
  case Nil
  then show ?case using transfers_refl by simp
next
  case (Cons p ps)
  then obtain c cs' where cs: "cs = c # cs'" by (cases cs) auto
  have p: "packet_ok p" using Cons.prems(1) by simp
  have c: "coming (packet_bytes p @ concat (map packet_bytes ps)) s" using Cons.prems(4) by simp
  obtain s1 s2 s3 where s: "get_response s = (SD_START_DATA_SINGLE_BLOCK_READ, s1)"
      "read_data SEC_LEN s1 = (pk_data p, s2)" "read_data 2 s2 = (pk_crc p, s3)"
    and t: "transfers s (length (packet_bytes p)) [] s3" and c3: "coming (concat (map packet_bytes ps)) s3"
    using read_packet [OF p c] by blast
  obtain s' where s': "read_chunks cs' s3 = (False, map pk_data ps, s')"
      "transfers s3 (length (concat (map packet_bytes ps))) [] s'"
    using Cons.IH [OF _ _ _ c3, of cs'] Cons.prems(1,2,3) cs by auto
  have "length c = SEC_LEN" "length (pk_data p) = SEC_LEN" using Cons.prems(3) cs p by (auto simp: packet_ok_def)
  then have "splice 0 (take (length c) (pk_data p)) c = pk_data p" by (simp add: splice_def)
  then show ?case using s s'(1) cs transfers_trans [OF t s'(2)] by simp
qed

lemma chunks_props:
  assumes "length buf = n * SEC_LEN"
  shows "length (chunks buf) = n" and "\<forall>c \<in> set (chunks buf). length c = SEC_LEN"
proof -
  have n: "length buf div SEC_LEN = n" using assms by (simp add: SEC_LEN_def)
  show "length (chunks buf) = n" by (simp add: chunks_def n)
  show "\<forall>c \<in> set (chunks buf). length c = SEC_LEN"
  proof
    fix c assume "c \<in> set (chunks buf)"
    then obtain i where i: "i < n" "c = slice (i * SEC_LEN) SEC_LEN buf" by (auto simp: chunks_def n)
    have "i * SEC_LEN + SEC_LEN \<le> n * SEC_LEN"
      using mult_le_mono1 [of "Suc i" n SEC_LEN] i(1) by simp
    then show "length c = SEC_LEN" using assms i(2) by simp
  qed
qed

lemma read_sector_coming:
  assumes ps: "\<forall>p \<in> set ps. packet_ok p" "ps \<noteq> []" and buf: "length buf = length ps * SEC_LEN"
    and c: "coming (replicate a 0xFF @ [0x00] @ concat (map packet_bytes ps)) s" and a: "a < 0x0FFF"
  shows "\<exists>s'. read_sector buf sector s = Inr (Inr (), concat (map pk_data ps), s') \<and>
           sent s' = sent s @ (if length ps = 1 then cmd_frame CMD17 sector 0 @ [0xff]
                               else cmd_frame CMD18 sector 0 @ [0xff] @ cmd_frame CMD12 0 0 @ [0xff, 0xff])"
proof -
  let ?n = "length ps"
  let ?cmd = "if length buf \<noteq> SEC_LEN then CMD18 else CMD17"
  have pos: "SEC_LEN > 0" by (simp add: SEC_LEN_def)
  have one: "length buf \<noteq> SEC_LEN \<longleftrightarrow> ?n \<noteq> 1" using buf pos by simp
  have guard: "rassert (length buf \<ge> SEC_LEN \<and> length buf mod SEC_LEN = 0) = Inr ()"
    using buf ps(2) by (cases ps) (simp_all add: rassert_def)
  define s0 where "s0 = send_cmd ?cmd sector 0 s"
  have t0: "transfers s 0 (cmd_frame ?cmd sector 0) s0" unfolding s0_def by (rule send_cmd_transfers)
  obtain s1 where s1: "get_response s0 = (0x00, s1)" "transfers s0 (Suc a) [] s1"
    and c1: "coming (concat (map packet_bytes ps)) s1"
    using get_response_coming [OF coming_send [OF t0 c] _ a] by auto
  obtain s2 where s2: "read_chunks (chunks buf) s1 = (False, map pk_data ps, s2)"
      "transfers s1 (length (concat (map packet_bytes ps))) [] s2"
    using read_chunks_coming [OF ps(1) chunks_props [OF buf] c1] by blast
  have e: "sent (end_cmd s2) = sent s @ cmd_frame ?cmd sector 0 @ [0xff]"
    using t0 s1(2) s2(2) end_cmd_transfers [of s2] by (simp add: transfers_def)
  define r where "r = get_response (send_cmd CMD12 0 0 (end_cmd s2))"
  have r: "sent (snd r) = sent (end_cmd s2) @ cmd_frame CMD12 0 0"
    using get_response_silent [of "send_cmd CMD12 0 0 (end_cmd s2)"] send_cmd_transfers [of "end_cmd s2" CMD12 0 0]
    unfolding r_def transfers_def by (metis append_Nil2)
  have rr: "sent (end_cmd (end_cmd (snd r))) = sent (snd r) @ [0xff, 0xff]"
    using end_cmd_transfers [of "snd r"] end_cmd_transfers [of "end_cmd (snd r)"] by (simp add: transfers_def)
  have "read_sector buf sector s =
      Inr (Inr (), concat (map pk_data ps), if ?n \<noteq> 1 then end_cmd (end_cmd (snd r)) else end_cmd s2)"
    using s1(1) s2(1) one guard unfolding read_sector_def s0_def
    by (simp add: Let_def case_prod_beta r_def)
  then show ?thesis using e r rr one by simp
qed


section \<open>Writing sectors\<close>

lemma read_data_1: "fst (read_data (Suc 0) s) = [bus_in s (bus_pos s)]"
  by (simp add: read_data_def Let_def bus_do_def)

lemma wait_busy_step: "wait_busy 0 s = wait_busy (bus_in s (bus_pos s)) (snd (read_data 1 s))"
  by (subst wait_busy.simps) (simp add: read_data_1 case_prod_beta Let_def)

lemma wait_busy_done: "r \<noteq> 0 \<Longrightarrow> wait_busy r s = Some s"
  by (subst wait_busy.simps) simp

lemma read_data_1_bus:
  "bus_in (snd (read_data 1 s)) = bus_in s" "bus_pos (snd (read_data 1 s)) = Suc (bus_pos s)"
  using read_data_transfers [of s 1] by (simp_all add: transfers_def)

lemma wait_busy_coming:
  assumes "coming (replicate k 0 @ [e]) s" and "e \<noteq> 0"
  shows "\<exists>s'. wait_busy 0 s = Some s' \<and> transfers s (Suc k) [] s'"
  using assms(1)
proof (induction k arbitrary: s)
  case 0
  then have "bus_in s (bus_pos s) = e" by (simp add: coming_def)
  then show ?case using assms(2) wait_busy_step [of s] wait_busy_done read_data_transfers [of s 1] by simp
next
  case (Suc k)
  have c: "coming ([0] @ (replicate k 0 @ [e])) s" using Suc.prems by simp
  have "transfers s (length [0 :: u8]) [] (snd (read_data 1 s))" using read_data_transfers [of s 1] by simp
  then have "coming (replicate k 0 @ [e]) (snd (read_data 1 s))" by (rule coming_transfers [OF _ c])
  then obtain s' where s': "wait_busy 0 (snd (read_data 1 s)) = Some s'" "transfers (snd (read_data 1 s)) (Suc k) [] s'"
    using Suc.IH by blast
  have "bus_in s (bus_pos s) = 0" using coming_front [OF c] by (simp add: coming_def)
  then show ?case using s'(1) wait_busy_step [of s] transfers_trans [OF read_data_transfers [of s 1] s'(2)] by simp
qed

lemma wait_busy_forever:
  assumes "wait_busy r s = Some s'"
  shows "r = 0 \<longrightarrow> (\<exists>q \<ge> bus_pos s. bus_in s q \<noteq> 0)"
proof (rule wait_busy.raw_induct [OF _ assms])
  fix w r s s'
  assume IH: "\<And>r s s'. w r s = Some s' \<Longrightarrow> r = 0 \<longrightarrow> (\<exists>q \<ge> bus_pos s. bus_in s q \<noteq> 0)"
    and step: "(if r = 0 then let (r, s) = read_data 1 s in w (r ! 0) s else Some s) = Some s'"
  let ?s = "snd (read_data 1 s)"
  show "r = 0 \<longrightarrow> (\<exists>q \<ge> bus_pos s. bus_in s q \<noteq> 0)"
  proof
    assume "r = 0"
    then have w: "w (bus_in s (bus_pos s)) ?s = Some s'"
      using step by (simp add: read_data_1 case_prod_beta Let_def)
    show "\<exists>q \<ge> bus_pos s. bus_in s q \<noteq> 0"
    proof (cases "bus_in s (bus_pos s) = 0")
      case True
      obtain q where "q \<ge> bus_pos ?s" "bus_in ?s q \<noteq> 0" using IH [OF w] True by blast
      then show ?thesis using read_data_1_bus [of s] by (metis Suc_leD)
    qed auto
  qed
qed

lemma wait_busy_returns:
  assumes "bus_in s (bus_pos s + k) \<noteq> 0"
  shows "\<exists>s'. wait_busy r s = Some s'"
  using assms
proof (induction k arbitrary: r s)
  case 0
  then show ?case using wait_busy_step [of s] wait_busy_done by (cases "r = 0") auto
next
  case (Suc k)
  then have "bus_in (snd (read_data 1 s)) (bus_pos (snd (read_data 1 s)) + k) \<noteq> 0"
    by (simp only: read_data_1_bus) simp
  then show ?case using Suc.IH wait_busy_step [of s] wait_busy_done by (cases "r = 0") auto
qed

lemma wait_busy_returns_iff:
  "(\<exists>s'. wait_busy r s = Some s') \<longleftrightarrow> r \<noteq> 0 \<or> (\<exists>q \<ge> bus_pos s. bus_in s q \<noteq> 0)"
proof
  assume "\<exists>s'. wait_busy r s = Some s'"
  then show "r \<noteq> 0 \<or> (\<exists>q \<ge> bus_pos s. bus_in s q \<noteq> 0)" using wait_busy_forever by blast
next
  assume "r \<noteq> 0 \<or> (\<exists>q \<ge> bus_pos s. bus_in s q \<noteq> 0)"
  then show "\<exists>s'. wait_busy r s = Some s'"
    using wait_busy_done wait_busy_returns [of s] by (metis le_Suc_ex)
qed

text \<open>The answer of the card to a block it accepts: a token, the busy time and a byte that ends it.\<close>

record acceptance =
  ac_token :: u8
  ac_busy :: nat
  ac_end :: u8

definition acceptance_ok :: "acceptance \<Rightarrow> bool" where
  "acceptance_ok x \<longleftrightarrow> ac_token x AND 0x1F = 0x05 \<and> ac_end x \<noteq> 0"

definition acceptance_bytes :: "acceptance \<Rightarrow> u8 list" where
  "acceptance_bytes x = [ac_token x] @ replicate (ac_busy x) 0 @ [ac_end x]"

lemma wait_first_coming:
  assumes "coming (replicate k 0 @ [e]) s" and "e \<noteq> 0"
  shows "\<exists>s'. wait_busy (bus_in s (bus_pos s)) (snd (read_data 1 s)) = Some s' \<and> transfers s (Suc k) [] s'"
  using wait_busy_coming [OF assms] unfolding wait_busy_step [of s] .

lemma get_dataresponse_coming:
  assumes "acceptance_ok x" and "coming (acceptance_bytes x @ ys) s"
  obtains s' where "get_dataresponse s = Some (0, s')" "transfers s (length (acceptance_bytes x)) [] s'" "coming ys s'"
proof -
  let ?s = "snd (read_data 1 s)"
  have c: "coming ([ac_token x] @ (replicate (ac_busy x) 0 @ [ac_end x]) @ ys) s"
    using assms(2) by (simp add: acceptance_bytes_def)
  have tok: "bus_in s (bus_pos s) = ac_token x" using coming_front [OF c] by (simp add: coming_def)
  have t1: "transfers s (length [ac_token x]) [] ?s" using read_data_transfers [of s 1] by simp
  have c1: "coming (replicate (ac_busy x) 0 @ [ac_end x]) ?s" by (rule coming_front [OF coming_transfers [OF t1 c]])
  obtain s' where s': "wait_busy (bus_in ?s (bus_pos ?s)) (snd (read_data 1 ?s)) = Some s'"
      "transfers ?s (Suc (ac_busy x)) [] s'"
    using wait_first_coming [OF c1] assms(1) by (auto simp: acceptance_ok_def)
  have t: "transfers s (length (acceptance_bytes x)) [] s'"
    using transfers_trans [OF t1 s'(2)] by (simp add: acceptance_bytes_def)
  have "get_dataresponse s = Some (0, s')"
    using s'(1) tok assms(1)
    by (simp add: get_dataresponse_def read_data_1 case_prod_beta acceptance_ok_def Let_def)
  then show ?thesis using that t coming_transfers [OF t assms(2)] by blast
qed


lemma chunks_one: "length buf = SEC_LEN \<Longrightarrow> chunks buf = [buf]"
  by (simp add: chunks_def slice_def SEC_LEN_def)

lemma write_block_sends:
  obtains s' where "write_data [0xff, 0xff] (write_data c (write_data f s)) = s'" "transfers s 0 (f @ c @ [0xff, 0xff]) s'"
  using transfers_trans [OF transfers_trans [OF write_data_transfers [of s f] write_data_transfers [of _ c]]
      write_data_transfers [of _ "[0xff, 0xff]"]]
  by (simp add: that)

lemma write_chunks_coming:
  assumes "\<forall>x \<in> set xs. acceptance_ok x" and "length cs = length xs"
    and "coming (concat (map acceptance_bytes xs)) s"
  shows "\<exists>s'. write_chunks f cs s = Some (Inr (), s') \<and>
           sent s' = sent s @ concat (map (\<lambda>c. f @ c @ [0xff, 0xff]) cs) @ [0xff, 0xff]"
  using assms
proof (induction xs arbitrary: cs s)
  case Nil
  then show ?case using end_cmd_transfers [of s] end_cmd_transfers [of "end_cmd s"] by (simp add: transfers_def)
next
  case (Cons x xs)
  then obtain c cs' where cs: "cs = c # cs'" by (cases cs) auto
  obtain s1 where s1: "write_data [0xff, 0xff] (write_data c (write_data f s)) = s1"
    and t1: "transfers s 0 (f @ c @ [0xff, 0xff]) s1" by (rule write_block_sends)
  have "coming (acceptance_bytes x @ concat (map acceptance_bytes xs)) s1"
    using coming_send [OF t1] Cons.prems(3) by simp
  then obtain s2 where s2: "get_dataresponse s1 = Some (0, s2)" "transfers s1 (length (acceptance_bytes x)) [] s2"
    and c2: "coming (concat (map acceptance_bytes xs)) s2"
    using get_dataresponse_coming [of x _ s1] Cons.prems(1) by auto
  obtain s' where s': "write_chunks f cs' s2 = Some (Inr (), s')"
      "sent s' = sent s2 @ concat (map (\<lambda>c. f @ c @ [0xff, 0xff]) cs') @ [0xff, 0xff]"
    using Cons.IH [OF _ _ c2, of cs'] Cons.prems(1,2) cs by auto
  have "sent s2 = sent s @ f @ c @ [0xff, 0xff]" using t1 s2(2) by (simp add: transfers_def)
  then show ?case using s1 s2(1) s' cs by (simp add: Let_def)
qed

text \<open>Once the card has accepted the command of a one-sector write, what remains is \<open>write_chunks\<close>.\<close>

lemma write_sector_accepted:
  assumes buf: "length buf = SEC_LEN" and c: "coming (replicate a 0xFF @ [0x00] @ ys) s" and a: "a < 0x0FFF"
  obtains s1 where
    "write_sector buf sector s = map_option Inr (write_chunks [0xff, SD_START_DATA_SINGLE_BLOCK_WRITE] [buf] s1)"
    "transfers s (Suc a) (cmd_frame CMD24 sector 0) s1" "coming ys s1"
proof -
  have t0: "transfers s 0 (cmd_frame CMD24 sector 0) (send_cmd CMD24 sector 0 s)" by (rule send_cmd_transfers)
  obtain s1 where s1: "get_response (send_cmd CMD24 sector 0 s) = (0x00, s1)"
      "transfers (send_cmd CMD24 sector 0 s) (Suc a) [] s1" "coming ys s1"
    using get_response_coming [OF coming_send [OF t0 c] _ a] by auto
  have "write_sector buf sector s = map_option Inr (write_chunks [0xff, SD_START_DATA_SINGLE_BLOCK_WRITE] [buf] s1)"
    using buf s1(1) by (simp add: write_sector_def Let_def chunks_one)
  moreover have "transfers s (Suc a) (cmd_frame CMD24 sector 0) s1"
    using transfers_trans [OF t0 s1(2)] by simp
  ultimately show ?thesis using s1(3) that by blast
qed

lemma get_dataresponse_returns_iff:
  assumes "bus_in s (bus_pos s) AND 0x1F = 0x05"
  shows "(\<exists>r. get_dataresponse s = Some r) \<longleftrightarrow> (\<exists>q > bus_pos s. bus_in s q \<noteq> 0)"
proof -
  let ?s = "snd (read_data 1 s)"
  have b: "bus_in ?s = bus_in s" "bus_pos ?s = Suc (bus_pos s)" by (rule read_data_1_bus)+
  have "(\<exists>r. get_dataresponse s = Some r) \<longleftrightarrow> (\<exists>s'. wait_busy (bus_in ?s (bus_pos ?s)) (snd (read_data 1 ?s)) = Some s')"
    using assms by (simp add: get_dataresponse_def read_data_1 case_prod_beta Let_def)
  also have "\<dots> \<longleftrightarrow> (\<exists>s'. wait_busy 0 ?s = Some s')" by (simp only: wait_busy_step [of ?s])
  also have "\<dots> \<longleftrightarrow> (\<exists>q > bus_pos s. bus_in s q \<noteq> 0)"
    unfolding wait_busy_returns_iff b by (auto simp: Suc_le_eq)
  finally show ?thesis .
qed

lemma write_one_returns_iff:
  "(\<exists>r. write_chunks f [c] s = Some r) \<longleftrightarrow>
     (\<exists>r. get_dataresponse (write_data [0xff, 0xff] (write_data c (write_data f s))) = Some r)"
  by (auto simp: Let_def split: Option.bind_splits)

text \<open>A bus on which the card sends the given bytes, for examples.\<close>

definition bus_of :: "u8 list \<Rightarrow> spi_bus" where
  "bus_of bs = \<lparr>bus_in = \<lambda>n. if n < length bs then bs ! n else 0xFF, bus_pos = 0, bus_log = []\<rparr>"

lemma coming_bus_of: "coming bs (bus_of bs)"
  by (simp add: coming_def bus_of_def)

lemma sent_bus_of: "sent (bus_of bs) = []"
  by (simp add: sent_def bus_of_def)

text \<open>
  C33: A read of the SD card that the card answers is correct for any number of sectors: the command
  is acknowledged after \<open>a\<close> idle bytes and every sector arrives as a packet with its start token,
  and then the buffer holds the data of the packets in order, and the driver has sent exactly the
  read command and, for more than one sector, the command that stops the transfer.
\<close>

theorem read_sector_correct:
  assumes "\<forall>p \<in> set ps. packet_ok p" and "ps \<noteq> []" and "length buf = length ps * SEC_LEN"
    and "coming (replicate a 0xFF @ [0x00] @ concat (map packet_bytes ps)) s" and "a < 0x0FFF"
  shows "\<exists>s'. read_sector buf sector s = Inr (Inr (), concat (map pk_data ps), s') \<and>
           sent s' = sent s @ (if length ps = 1 then cmd_frame CMD17 sector 0 @ [0xff]
                               else cmd_frame CMD18 sector 0 @ [0xff] @ cmd_frame CMD12 0 0 @ [0xff, 0xff])"
  by (rule read_sector_coming [OF assms])

theorem read_sector_correct_witness:
  "\<exists>s'. read_sector (replicate 1024 0) 5
        (bus_of (replicate 2 0xFF @ [0x00] @ concat (map packet_bytes
           [\<lparr>pk_idle = 1, pk_data = replicate 512 7, pk_crc = [0, 0]\<rparr>,
            \<lparr>pk_idle = 0, pk_data = replicate 512 9, pk_crc = [1, 2]\<rparr>]))) =
      Inr (Inr (), replicate 512 7 @ replicate 512 9, s') \<and>
    sent s' = [0x52, 0, 0, 0, 5, 0, 0xff, 0x4c, 0, 0, 0, 0, 0, 0xff, 0xff]"
  using read_sector_correct
    [of "[\<lparr>pk_idle = 1, pk_data = replicate 512 7, pk_crc = [0, 0]\<rparr>, \<lparr>pk_idle = 0, pk_data = replicate 512 9, pk_crc = [1, 2]\<rparr>]"
      "replicate 1024 0" 2 "bus_of (replicate 2 0xFF @ [0x00] @ concat (map packet_bytes
           [\<lparr>pk_idle = 1, pk_data = replicate 512 7, pk_crc = [0, 0]\<rparr>, \<lparr>pk_idle = 0, pk_data = replicate 512 9, pk_crc = [1, 2]\<rparr>]))" 5]
    coming_bus_of [of "replicate 2 0xFF @ [0x00] @ concat (map packet_bytes
           [\<lparr>pk_idle = 1, pk_data = replicate 512 7, pk_crc = [0, 0]\<rparr>, \<lparr>pk_idle = 0, pk_data = replicate 512 9, pk_crc = [1, 2]\<rparr>])"]
  by (simp add: packet_ok_def SEC_LEN_def cmd_frame_def sent_bus_of)

text \<open>
  C34: A write of one sector that the card accepts succeeds, for every length of the busy time, and
  puts on the bus exactly the write command for the sector, the start token, the 512 bytes of the
  buffer and the dummy bytes of the protocol.
\<close>

theorem write_sector_correct:
  assumes "length buf = SEC_LEN" and "acceptance_ok x"
    and "coming (replicate a 0xFF @ [0x00] @ acceptance_bytes x) s" and "a < 0x0FFF"
  shows "\<exists>s'. write_sector buf sector s = Some (Inr (Inr (), s')) \<and>
           sent s' = sent s @ cmd_frame CMD24 sector 0 @ [0xff, 0xFE] @ buf @ [0xff, 0xff, 0xff, 0xff]"
proof -
  obtain s1 where w: "write_sector buf sector s = map_option Inr (write_chunks [0xff, SD_START_DATA_SINGLE_BLOCK_WRITE] [buf] s1)"
    and t: "transfers s (Suc a) (cmd_frame CMD24 sector 0) s1" and c: "coming (acceptance_bytes x) s1"
    by (rule write_sector_accepted [OF assms(1,3,4)])
  obtain s' where "write_chunks [0xff, SD_START_DATA_SINGLE_BLOCK_WRITE] [buf] s1 = Some (Inr (), s')"
      "sent s' = sent s1 @ [0xff, SD_START_DATA_SINGLE_BLOCK_WRITE] @ buf @ [0xff, 0xff] @ [0xff, 0xff]"
    using write_chunks_coming [of "[x]" "[buf]" s1 "[0xff, SD_START_DATA_SINGLE_BLOCK_WRITE]"] assms(2) c
    by (auto simp del: write_chunks.simps)
  then show ?thesis using w t by (simp add: transfers_def SD_START_DATA_SINGLE_BLOCK_WRITE_def)
qed

theorem write_sector_correct_witness:
  "\<exists>s'. write_sector (replicate 512 7) 5
        (bus_of (replicate 2 0xFF @ [0x00] @ acceptance_bytes \<lparr>ac_token = 0xE5, ac_busy = 3, ac_end = 0xFF\<rparr>)) =
      Some (Inr (Inr (), s')) \<and>
    sent s' = [0x58, 0, 0, 0, 5, 0, 0xff, 0xFE] @ replicate 512 7 @ [0xff, 0xff, 0xff, 0xff]"
  using write_sector_correct [of "replicate 512 7" "\<lparr>ac_token = 0xE5, ac_busy = 3, ac_end = 0xFF\<rparr>" 2
      "bus_of (replicate 2 0xFF @ [0x00] @ acceptance_bytes \<lparr>ac_token = 0xE5, ac_busy = 3, ac_end = 0xFF\<rparr>)" 5]
    coming_bus_of [of "replicate 2 0xFF @ [0x00] @ acceptance_bytes \<lparr>ac_token = 0xE5, ac_busy = 3, ac_end = 0xFF\<rparr>"]
  by (simp add: acceptance_ok_def SEC_LEN_def cmd_frame_def sent_bus_of)

text \<open>
  C35: When the card has acknowledged a write and accepted its block, \<open>write_sector\<close> returns exactly
  if the card ever ends its busy signal: the wait of \<open>get_dataresponse\<close> has no bound, in contrast to
  the wait for a response.
\<close>

theorem write_sector_returns_iff:
  assumes "length buf = SEC_LEN" and "coming (replicate a 0xFF @ [0x00] @ [x]) s" and "a < 0x0FFF"
    and "x AND 0x1F = 0x05"
  shows "(\<exists>r. write_sector buf sector s = Some r) \<longleftrightarrow> (\<exists>q > bus_pos s + a + 1. bus_in s q \<noteq> 0)"
proof -
  let ?f = "[0xff, SD_START_DATA_SINGLE_BLOCK_WRITE]"
  obtain s1 where w: "write_sector buf sector s = map_option Inr (write_chunks ?f [buf] s1)"
    and t: "transfers s (Suc a) (cmd_frame CMD24 sector 0) s1" and c: "coming [x] s1"
    by (rule write_sector_accepted [OF assms(1-3)])
  obtain s2 where s2: "write_data [0xff, 0xff] (write_data buf (write_data ?f s1)) = s2"
    and t2: "transfers s1 0 (?f @ buf @ [0xff, 0xff]) s2" by (rule write_block_sends)
  have x: "bus_in s2 (bus_pos s2) = x" using coming_send [OF t2 c] by (simp add: coming_def)
  have pos: "bus_pos s2 = bus_pos s + a + 1" "bus_in s2 = bus_in s" using t t2 by (auto simp: transfers_def)
  have "(\<exists>r. write_sector buf sector s = Some r) \<longleftrightarrow> (\<exists>r. write_chunks ?f [buf] s1 = Some r)"
    by (simp add: w)
  also have "\<dots> \<longleftrightarrow> (\<exists>r. get_dataresponse s2 = Some r)" unfolding write_one_returns_iff s2 ..
  also have "\<dots> \<longleftrightarrow> (\<exists>q > bus_pos s2. bus_in s2 q \<noteq> 0)"
    by (rule get_dataresponse_returns_iff) (simp only: x assms(4))
  finally show ?thesis unfolding pos .
qed

theorem write_sector_returns_iff_witness:
  "write_sector (replicate 512 7) 5 \<lparr>bus_in = \<lambda>n. if n = 1 then 0x05 else 0, bus_pos = 0, bus_log = []\<rparr> = None"
  using write_sector_returns_iff
    [of "replicate 512 7" 0 5 "\<lparr>bus_in = \<lambda>n. if n = 1 then 0x05 else 0, bus_pos = 0, bus_log = []\<rparr>" 5]
  by (auto simp: SEC_LEN_def coming_def less_Suc_eq split: if_splits)


section \<open>Capacity and initialisation\<close>

lemma and_mask_less:
  fixes x :: "'a::len word"
  assumes "m < LENGTH('a)"
  shows "unat (x AND mask m) < 2 ^ m"
proof -
  have "unat (x AND mask m) = take_bit m (unat x)"
    by (simp add: take_bit_eq_mask [symmetric] unsigned_take_bit_eq)
  then show ?thesis by simp
qed

lemma RdBlockLen_bound: "unat (csd_RdBlockLen (parse_csd t)) < 16"
  using and_mask_less [of 4 "t ! 5"] by (simp add: parse_csd_def mask_eq_exp_minus_1)

lemma word_less_exp_iff:
  fixes x :: "'a::len word"
  shows "unat x < 2 ^ n \<longleftrightarrow> take_bit n x = x"
  by (metis take_bit_nat_eq_self_iff unsigned_take_bit_eq word_unat_eqI)

lemma or_less_exp:
  fixes x y :: "'a::len word"
  shows "unat x < 2 ^ n \<Longrightarrow> unat y < 2 ^ n \<Longrightarrow> unat (x OR y) < 2 ^ n"
  by (simp add: word_less_exp_iff)

lemma push_less_exp:
  fixes x :: "'a::len word"
  assumes "unat x < 2 ^ m" and "k + m \<le> n"
  shows "unat (push_bit k x) < 2 ^ n"
proof -
  have "unat (push_bit k x) \<le> unat x * 2 ^ k"
    unfolding unsigned_push_bit_eq by (metis push_bit_eq_mult take_bit_nat_less_eq_self)
  also have "\<dots> < 2 ^ m * 2 ^ k" using assms(1) by simp
  also have "\<dots> \<le> 2 ^ n" using assms(2) by (simp add: power_add [symmetric] add.commute)
  finally show ?thesis .
qed

lemma unat_ucast_byte: "unat (ucast (b :: u8) :: 32 word) < 2 ^ 8"
proof -
  have "unat b < 2 ^ 8" using unsigned_less [of b] by simp
  then show ?thesis
    unfolding unsigned_ucast_eq by (rule le_less_trans [OF take_bit_nat_less_eq_self])
qed

lemma DeviceSize_bound: "unat (csd_DeviceSize (parse_csd t)) < 2 ^ 22"
proof -
  have m: "(0x3F :: 32 word) = mask 6" by (simp add: mask_eq_exp_minus_1)
  have a: "unat (push_bit 16 (ucast (t ! 7) AND 0x3F) :: 32 word) < 2 ^ 22"
    unfolding m by (rule push_less_exp [OF and_mask_less]) simp_all
  have b: "unat (push_bit 8 (ucast (t ! 8)) :: 32 word) < 2 ^ 22"
    by (rule push_less_exp [OF unat_ucast_byte]) simp
  have c: "unat (ucast (t ! 9) :: 32 word) < 2 ^ 22"
    using unat_ucast_byte [of "t ! 9"] by (rule less_trans) simp
  show ?thesis
    unfolding parse_csd_def SDCardCSD.simps by (rule or_less_exp [OF a or_less_exp [OF b c]])
qed


lemma card_capacity_unat:
  assumes len: "unat (csd_RdBlockLen csd) < 16" and size: "unat (csd_DeviceSize csd) < 2 ^ 22"
  shows "unat (card_capacity csd) = (unat (csd_DeviceSize csd) + 1) * 1024 * 2 ^ unat (csd_RdBlockLen csd)"
proof -
  let ?l = "unat (csd_RdBlockLen csd)" and ?d = "unat (csd_DeviceSize csd)"
  have l: "(2::nat) ^ ?l \<le> 2 ^ 15" using len by (intro power_increasing) auto
  have b: "unat (card_block_size csd) = 2 ^ ?l"
    using len unfolding card_block_size_def unsigned_push_bit_eq by (simp add: take_bit_nat_eq_self)
  have d: "unat (ucast (csd_DeviceSize csd) :: 64 word) = ?d"
    using size by (simp add: unsigned_ucast_eq take_bit_nat_eq_self)
  have d1: "unat (ucast (csd_DeviceSize csd) + 1 :: 64 word) = ?d + 1"
    using size by (simp add: unat_word_ariths d)
  have d2: "unat ((ucast (csd_DeviceSize csd) + 1) * 1024 :: 64 word) = (?d + 1) * 1024"
    using size unfolding unat_word_ariths(2) d1 by simp
  have "(?d + 1) * 1024 * 2 ^ ?l \<le> 2 ^ 22 * 1024 * 2 ^ 15"
    using size l by (intro mult_le_mono) auto
  then have "(?d + 1) * 1024 * 2 ^ ?l < 2 ^ 64" by (rule le_less_trans) simp
  then have "(?d + 1) * 1024 * 2 ^ ?l mod 2 ^ LENGTH(64) = (?d + 1) * 1024 * 2 ^ ?l" by simp
  then show ?thesis unfolding card_capacity_def by (subst unat_word_ariths(2)) (simp only: d2 b)
qed

lemma get_csdregister_Inr: "fst (get_csdregister s) = Inr csd \<Longrightarrow> \<exists>t. csd = parse_csd t"
  by (auto simp: get_csdregister_def Let_def split: prod.splits if_splits)

lemma get_cardinfo_capacity:
  assumes "fst (get_cardinfo s) = Inr info"
  shows "CardCapacity info = card_capacity (SD_csd info) \<and> (\<exists>t. SD_csd info = parse_csd t)"
  using assms get_csdregister_Inr [of s]
  by (auto simp: get_cardinfo_def Let_def split: prod.splits sum.splits)

lemma acmd41_loop_error: "fst (acmd41_loop n s) = Inl e \<Longrightarrow> \<exists>r. e = CMDFailed CMD55 r"
  by (induction n arbitrary: s) (auto simp: Let_def split: prod.splits if_splits)


lemma sd_init_error:
  assumes "fst (sd_init s) = Inl (CMDFailed cmd r)" and "cmd = ACMD41 \<or> cmd = CMD58"
  shows "r = 0x01"
  using assms acmd41_loop_error
  by (auto simp: sd_init_def Let_def split: prod.splits if_splits sum.splits) (metis fst_conv CMD.distinct InitError.inject(1))+

lemma sd_init_info:
  assumes "fst (sd_init s) = Inr info"
  obtains s' where "fst (get_cardinfo s') = Inr info"
  using assms that
  by (auto simp: sd_init_def Let_def split: prod.splits if_splits sum.splits) (metis fst_conv)+


lemma card_capacity_bounds:
  assumes "fst (get_cardinfo s) = Inr info"
  shows "unat (CardCapacity info) =
           (unat (csd_DeviceSize (SD_csd info)) + 1) * 1024 * 2 ^ unat (csd_RdBlockLen (SD_csd info))"
    and "1024 \<le> unat (CardCapacity info)"
    and "unat (CardCapacity info) \<le> 2 ^ 47"
proof -
  obtain t where t: "SD_csd info = parse_csd t" "CardCapacity info = card_capacity (SD_csd info)"
    using get_cardinfo_capacity [OF assms] by blast
  let ?d = "unat (csd_DeviceSize (SD_csd info))" and ?l = "unat (csd_RdBlockLen (SD_csd info))"
  have d: "?d < 2 ^ 22" and l: "?l < 16" using DeviceSize_bound RdBlockLen_bound by (simp_all add: t(1))
  show eq: "unat (CardCapacity info) = (?d + 1) * 1024 * 2 ^ ?l"
    unfolding t(2) by (rule card_capacity_unat [OF l d])
  have "(1::nat) * 1024 * 1 \<le> (?d + 1) * 1024 * 2 ^ ?l" by (intro mult_le_mono) auto
  then show "1024 \<le> unat (CardCapacity info)" unfolding eq by simp
  have "(2::nat) ^ ?l \<le> 2 ^ 15" using l by (intro power_increasing) auto
  then have "(?d + 1) * 1024 * 2 ^ ?l \<le> 2 ^ 22 * 1024 * 2 ^ 15"
    using d by (intro mult_le_mono) auto
  then show "unat (CardCapacity info) \<le> 2 ^ 47" unfolding eq by simp
qed

text \<open>
  C36: The capacity that \<open>init\<close> computes is exact: the product of the fields of the card register
  never wraps around 64 bits, whatever bytes the card sends, and it is at least two sectors. So
  the assertion of \<open>init_sdcard\<close> on the number of sectors never fails, and \<open>init_sdcard\<close> panics
  exactly when the initialisation reports an error.
\<close>

theorem init_sdcard_capacity:
  "case sd_init s of
     (Inl e, s') \<Rightarrow> init_sdcard s = Inl Unwrap_None
   | (Inr info, s') \<Rightarrow>
       init_sdcard s = Inr s' \<and>
       unat (CardCapacity info) =
         (unat (csd_DeviceSize (SD_csd info)) + 1) * 1024 * 2 ^ unat (csd_RdBlockLen (SD_csd info)) \<and>
       unat (CardCapacity info) \<le> 2 ^ 47"
proof (cases "sd_init s")
  case (Pair r s')
  show ?thesis
  proof (cases r)
    case (Inl e)
    then show ?thesis using Pair by (simp add: init_sdcard_def)
  next
    case (Inr info)
    then have "fst (sd_init s) = Inr info" using Pair by simp
    then obtain s1 where g: "fst (get_cardinfo s1) = Inr info" by (rule sd_init_info)
    have "unat (512 :: 64 word) = 512" by simp
    then have "unat (CardCapacity info div 512) > 0"
      using card_capacity_bounds(2) [OF g] by (simp add: unat_div div_greater_zero_iff)
    then have "CardCapacity info div 512 > 0" by (simp add: word_less_nat_alt)
    then show ?thesis
      using Pair Inr card_capacity_bounds(1,3) [OF g] by (simp add: init_sdcard_def rassert_def)
  qed
qed

text \<open>
  C37: The response byte in an initialisation error says nothing about the command it names: when
  the card never leaves the idle state, or never answers the request for its operating conditions,
  the error carries the answer to \<open>CMD8\<close>, which was 1. The variable \<open>result\<close> that the loops
  assign is a new one in each iteration.
\<close>

theorem sd_init_stale_result:
  assumes "fst (sd_init s) = Inl (CMDFailed cmd r)" and "cmd = ACMD41 \<or> cmd = CMD58"
  shows "r = 0x01"
  using assms by (rule sd_init_error)

text \<open>A card that answers 1 to \<open>CMD55\<close> and 5 to every \<open>ACMD41\<close>.\<close>

definition stubborn_card :: "nat \<Rightarrow> u8" where
  "stubborn_card n = (if n < 6 \<or> even n then 1 else 5)"

lemma stubborn_card_simps:
  "n < 6 \<Longrightarrow> stubborn_card n = 1" "even n \<Longrightarrow> stubborn_card n = 1" "6 \<le> n \<Longrightarrow> odd n \<Longrightarrow> stubborn_card n = 5"
  by (simp_all add: stubborn_card_def)

lemma get_response_now:
  assumes "bus_in s (bus_pos s) = b" and "b \<noteq> 0xFF"
  shows "\<exists>s'. get_response s = (b, s') \<and> bus_in s' = bus_in s \<and> bus_pos s' = Suc (bus_pos s)"
proof -
  have c: "coming (replicate 0 0xFF @ [b] @ []) s" using assms(1) by (simp add: coming_def)
  obtain s' where "get_response s = (b, s')" "transfers s (Suc 0) [] s'"
    by (rule get_response_coming [OF c assms(2)]) simp_all
  then show ?thesis by (auto simp: transfers_def)
qed

lemma cmd_bus [simp]:
  "bus_in (send_cmd c a k s) = bus_in s" "bus_pos (send_cmd c a k s) = bus_pos s"
  "bus_in (end_cmd s) = bus_in s" "bus_pos (end_cmd s) = bus_pos s"
  using send_cmd_transfers [of s c a k] end_cmd_transfers [of s] by (simp_all add: transfers_def)

lemma acmd41_stubborn:
  assumes "bus_in s = stubborn_card" and "even (bus_pos s)" and "bus_pos s \<ge> 6"
  shows "fst (acmd41_loop n s) = Inr 0"
  using assms
proof (induction n arbitrary: s)
  case (Suc n)
  obtain s1 where s1: "get_response (send_cmd CMD55 0 0 s) = (1, s1)" "bus_in s1 = stubborn_card" "bus_pos s1 = Suc (bus_pos s)"
    using get_response_now [of "send_cmd CMD55 0 0 s" 1] Suc.prems by (auto simp: stubborn_card_simps)
  obtain s2 where s2: "get_response (send_cmd ACMD41 0x40000000 0 (end_cmd s1)) = (5, s2)" "bus_in s2 = stubborn_card"
      "bus_pos s2 = Suc (Suc (bus_pos s))"
    using get_response_now [of "send_cmd ACMD41 0x40000000 0 (end_cmd s1)" 5] Suc.prems s1(2,3) by (auto simp: stubborn_card_simps)
  have "fst (acmd41_loop n (end_cmd s2)) = Inr 0" by (rule Suc.IH) (use s2 Suc.prems in simp_all)
  then show ?case using s1(1) s2(1) by (simp add: Let_def)
qed simp


lemma sd_init_stubborn:
  assumes "bus_in s = stubborn_card" and "bus_pos s = 0"
  shows "\<exists>r. fst (sd_init s) = Inl (CMDFailed ACMD41 r)"
proof -
  define s0 where "s0 = write_data (replicate 10 0xff) (CS_HIGH (lowlevel_init s))"
  have s0: "bus_in s0 = stubborn_card" "bus_pos s0 = 0"
    using assms by (simp_all add: s0_def write_data_def CS_HIGH_def lowlevel_init_def bus_do_def)
  obtain s1 where s1: "get_response (send_cmd CMD0 0 0x95 s0) = (1, s1)" "bus_in s1 = stubborn_card" "bus_pos s1 = 1"
    using get_response_now [of "send_cmd CMD0 0 0x95 s0" 1] s0 by (auto simp: stubborn_card_simps)
  obtain s2 where s2: "get_response (send_cmd CMD8 0x01AA 0x87 (end_cmd s1)) = (1, s2)" "bus_in s2 = stubborn_card" "bus_pos s2 = 2"
    using get_response_now [of "send_cmd CMD8 0x01AA 0x87 (end_cmd s1)" 1] s1(2,3) by (auto simp: stubborn_card_simps)
  define s3 where "s3 = end_cmd (snd (read_data 4 s2))"
  have "bus_in s3 = stubborn_card" "bus_pos s3 = 6"
    using read_data_transfers [of s2 4] s2(2,3) by (simp_all add: s3_def transfers_def)
  then have "fst (acmd41_loop 255 s3) = Inr 0" by (intro acmd41_stubborn) simp_all
  then show ?thesis
    using s1(1) s2(1) by (simp add: sd_init_def Let_def case_prod_beta s0_def s3_def del: acmd41_loop.simps)
qed

theorem sd_init_stale_result_witness:
  "fst (sd_init \<lparr>bus_in = stubborn_card, bus_pos = 0, bus_log = []\<rparr>) = Inl (CMDFailed ACMD41 0x01)"
  using sd_init_stubborn [of "\<lparr>bus_in = stubborn_card, bus_pos = 0, bus_log = []\<rparr>"]
    sd_init_stale_result [of "\<lparr>bus_in = stubborn_card, bus_pos = 0, bus_log = []\<rparr>" ACMD41]
  by auto

end
