(* ===== verification/File_System.thy ===== *)
theory File_System
  imports Vfs
begin

text \<open>
  The file system as its users see it. On a disk that satisfies \<open>fs_inv\<close> every allocated inode is a
  well-formed file, different files have no block in common, and the blocks marked in the data
  bitmap are exactly the blocks of the files. Under this invariant the operations on one inode
  (\<open>write_at\<close>, \<open>read_at\<close>, \<open>clear\<close> of \<open>easy-fs/src/vfs.rs\<close>) refine the obvious operations on a list
  of bytes: they change the contents of that file, of no other, and keep the invariant. The sizes of
  the areas are a hypothesis \<open>geometry\<close>, which the file system of the image packer satisfies.
\<close>

section \<open>Areas of the disk\<close>

definition bitmap_area :: "Bitmap \<Rightarrow> nat set" where
  "bitmap_area bm = {start_block_id bm ..< start_block_id bm + bm_blocks bm}"

definition inode_area :: "EasyFileSystem \<Rightarrow> nat set" where
  "inode_area fs = {inode_area_start_block fs ..< inode_area_start_block fs + 1024 * bm_blocks (inode_bitmap fs)}"

definition data_area :: "nat \<Rightarrow> EasyFileSystem \<Rightarrow> nat set" where
  "data_area A fs = {data_area_start_block fs ..< data_area_start_block fs + A}"

text \<open>The areas follow each other on a device of \<open>n\<close> blocks; the last has \<open>A\<close> blocks.\<close>

definition geometry :: "nat \<Rightarrow> nat \<Rightarrow> EasyFileSystem \<Rightarrow> bool" where
  "geometry n A fs \<longleftrightarrow>
     1 \<le> start_block_id (inode_bitmap fs) \<and> 0 < bm_blocks (inode_bitmap fs) \<and>
     start_block_id (inode_bitmap fs) + bm_blocks (inode_bitmap fs) \<le> inode_area_start_block fs \<and>
     inode_area_start_block fs + 1024 * bm_blocks (inode_bitmap fs) \<le> start_block_id (data_bitmap fs) \<and>
     start_block_id (data_bitmap fs) + bm_blocks (data_bitmap fs) \<le> data_area_start_block fs \<and>
     data_area_start_block fs + A \<le> n \<and> n < 2 ^ 32 \<and> A \<le> bitmap_maximum (data_bitmap fs) \<and>
     bitmap_maximum (inode_bitmap fs) \<le> 2 ^ 32"

definition inode_block :: "EasyFileSystem \<Rightarrow> nat \<Rightarrow> nat" where
  "inode_block fs i = inode_area_start_block fs + i div 4"

lemma geometry_areas:
  assumes "geometry n A fs"
  shows "bitmap_area (inode_bitmap fs) \<inter> inode_area fs = {}" "bitmap_area (inode_bitmap fs) \<inter> bitmap_area (data_bitmap fs) = {}"
    "bitmap_area (inode_bitmap fs) \<inter> data_area A fs = {}" "inode_area fs \<inter> bitmap_area (data_bitmap fs) = {}"
    "inode_area fs \<inter> data_area A fs = {}" "bitmap_area (data_bitmap fs) \<inter> data_area A fs = {}"
    "inode_area fs \<subseteq> {..<n}" "data_area A fs \<subseteq> {..<n}" "bitmap_area (inode_bitmap fs) \<subseteq> {..<n}"
    "bitmap_area (data_bitmap fs) \<subseteq> {..<n}"
  using assms by (auto simp: geometry_def bitmap_area_def inode_area_def data_area_def)

lemma inode_block_area: "i < bitmap_maximum (inode_bitmap fs) \<Longrightarrow> inode_block fs i \<in> inode_area fs"
  by (auto simp: inode_block_def inode_area_def bitmap_maximum_def)

lemma disk_inode_pos:
  assumes "geometry n A fs" and "i < bitmap_maximum (inode_bitmap fs)"
  shows "get_disk_inode_pos fs i = (inode_block fs i, i mod 4 * 128)"
proof -
  have "inode_block fs i < n" using inode_block_area [OF assms(2)] geometry_areas(7) [OF assms(1)] by auto
  then have "inode_block fs i < 2 ^ 32" using assms(1) by (simp add: geometry_def)
  then show ?thesis by (simp add: get_disk_inode_pos_def Let_def DiskInode_size_def BLOCK_SZ_def inode_block_def)
qed

section \<open>The invariant\<close>

definition inode_at :: "EasyFileSystem \<Rightarrow> disk \<Rightarrow> nat \<Rightarrow> DiskInode" where
  "inode_at fs d i = dinode_dec (slice (i mod 4 * 128) 128 (d (inode_block fs i)))"

definition used_inodes :: "EasyFileSystem \<Rightarrow> disk \<Rightarrow> nat set" where
  "used_inodes fs d = bm_set (inode_bitmap fs) d"

definition used_data :: "EasyFileSystem \<Rightarrow> disk \<Rightarrow> nat set" where
  "used_data fs d = (\<lambda>k. data_area_start_block fs + k) ` bm_set (data_bitmap fs) d"

definition inode_blocks :: "EasyFileSystem \<Rightarrow> disk \<Rightarrow> nat \<Rightarrow> nat list" where
  "inode_blocks fs d i = blocks_of d (inode_at fs d i)"

definition file_content :: "EasyFileSystem \<Rightarrow> disk \<Rightarrow> nat \<Rightarrow> u8 list" where
  "file_content fs d i = content d (inode_at fs d i)"

definition fs_inv :: "nat \<Rightarrow> nat \<Rightarrow> EasyFileSystem \<Rightarrow> disk \<Rightarrow> bool" where
  "fs_inv n A fs d \<longleftrightarrow> geometry n A fs \<and> disk_ok d \<and> bm_set (data_bitmap fs) d \<subseteq> {..<A} \<and>
     (\<forall>i \<in> used_inodes fs d. di_size (inode_at fs d i) \<le> MAX_FILE_SIZE \<and> distinct (inode_blocks fs d i)) \<and>
     (\<forall>i \<in> used_inodes fs d. \<forall>j \<in> used_inodes fs d. i \<noteq> j \<longrightarrow>
        set (inode_blocks fs d i) \<inter> set (inode_blocks fs d j) = {}) \<and>
     used_data fs d = (\<Union>i \<in> used_inodes fs d. set (inode_blocks fs d i))"

text \<open>How many blocks are left.\<close>

definition free_data :: "nat \<Rightarrow> EasyFileSystem \<Rightarrow> disk \<Rightarrow> nat" where
  "free_data A fs d = A - card (used_data fs d)"

lemma used_inodes_bound: "i \<in> used_inodes fs d \<Longrightarrow> i < bitmap_maximum (inode_bitmap fs)"
  by (simp add: used_inodes_def bm_set_def)

lemma card_used_data: "card (used_data fs d) = card (bm_set (data_bitmap fs) d)"
  unfolding used_data_def by (rule card_image) (simp add: inj_on_def)

lemma fs_inv_facts:
  assumes "fs_inv n A fs d"
  shows "geometry n A fs" "disk_ok d" "bm_set (data_bitmap fs) d \<subseteq> {..<A}" "used_data fs d \<subseteq> data_area A fs"
proof -
  show "geometry n A fs" "disk_ok d" and bm: "bm_set (data_bitmap fs) d \<subseteq> {..<A}" using assms by (simp_all add: fs_inv_def)
  show "used_data fs d \<subseteq> data_area A fs" using bm by (auto simp: used_data_def data_area_def)
qed

lemma dinode_wf_at: "disk_ok d \<Longrightarrow> dinode_wf (inode_at fs d i)"
  unfolding inode_at_def by (rule dinode_dec_wf) (simp add: disk_ok_length)

lemma fs_inv_file:
  assumes inv: "fs_inv n A fs d" and i: "i \<in> used_inodes fs d"
  shows "set (inode_blocks fs d i) \<subseteq> data_area A fs"
    and "H \<inter> data_area A fs = {} \<Longrightarrow> file_ok n H d (inode_at fs d i)"
proof -
  note f = fs_inv_facts [OF inv]
  show sub: "set (inode_blocks fs d i) \<subseteq> data_area A fs" using inv i f(4) unfolding fs_inv_def by blast
  assume "H \<inter> data_area A fs = {}"
  then have "usable n H (inode_blocks fs d i)"
    using sub geometry_areas(8) [OF f(1)] by (auto simp: usable_def)
  then show "file_ok n H d (inode_at fs d i)"
    using inv i dinode_wf_at [OF f(2)] by (simp add: file_ok_def fs_inv_def inode_blocks_def)
qed

section \<open>Frames\<close>

text \<open>A file depends on its own blocks only.\<close>

lemma blocks_agree:
  assumes "\<forall>b \<in> set (blocks_of d di). d' b = d b" and "di_size di \<le> MAX_FILE_SIZE"
  shows "blocks_of d' di = blocks_of d di" "content d' di = content d di"
proof -
  let ?m = "data_blocks di"
  have "\<forall>b \<in> index_set d di ?m. d' b = d b" using assms(1) index_set_tree [of d di ?m] by (auto simp: blocks_of_def)
  then have c: "chunk d' di k = chunk d di k" if "k < ?m" for k by (rule chunk_agree [OF that])
  show "blocks_of d' di = blocks_of d di" unfolding blocks_of_def by (rule tree_cong) (rule c)
  have "byte_at d' di i = byte_at d di i" if "i < di_size di" for i
  proof -
    have "di_size di \<le> 512 * ?m" using blocks_bound(3) [OF assms(2)] by (simp add: data_blocks_def)
    then have k: "i div 512 < ?m" using that by (simp add: div_less_iff_less_mult mult.commute)
    have "data_block_at d di (i div 512) \<in> set (blocks_of d di)"
      using tree_members(1) [OF k] by (simp add: blocks_of_def)
    then show ?thesis using assms(1) chunk_data [OF c [OF k]] by (simp add: byte_at_def)
  qed
  then show "content d' di = content d di" by (simp add: content_def)
qed

definition same_off :: "nat set \<Rightarrow> disk \<Rightarrow> disk \<Rightarrow> bool" where
  "same_off S d d' \<longleftrightarrow> (\<forall>b. b \<notin> S \<longrightarrow> d' b = d b)"

lemma same_off_refl [simp]: "same_off S d d"
  by (simp add: same_off_def)

lemma same_off_trans: "same_off S d e \<Longrightarrow> same_off T e f \<Longrightarrow> S \<union> T \<subseteq> U \<Longrightarrow> same_off U d f"
  unfolding same_off_def by (metis UnCI subsetD)

lemma same_off_mono: "same_off S d d' \<Longrightarrow> S \<subseteq> T \<Longrightarrow> same_off T d d'"
  by (auto simp: same_off_def)

lemma bm_set_same:
  assumes "same_off S d d'" and "S \<inter> bitmap_area bm = {}"
  shows "bm_set bm d' = bm_set bm d"
proof -
  have "d' (k div 4096 + start_block_id bm) = d (k div 4096 + start_block_id bm)" if "k < bitmap_maximum bm" for k
  proof -
    have "k div 4096 + start_block_id bm \<in> bitmap_area bm"
      using that by (auto simp: bitmap_area_def bitmap_maximum_def less_mult_imp_div_less)
    then show ?thesis using assms by (auto simp: same_off_def)
  qed
  then show ?thesis by (auto simp: bm_set_def)
qed

lemma bm_set_put_ok:
  "disk_ok d \<Longrightarrow> k < bitmap_maximum bm \<Longrightarrow>
   bm_set bm (bm_put bm v k d) = (if v then insert k (bm_set bm d) else bm_set bm d - {k})"
  by (rule bm_set_put) (simp_all add: disk_ok_length)

lemma bm_put_same: "k < bitmap_maximum bm \<Longrightarrow> same_off (bitmap_area bm) d (bm_put bm v k d)"
  by (auto simp: same_off_def bm_put_def Let_def bitmap_area_def bitmap_maximum_def less_mult_imp_div_less)

lemma inode_at_same:
  assumes "same_off S d d'" and "S \<inter> inode_area fs = {}" and "i < bitmap_maximum (inode_bitmap fs)"
  shows "inode_at fs d' i = inode_at fs d i"
  using assms inode_block_area [OF assms(3)] by (auto simp: inode_at_def same_off_def)


section \<open>Allocating data blocks\<close>

lemma least_free:
  assumes "S \<subseteq> {..<A :: nat}" and "card S < A"
  obtains k where "k < A" "k \<notin> S" "\<forall>j < k. j \<in> S"
proof -
  have "\<exists>k. k \<notin> S \<and> k < A"
  proof (rule ccontr)
    assume "\<not> ?thesis"
    then have "S = {..<A}" using assms(1) by auto
    then show False using assms(2) by simp
  qed
  then obtain m where m: "m \<notin> S" "m < A" by blast
  define k where "k = (LEAST k. k \<notin> S)"
  have k: "k \<notin> S" unfolding k_def using m(1) by (rule LeastI)
  have "k \<le> m" unfolding k_def using m(1) by (rule Least_le)
  then have "k < A" using m(2) by simp
  moreover have "\<forall>j < k. j \<in> S" unfolding k_def using not_less_Least by blast
  ultimately show ?thesis using k that by blast
qed

text \<open>Blocks the caller holds lie in the inode area.\<close>

definition held_ok :: "EasyFileSystem \<Rightarrow> nat set \<Rightarrow> bool" where
  "held_ok fs H \<longleftrightarrow> H \<subseteq> inode_area fs \<and> finite H \<and> card H \<le> 1"

lemma held_ok_bm:
  assumes "geometry n A fs" and "held_ok fs H"
  shows "bm_ok n H (data_bitmap fs)" "bm_ok n H (inode_bitmap fs)" "H \<inter> data_area A fs = {}"
    "card H + 1 < BLOCK_CACHE_SIZE" "finite H"
  using assms geometry_areas [OF assms(1)]
  by (auto simp: held_ok_def bm_ok_def bitmap_area_def [symmetric] BLOCK_CACHE_SIZE_def geometry_def)

lemma runs_alloc_data:
  assumes g: "geometry n A fs" and d: "disk_ok d" and H: "held_ok fs H"
    and bm: "bm_set (data_bitmap fs) d \<subseteq> {..<A}" "card (bm_set (data_bitmap fs) d) < A"
  obtains k where "k < A" "k \<notin> bm_set (data_bitmap fs) d"
    "runs n H (alloc_data fs) d (data_area_start_block fs + k) (bm_put (data_bitmap fs) True k d)"
proof -
  obtain k where k: "k < A" "k \<notin> bm_set (data_bitmap fs) d" "\<forall>j < k. j \<in> bm_set (data_bitmap fs) d"
    using least_free [OF bm] .
  have small: "data_area_start_block fs + k < 2 ^ 32" "k < bitmap_maximum (data_bitmap fs)"
    using g k(1) by (simp_all add: geometry_def)
  have r: "runs n H (bitmap_alloc (data_bitmap fs)) d (Some k) (bm_put (data_bitmap fs) True k d)"
    by (rule runs_bitmap_alloc_Some [OF held_ok_bm(1) [OF g H] d small(2) k(2,3)])
  have "runs n H (alloc_data fs) d (data_area_start_block fs + k) (bm_put (data_bitmap fs) True k d)"
    unfolding alloc_data_def
    by (rule runs_sbind [OF r], rule runs_sbind [where x = k and e = "bm_put (data_bitmap fs) True k d"])
      (use small in \<open>simp_all add: runwrap_def add.commute\<close>)
  then show ?thesis using that k by blast
qed

lemma runs_alloc_data_loop:
  assumes g: "geometry n A fs" and H: "held_ok fs H"
    and "disk_ok d" "bm_set (data_bitmap fs) d \<subseteq> {..<A}" "card (used_data fs d) + m \<le> A"
  shows "\<exists>xs d'. runs n H (alloc_data_loop fs m v) d (v @ xs) d' \<and> length xs = m \<and> distinct xs \<and>
    set xs \<subseteq> data_area A fs \<and> set xs \<inter> used_data fs d = {} \<and> used_data fs d' = used_data fs d \<union> set xs \<and>
    bm_set (data_bitmap fs) d' \<subseteq> {..<A} \<and> disk_ok d' \<and> same_off (bitmap_area (data_bitmap fs)) d d'"
  using assms(3-5)
proof (induction m arbitrary: v d)
  case 0
  then show ?case by (intro exI [of _ "[]"] exI [of _ d]) simp
next
  case (Suc m)
  let ?db = "data_bitmap fs" and ?s = "data_area_start_block fs"
  have "card (bm_set ?db d) < A" using Suc.prems(3) by (simp add: card_used_data)
  then obtain k where k: "k < A" "k \<notin> bm_set ?db d" and r: "runs n H (alloc_data fs) d (?s + k) (bm_put ?db True k d)"
    using runs_alloc_data [OF g Suc.prems(1) H Suc.prems(2)] by blast
  let ?e = "bm_put ?db True k d"
  have km: "k < bitmap_maximum ?db" using g k(1) by (simp add: geometry_def)
  have e: "bm_set ?db ?e = insert k (bm_set ?db d)" using bm_set_put_ok [OF Suc.prems(1) km, of True] by simp
  then have ue: "used_data fs ?e = insert (?s + k) (used_data fs d)" by (simp add: used_data_def)
  have new: "?s + k \<notin> used_data fs d" using k(2) by (auto simp: used_data_def)
  have fin: "finite (used_data fs d)" using Suc.prems(2) finite_subset by (fastforce simp: used_data_def)
  have pre: "disk_ok ?e" "bm_set ?db ?e \<subseteq> {..<A}" "card (used_data fs ?e) + m \<le> A"
    using Suc.prems k disk_ok_bm_put e ue new fin by simp_all
  obtain xs d' where IH: "runs n H (alloc_data_loop fs m (vec_push v (?s + k))) ?e (vec_push v (?s + k) @ xs) d'" "length xs = m"
      "distinct xs" "set xs \<subseteq> data_area A fs" "set xs \<inter> used_data fs ?e = {}" "used_data fs d' = used_data fs ?e \<union> set xs"
      "bm_set ?db d' \<subseteq> {..<A}" "disk_ok d'" "same_off (bitmap_area ?db) ?e d'"
    using Suc.IH [OF pre, of "vec_push v (?s + k)"] by blast
  have "runs n H (alloc_data_loop fs (Suc m) v) d (v @ (?s + k) # xs) d'"
    using runs_sbind [OF r, of "\<lambda>b. alloc_data_loop fs m (vec_push v b)"] IH(1) by (simp add: vec_push_def)
  moreover have "set ((?s + k) # xs) \<subseteq> data_area A fs" using k(1) IH(4) by (auto simp: data_area_def)
  moreover have "distinct ((?s + k) # xs)" "set ((?s + k) # xs) \<inter> used_data fs d = {}"
    "used_data fs d' = used_data fs d \<union> set ((?s + k) # xs)" using IH(3,5,6) ue new by auto
  moreover have "same_off (bitmap_area ?db) d d'" using same_off_trans [OF bm_put_same [OF km] IH(9)] by simp
  ultimately show ?case using IH(2,7,8) by (intro exI [of _ "(?s + k) # xs"] exI [of _ d']) simp
qed


section \<open>Changing one inode\<close>

definition put_inode :: "EasyFileSystem \<Rightarrow> nat \<Rightarrow> DiskInode \<Rightarrow> disk \<Rightarrow> disk" where
  "put_inode fs i di d = d(inode_block fs i := splice (i mod 4 * 128) (dinode_enc di) (d (inode_block fs i)))"

lemma mod4_cases: "(i :: nat) mod 4 = 0 \<or> i mod 4 = 1 \<or> i mod 4 = 2 \<or> i mod 4 = 3"
  by linarith

lemma slice_splice_inode:
  assumes "length bs = 512" and "length x = 128"
  shows "slice (j mod 4 * 128) 128 (splice (i mod 4 * 128) x bs) = (if i mod 4 = j mod 4 then x else slice (j mod 4 * 128) 128 bs)"
  using assms mod4_cases [of i] mod4_cases [of j] by (auto simp: slice_splice_disjoint)

lemma inode_at_put:
  assumes "disk_ok d" and "dinode_wf di"
  shows "inode_at fs (put_inode fs i di d) j = (if i = j then di else inode_at fs d j)"
proof -
  have eq: "i = j \<longleftrightarrow> inode_block fs i = inode_block fs j \<and> i mod 4 = j mod 4"
    unfolding inode_block_def by (metis add_left_cancel div_mult_mod_eq)
  show ?thesis
    using slice_splice_inode [OF disk_ok_length [OF assms(1)] length_dinode_enc [OF assms(2)]] assms(2)
    by (auto simp: inode_at_def put_inode_def eq)
qed

lemma disk_ok_put: "disk_ok d \<Longrightarrow> dinode_wf di \<Longrightarrow> disk_ok (put_inode fs i di d)"
  using mod4_cases [of i] by (auto simp: disk_ok_def put_inode_def BLOCK_SZ_def)

lemma put_inode_same: "same_off {inode_block fs i} d (put_inode fs i di d)"
  by (simp add: same_off_def put_inode_def)

text \<open>
  What an operation on inode \<open>i\<close> may do before it stores the inode: its blocks come from the old
  blocks of the file and from free ones, and the blocks of the other files stay.
\<close>

definition touches_file :: "nat \<Rightarrow> EasyFileSystem \<Rightarrow> nat \<Rightarrow> disk \<Rightarrow> DiskInode \<Rightarrow> disk \<Rightarrow> bool" where
  "touches_file A fs i d di e \<longleftrightarrow>
     disk_ok e \<and> dinode_wf di \<and> di_size di \<le> MAX_FILE_SIZE \<and> distinct (blocks_of e di) \<and>
     same_off (data_area A fs \<union> bitmap_area (data_bitmap fs)) d e \<and> bm_set (data_bitmap fs) e \<subseteq> {..<A} \<and>
     used_data fs e = (used_data fs d - set (inode_blocks fs d i)) \<union> set (blocks_of e di) \<and>
     set (blocks_of e di) \<inter> (used_data fs d - set (inode_blocks fs d i)) = {} \<and>
     set (blocks_of e di) \<subseteq> data_area A fs \<and>
     (\<forall>b \<in> used_data fs d - set (inode_blocks fs d i). e b = d b)"

lemma fs_inv_other:
  assumes inv: "fs_inv n A fs d" and "i \<in> used_inodes fs d" and "j \<in> used_inodes fs d" and "j \<noteq> i"
  shows "set (inode_blocks fs d j) \<subseteq> used_data fs d - set (inode_blocks fs d i)" "di_size (inode_at fs d j) \<le> MAX_FILE_SIZE"
  using assms unfolding fs_inv_def by blast+

lemma file_same:
  assumes "inode_at fs d' j = inode_at fs d j" and "\<forall>b \<in> set (inode_blocks fs d j). d' b = d b"
    and "di_size (inode_at fs d j) \<le> MAX_FILE_SIZE"
  shows "inode_blocks fs d' j = inode_blocks fs d j" "file_content fs d' j = file_content fs d j"
  using blocks_agree [of d "inode_at fs d j" d'] assms by (simp_all add: inode_blocks_def file_content_def)

text \<open>The state after an operation on inode \<open>i\<close> that leaves contents \<open>c\<close>.\<close>

definition file_updated :: "nat \<Rightarrow> nat \<Rightarrow> EasyFileSystem \<Rightarrow> nat \<Rightarrow> disk \<Rightarrow> u8 list \<Rightarrow> disk \<Rightarrow> bool" where
  "file_updated n A fs i d c d' \<longleftrightarrow>
     fs_inv n A fs d' \<and> used_inodes fs d' = used_inodes fs d \<and> file_content fs d' i = c \<and> d' 0 = d 0 \<and>
     di_type (inode_at fs d' i) = di_type (inode_at fs d i) \<and>
     (\<forall>j \<in> used_inodes fs d. j \<noteq> i \<longrightarrow>
        inode_at fs d' j = inode_at fs d j \<and> file_content fs d' j = file_content fs d j)"


lemma touchesD:
  assumes "touches_file A fs i d di e"
  shows "disk_ok e" "dinode_wf di" "di_size di \<le> MAX_FILE_SIZE" "distinct (blocks_of e di)"
    "same_off (data_area A fs \<union> bitmap_area (data_bitmap fs)) d e" "bm_set (data_bitmap fs) e \<subseteq> {..<A}"
    "used_data fs e = (used_data fs d - set (inode_blocks fs d i)) \<union> set (blocks_of e di)"
    "set (blocks_of e di) \<inter> (used_data fs d - set (inode_blocks fs d i)) = {}" "set (blocks_of e di) \<subseteq> data_area A fs"
    "\<forall>b \<in> used_data fs d - set (inode_blocks fs d i). e b = d b"
  using assms unfolding touches_file_def by blast+

lemma put_touched:
  assumes inv: "fs_inv n A fs d" and i: "i \<in> used_inodes fs d" and t: "touches_file A fs i d di e"
  shows "used_inodes fs (put_inode fs i di e) = used_inodes fs d" and "used_data fs (put_inode fs i di e) = used_data fs e"
    and "bm_set (data_bitmap fs) (put_inode fs i di e) = bm_set (data_bitmap fs) e"
    and "j \<in> used_inodes fs d \<Longrightarrow> inode_at fs (put_inode fs i di e) j = (if j = i then di else inode_at fs d j)"
    and "b \<in> data_area A fs \<Longrightarrow> put_inode fs i di e b = e b"
    and "inode_blocks fs (put_inode fs i di e) i = blocks_of e di" and "file_content fs (put_inode fs i di e) i = content e di"
proof -
  let ?d = "put_inode fs i di e" and ?db = "data_bitmap fs" and ?ib = "inode_bitmap fs"
  note f = fs_inv_facts [OF inv] and ar = geometry_areas [OF f(1)] and e = touchesD [OF t]
  have ib: "inode_block fs i \<in> inode_area fs" by (rule inode_block_area [OF used_inodes_bound [OF i]])
  note same = put_inode_same [of fs i e di]
  have bmi: "bm_set ?ib ?d = bm_set ?ib d"
    using bm_set_same [OF same, of ?ib] bm_set_same [OF e(5), of ?ib] ib ar(1,2,3) by auto
  show bmd: "bm_set ?db ?d = bm_set ?db e" using bm_set_same [OF same, of ?db] ib ar(4) by auto
  show "used_inodes fs ?d = used_inodes fs d" "used_data fs ?d = used_data fs e"
    using bmi bmd by (simp_all add: used_inodes_def used_data_def)
  have dj: "(data_area A fs \<union> bitmap_area ?db) \<inter> inode_area fs = {}" using ar(4,5) by blast
  show at: "inode_at fs ?d j = (if j = i then di else inode_at fs d j)" if "j \<in> used_inodes fs d" for j
    using inode_at_put [OF e(1,2)] inode_at_same [OF e(5) dj used_inodes_bound [OF that]] by simp
  show keep: "?d b = e b" if "b \<in> data_area A fs" for b
  proof -
    have "b \<noteq> inode_block fs i" using that ib ar(5) by blast
    then show ?thesis using same by (simp add: same_off_def)
  qed
  show "inode_blocks fs ?d i = blocks_of e di" "file_content fs ?d i = content e di"
    using blocks_agree [of e di ?d] e(3,9) keep at [OF i] by (auto simp: inode_blocks_def file_content_def)
qed

text \<open>The super block stays.\<close>

lemma geometry_super:
  assumes "geometry n A fs"
  shows "0 \<notin> inode_area fs" "0 \<notin> data_area A fs" "0 \<notin> bitmap_area (data_bitmap fs)" "0 \<notin> bitmap_area (inode_bitmap fs)"
  using assms by (auto simp: geometry_def inode_area_def data_area_def bitmap_area_def)

lemma put_touched_super:
  assumes inv: "fs_inv n A fs d" and i: "i \<in> used_inodes fs d" and t: "touches_file A fs i d di e"
  shows "put_inode fs i di e 0 = d 0"
proof -
  note z = geometry_super [OF fs_inv_facts(1) [OF inv]]
  have "inode_block fs i \<noteq> 0" using inode_block_area [OF used_inodes_bound [OF i]] z(1) by metis
  moreover have "e 0 = d 0" using touchesD(5) [OF t] z(2,3) by (simp add: same_off_def)
  ultimately show ?thesis by (simp add: put_inode_def)
qed

lemma put_touched_other:
  assumes inv: "fs_inv n A fs d" and i: "i \<in> used_inodes fs d" and t: "touches_file A fs i d di e"
    and j: "j \<in> used_inodes fs d" "j \<noteq> i"
  shows "inode_blocks fs (put_inode fs i di e) j = inode_blocks fs d j"
    and "file_content fs (put_inode fs i di e) j = file_content fs d j"
    and "set (inode_blocks fs d j) \<subseteq> used_data fs d - set (inode_blocks fs d i)"
proof -
  note o = fs_inv_other [OF inv i j] and p = put_touched [OF inv i t]
  show "set (inode_blocks fs d j) \<subseteq> used_data fs d - set (inode_blocks fs d i)" by (rule o(1))
  have "\<forall>b \<in> set (inode_blocks fs d j). put_inode fs i di e b = d b"
    using o(1) touchesD(10) [OF t] p(5) fs_inv_facts(4) [OF inv] by (metis DiffD1 subsetD)
  then show "inode_blocks fs (put_inode fs i di e) j = inode_blocks fs d j"
    "file_content fs (put_inode fs i di e) j = file_content fs d j"
    using file_same [of fs "put_inode fs i di e" j d] p(4) [OF j(1)] j(2) o(2) by simp_all
qed

lemma fs_update:
  assumes inv: "fs_inv n A fs d" and i: "i \<in> used_inodes fs d" and t: "touches_file A fs i d di e"
    and ty: "di_type di = di_type (inode_at fs d i)"
  shows "file_updated n A fs i d (content e di) (put_inode fs i di e)"
proof -
  let ?d = "put_inode fs i di e" and ?db = "data_bitmap fs"
  note f = fs_inv_facts [OF inv] and e = touchesD [OF t] and p = put_touched [OF inv i t]
  note used = p(1,2) and bmd = p(3) and at = p(4) and own = p(6,7) and other = put_touched_other [OF inv i t]
  have apart: "set (blocks_of e di) \<inter> set (inode_blocks fs ?d j) = {}" if "j \<in> used_inodes fs d" "j \<noteq> i" for j
    using e(8) other(3) [OF that] unfolding other(1) [OF that] by blast
  have "fs_inv n A fs ?d"
    unfolding fs_inv_def used
  proof (intro conjI ballI impI)
    show "geometry n A fs" "disk_ok ?d" "bm_set ?db ?d \<subseteq> {..<A}" using f(1) disk_ok_put [OF e(1,2)] bmd e(6) by simp_all
  next
    fix j assume j: "j \<in> used_inodes fs d"
    show "di_size (inode_at fs ?d j) \<le> MAX_FILE_SIZE" using at [OF j] e(3) fs_inv_other(2) [OF inv i j] by auto
    have "distinct (inode_blocks fs d j)" using inv j by (simp add: fs_inv_def)
    then show "distinct (inode_blocks fs ?d j)"
      using own(1) other(1) [OF j] e(4) by (cases "j = i") simp_all
    fix k assume k: "k \<in> used_inodes fs d" and jk: "j \<noteq> k"
    have old: "set (inode_blocks fs d j) \<inter> set (inode_blocks fs d k) = {}" using inv j k jk by (simp add: fs_inv_def)
    show "set (inode_blocks fs ?d j) \<inter> set (inode_blocks fs ?d k) = {}"
    proof (cases "j = i")
      case True
      then show ?thesis using own(1) apart [OF k] jk by simp
    next
      case False
      then show ?thesis using own(1) apart [OF j] other(1) [OF j] other(1) [OF k] old by (cases "k = i") auto
    qed
  next
    have U: "used_data fs d = (\<Union>j \<in> used_inodes fs d. set (inode_blocks fs d j))" using inv by (simp add: fs_inv_def)
    have "used_data fs d - set (inode_blocks fs d i) = (\<Union>j \<in> used_inodes fs d - {i}. set (inode_blocks fs d j))"
    proof
      show "used_data fs d - set (inode_blocks fs d i) \<subseteq> (\<Union>j \<in> used_inodes fs d - {i}. set (inode_blocks fs d j))"
        unfolding U by blast
      show "(\<Union>j \<in> used_inodes fs d - {i}. set (inode_blocks fs d j)) \<subseteq> used_data fs d - set (inode_blocks fs d i)"
        by (rule UN_least) (rule other(3), simp_all)
    qed
    also have "\<dots> = (\<Union>j \<in> used_inodes fs d - {i}. set (inode_blocks fs ?d j))"
      by (rule SUP_cong [OF refl]) (metis Diff_iff other(1) singletonI)
    finally have "used_data fs e = (\<Union>j \<in> used_inodes fs d - {i}. set (inode_blocks fs ?d j)) \<union> set (inode_blocks fs ?d i)"
      unfolding e(7) own(1) by (rule arg_cong)
    also have "\<dots> = (\<Union>j \<in> used_inodes fs d. set (inode_blocks fs ?d j))" using i by blast
    finally show "used_data fs e = (\<Union>j \<in> used_inodes fs d. set (inode_blocks fs ?d j))" .
  qed
  moreover have "?d 0 = d 0" using put_touched_super [OF inv i t] .
  ultimately show ?thesis unfolding file_updated_def used using own other(2) at i ty by simp
qed


section \<open>Growing and writing\<close>

lemma touches_self:
  assumes inv: "fs_inv n A fs d" and i: "i \<in> used_inodes fs d"
  shows "touches_file A fs i d (inode_at fs d i) d"
proof -
  note f = fs_inv_facts [OF inv]
  have "set (inode_blocks fs d i) \<subseteq> used_data fs d" using inv i unfolding fs_inv_def by blast
  then show ?thesis
    using f fs_inv_file(1) [OF inv i] dinode_wf_at [OF f(2)] inv i
    by (auto simp: touches_file_def fs_inv_def inode_blocks_def)
qed

lemma touches_write:
  assumes t: "touches_file A fs i d di e" and g: "geometry n A fs" and ok: "disk_ok e'" and bl: "blocks_of e' di = blocks_of e di"
    and same: "\<forall>b. b \<notin> set (blocks_of e di) \<longrightarrow> e' b = e b"
  shows "touches_file A fs i d di e'"
proof -
  have sub: "set (blocks_of e di) \<subseteq> data_area A fs" and off: "same_off (data_area A fs \<union> bitmap_area (data_bitmap fs)) d e"
    and dis: "set (blocks_of e di) \<inter> (used_data fs d - set (inode_blocks fs d i)) = {}"
    using t unfolding touches_file_def by blast+
  have so: "same_off (set (blocks_of e di)) e e'" using same by (simp add: same_off_def)
  have bm: "bm_set (data_bitmap fs) e' = bm_set (data_bitmap fs) e"
    using bm_set_same [OF so] sub geometry_areas(6) [OF g] by blast
  have "same_off (data_area A fs \<union> bitmap_area (data_bitmap fs)) d e'"
    using same_off_trans [OF off so] sub by blast
  moreover have "\<forall>b \<in> used_data fs d - set (inode_blocks fs d i). e' b = d b"
    using t same dis unfolding touches_file_def by (metis disjoint_iff)
  ultimately show ?thesis using t ok bl bm by (simp add: touches_file_def used_data_def)
qed

lemma touches_grow:
  assumes inv: "fs_inv n A fs d" and i: "i \<in> used_inodes fs d"
    and xs: "set xs \<subseteq> data_area A fs" "set xs \<inter> used_data fs d = {}"
    and d1: "used_data fs d1 = used_data fs d \<union> set xs" "bm_set (data_bitmap fs) d1 \<subseteq> {..<A}"
      "same_off (bitmap_area (data_bitmap fs)) d d1"
    and e: "file_ok n H e di" "blocks_of e di = inode_blocks fs d i @ xs"
      "\<forall>b. b \<notin> set (inode_blocks fs d i @ xs) \<longrightarrow> e b = d1 b"
  shows "touches_file A fs i d di e"
proof -
  let ?B = "inode_blocks fs d i" and ?db = "data_bitmap fs"
  note f = fs_inv_facts [OF inv] and ar = geometry_areas [OF f(1)]
  have B: "set ?B \<subseteq> data_area A fs" "set ?B \<subseteq> used_data fs d"
    using fs_inv_file(1) [OF inv i] inv i unfolding fs_inv_def by blast+
  have so: "same_off (set (?B @ xs)) d1 e" using e(3) by (simp add: same_off_def)
  have bm: "bm_set ?db e = bm_set ?db d1" using bm_set_same [OF so, of ?db] B(1) xs(1) ar(6) by auto
  have "\<forall>b \<in> used_data fs d - set ?B. e b = d b"
  proof
    fix b assume b: "b \<in> used_data fs d - set ?B"
    then have "b \<notin> set (?B @ xs)" "b \<notin> bitmap_area ?db" using xs(2) f(4) ar(6) by auto
    then show "e b = d b" using e(3) d1(3) by (simp add: same_off_def)
  qed
  moreover have "same_off (data_area A fs \<union> bitmap_area ?db) d e"
    using same_off_trans [OF d1(3) so] B(1) xs(1) by auto
  moreover have "used_data fs e = (used_data fs d - set ?B) \<union> set (?B @ xs)"
    using d1(1) B(2) bm by (auto simp: used_data_def)
  moreover have "set (?B @ xs) \<inter> (used_data fs d - set ?B) = {}" "set (?B @ xs) \<subseteq> data_area A fs"
    using xs B(1) by auto
  ultimately show ?thesis using e(1,2) d1(2) bm by (simp add: touches_file_def file_ok_def)
qed

lemma runs_grow_file:
  assumes inv: "fs_inv n A fs d" and i: "i \<in> used_inodes fs d" and H: "held_ok fs H"
    and sz: "di_size (inode_at fs d i) \<le> new_size" "new_size \<le> MAX_FILE_SIZE"
    and room: "total_blocks new_size - total_blocks (di_size (inode_at fs d i)) \<le> free_data A fs d"
  obtains di e where "runs n H (inode_increase_size fs new_size (inode_at fs d i)) d di e" "touches_file A fs i d di e"
    "di_size di = new_size" "di_type di = di_type (inode_at fs d i)" "file_ok n H e di"
    "\<exists>rest. content e di = file_content fs d i @ rest"
proof -
  let ?di = "inode_at fs d i" and ?db = "data_bitmap fs" and ?B = "inode_blocks fs d i"
  let ?m = "total_blocks new_size - total_blocks (di_size ?di)"
  note f = fs_inv_facts [OF inv] and ar = geometry_areas [OF f(1)] and h = held_ok_bm [OF f(1) H]
  have "card (used_data fs d) \<le> A" using card_mono [OF _ f(4)] by (simp add: data_area_def)
  then have "card (used_data fs d) + ?m \<le> A" using room by (simp add: free_data_def)
  then obtain xs d1 where a: "runs n H (alloc_data_loop fs ?m []) d ([] @ xs) d1" "length xs = ?m" "distinct xs"
      "set xs \<subseteq> data_area A fs" "set xs \<inter> used_data fs d = {}" "used_data fs d1 = used_data fs d \<union> set xs"
      "bm_set ?db d1 \<subseteq> {..<A}" "disk_ok d1" "same_off (bitmap_area ?db) d d1"
    using runs_alloc_data_loop [OF f(1) H f(2,3), of ?m "[]"] by blast
  have B: "set ?B \<subseteq> data_area A fs" "set ?B \<subseteq> used_data fs d"
    using fs_inv_file(1) [OF inv i] inv i unfolding fs_inv_def by blast+
  have ok0: "file_ok n H d ?di" by (rule fs_inv_file(2) [OF inv i h(3)])
  have szd: "di_size ?di \<le> MAX_FILE_SIZE" using sz by simp
  have "\<forall>b \<in> set ?B. d1 b = d b" using a(9) B(1) ar(6) unfolding same_off_def by blast
  then have b1: "blocks_of d1 ?di = ?B" "content d1 ?di = file_content fs d i"
    using blocks_agree [of d ?di d1] szd by (simp_all add: inode_blocks_def file_content_def)
  have ok1: "file_ok n H d1 ?di" using ok0 a(8) b1(1) by (simp add: file_ok_def inode_blocks_def)
  have x32: "\<forall>b \<in> set xs. b < 2 ^ 32" and us: "usable n H xs"
    using a(4) ar(8) h(3) f(1) by (auto simp: usable_def geometry_def)
  have dist: "distinct (blocks_of d1 ?di @ xs)" using ok0 a(3,5) B(2) b1(1) by (auto simp: file_ok_def inode_blocks_def)
  obtain di e where g: "runs n H (increase_size new_size xs ?di) d1 di e" "file_ok n H e di" "di_size di = new_size"
      "di_type di = di_type ?di" "blocks_of e di = ?B @ xs" "\<exists>rest. content e di = file_content fs d i @ rest"
      "\<forall>b. b \<notin> set (?B @ xs) \<longrightarrow> e b = d1 b"
    using runs_increase_size_file [OF ok1 h(4,5) sz a(2) x32 dist us] unfolding b1 by blast
  have "runs n H (inode_increase_size fs new_size ?di) d di e"
    unfolding inode_increase_size_def using sz(1) a(1) g(1)
    by (auto simp: blocks_num_needed_eq [OF sz] not_less intro!: runs_sbind [OF runs_slift] runs_sbind [where x = xs and e = d1])
  moreover have "touches_file A fs i d di e" by (rule touches_grow [OF inv i a(4-7,9) g(2,5,7)])
  ultimately show ?thesis using that g by blast
qed


definition inode_ref :: "EasyFileSystem \<Rightarrow> nat \<Rightarrow> Inode" where
  "inode_ref fs i = Inode_new (inode_block fs i) (i mod 4 * 128) fs"

text \<open>Running a closure on the stored inode, inside the lock of its block.\<close>

lemma held_block:
  assumes "geometry n A fs" and "i < bitmap_maximum (inode_bitmap fs)"
  shows "held_ok fs {inode_block fs i}" "inode_block fs i < n" "i mod 4 * 128 + 128 \<le> BLOCK_SZ"
  using inode_block_area [OF assms(2)] geometry_areas(7) [OF assms(1)] mod4_cases [of i]
  by (auto simp: held_ok_def BLOCK_SZ_def)

lemma runs_modify_inode:
  assumes g: "geometry n A fs" and i: "i < bitmap_maximum (inode_bitmap fs)"
    and r: "runs n {inode_block fs i} (f (inode_at fs d i)) d (v, di) e" and wf: "dinode_wf di"
    and same: "e (inode_block fs i) = d (inode_block fs i)"
  shows "runs n {} (modify_disk_inode (inode_ref fs i) f) d v (put_inode fs i di e)"
proof -
  note hb = held_block [OF g i]
  have "runs n {inode_block fs i} (sbind (f (inode_at fs d i)) (\<lambda>(v, di). sret (v, dinode_enc di))) d (v, dinode_enc di) e"
    by (rule runs_sbind [OF r]) simp
  then have "runs n (insert (inode_block fs i) {})
      ((\<lambda>bs. sbind (f (dinode_dec bs)) (\<lambda>(v, di). sret (v, dinode_enc di))) (slice (i mod 4 * 128) 128 (d (inode_block fs i))))
      d (v, dinode_enc di) e" by (simp add: inode_at_def)
  then show ?thesis
    unfolding modify_disk_inode_def inode_ref_def Inode_new_def Inode.simps DiskInode_size_def
    using hb wf same by (intro runs_cache_modify [where bs = "dinode_enc di" and e = e]) (auto simp: put_inode_def BLOCK_CACHE_SIZE_def)
qed

lemma runs_read_inode:
  assumes g: "geometry n A fs" and i: "i < bitmap_maximum (inode_bitmap fs)"
    and r: "runs n {inode_block fs i} (f (inode_at fs d i)) d v e"
  shows "runs n {} (read_disk_inode (inode_ref fs i) f) d v e"
  unfolding read_disk_inode_def inode_ref_def Inode_new_def Inode.simps DiskInode_size_def
  using held_block [OF g i] r by (intro runs_cache_read) (auto simp: BLOCK_CACHE_SIZE_def inode_at_def)

lemma touches_inode_block:
  assumes "geometry n A fs" and "i < bitmap_maximum (inode_bitmap fs)" and "touches_file A fs i d di e"
  shows "e (inode_block fs i) = d (inode_block fs i)"
proof -
  have "inode_block fs i \<notin> data_area A fs \<union> bitmap_area (data_bitmap fs)"
    using inode_block_area [OF assms(2)] geometry_areas(4,5) [OF assms(1)] by blast
  then show ?thesis using assms(3) by (simp add: touches_file_def same_off_def)
qed

lemma runs_file_op:
  assumes inv: "fs_inv n A fs d" and i: "i \<in> used_inodes fs d"
    and r: "runs n {inode_block fs i} (f (inode_at fs d i)) d (v, di) e"
    and t: "touches_file A fs i d di e" "di_type di = di_type (inode_at fs d i)"
  shows "runs n {} (modify_disk_inode (inode_ref fs i) f) d v (put_inode fs i di e)"
    and "file_updated n A fs i d (content e di) (put_inode fs i di e)"
proof -
  note g = fs_inv_facts(1) [OF inv] and b = used_inodes_bound [OF i]
  have wf: "dinode_wf di" using t(1) by (simp add: touches_file_def)
  show "runs n {} (modify_disk_inode (inode_ref fs i) f) d v (put_inode fs i di e)"
    by (rule runs_modify_inode [where f = f, OF g b r wf touches_inode_block [OF g b t(1)]])
  show "file_updated n A fs i d (content e di) (put_inode fs i di e)" by (rule fs_update [OF inv i t])
qed


lemma runs_write_inode:
  assumes inv: "fs_inv n A fs d" and i: "i \<in> used_inodes fs d" and buf: "buf \<noteq> []"
    and off: "off \<le> length (file_content fs d i)" "off + length buf \<le> MAX_FILE_SIZE"
    and room: "total_blocks (off + length buf) - total_blocks (length (file_content fs d i)) \<le> free_data A fs d"
  obtains di e e' where
    "runs n {inode_block fs i} (inode_increase_size fs ((off + length buf) mod 2 ^ 32) (inode_at fs d i)) d di e"
    "runs n {inode_block fs i} (di_write_at off buf di) e (length buf) e'"
    "touches_file A fs i d di e'" "di_type di = di_type (inode_at fs d i)"
    "content e' di = splice off buf (file_content fs d i)"
proof -
  let ?H = "{inode_block fs i}" and ?di = "inode_at fs d i" and ?new = "off + length buf"
  note g = fs_inv_facts(1) [OF inv] and h = held_block(1) [OF fs_inv_facts(1) [OF inv] used_inodes_bound [OF i]]
  note hh = held_ok_bm [OF g h]
  have sz: "length (file_content fs d i) = di_size ?di" by (simp add: file_content_def)
  have m: "?new mod 2 ^ 32 = ?new" using off(2) by (simp add: MAX_FILE_SIZE_def)
  obtain di e where grown: "runs n ?H (inode_increase_size fs ?new ?di) d di e" "touches_file A fs i d di e"
      "di_size di = max ?new (di_size ?di)" "di_type di = di_type ?di" "file_ok n ?H e di"
      "\<exists>rest. content e di = file_content fs d i @ rest"
  proof (cases "?new < di_size ?di")
    case True
    then have "inode_increase_size fs ?new ?di = sret ?di" by (simp add: inode_increase_size_def)
    then have "runs n ?H (inode_increase_size fs ?new ?di) d ?di d" by simp
    moreover have "\<exists>rest. content d ?di = file_content fs d i @ rest" by (simp add: file_content_def)
    moreover have "di_size ?di = max ?new (di_size ?di)" using True by simp
    ultimately show ?thesis using that touches_self [OF inv i] fs_inv_file(2) [OF inv i hh(3)] by blast
  next
    case False
    then have le: "di_size ?di \<le> ?new" by simp
    have "di_size di = max ?new (di_size ?di)" if "di_size di = ?new" for di using that False by simp
    then show ?thesis using runs_grow_file [OF inv i h le off(2) room [unfolded sz]] that by metis
  qed
  obtain rest where rest: "content e di = file_content fs d i @ rest" using grown(6) by blast
  have o: "off < di_size di" "?new \<le> di_size di" using buf grown(3) by (cases buf; simp)+
  obtain e' where w: "runs n ?H (di_write_at off buf di) e (length buf) e'" "file_ok n ?H e' di"
      "content e' di = splice off buf (content e di)" "blocks_of e' di = blocks_of e di"
      "\<forall>b. b \<notin> set (blocks_of e di) \<longrightarrow> e' b = e b"
    using runs_di_write_at [OF grown(5) _ o] hh(4) by auto
  have "length (file_content fs d i) + length rest = max ?new (di_size ?di)"
    using arg_cong [OF rest, of length] grown(3) by simp
  then have "splice off buf (file_content fs d i @ rest) = splice off buf (file_content fs d i)"
    using off(1) sz by (cases "?new < di_size ?di") (auto simp: splice_def)
  moreover have "touches_file A fs i d di e'"
    using touches_write [OF grown(2) g _ w(4,5)] w(2) by (simp add: file_ok_def)
  ultimately show ?thesis using that [of di e e'] grown(1,4) w(1,3) rest m by simp
qed


section \<open>Releasing\<close>

lemma runs_dealloc_data:
  assumes g: "geometry n A fs" and H: "held_ok fs H" and d: "disk_ok d" and bm: "bm_set (data_bitmap fs) d \<subseteq> {..<A}"
    and b: "b \<in> used_data fs d"
  shows "\<exists>e. runs n H (dealloc_data fs b) d () e \<and> disk_ok e \<and> used_data fs e = used_data fs d - {b} \<and>
    bm_set (data_bitmap fs) e \<subseteq> {..<A} \<and> same_off ({b} \<union> bitmap_area (data_bitmap fs)) d e"
proof -
  let ?db = "data_bitmap fs" and ?s = "data_area_start_block fs"
  obtain k where k: "b = ?s + k" "k \<in> bm_set ?db d" using b by (auto simp: used_data_def)
  note ar = geometry_areas [OF g] and h = held_ok_bm [OF g H]
  have ba: "b \<in> data_area A fs" using k bm by (auto simp: data_area_def)
  have bn: "b < n" "b \<notin> H" "card H < BLOCK_CACHE_SIZE" using ba ar(8) h(3,4) by auto
  let ?d = "d(b := replicate 512 0)"
  have z: "runs n H (zero_block b) d () ?d"
    unfolding zero_block_def using bn disk_ok_length [OF d, of b]
    by (intro runs_cache_modify [where e = d and bs = "replicate 512 0"]) (auto simp: BLOCK_SZ_def map_replicate_const splice_def)
  have dz: "disk_ok ?d" using d by (simp add: disk_ok_def BLOCK_SZ_def)
  have so: "same_off {b} d ?d" by (simp add: same_off_def)
  have bz: "bm_set ?db ?d = bm_set ?db d" using bm_set_same [OF so] ba ar(6) by blast
  have kz: "k \<in> bm_set ?db ?d" and km: "k < bitmap_maximum ?db" using k(2) bz by (auto simp: bm_set_def)
  let ?e = "bm_put ?db False k ?d"
  have r: "runs n H (bitmap_dealloc ?db k) ?d () ?e" by (rule runs_bitmap_dealloc [OF h(1) dz kz])
  have "k < A" using k(2) bm by auto
  then have kk: "(b + 2 ^ 32 - ?s) mod 2 ^ 32 = k" using g k(1) by (simp add: geometry_def)
  have be: "bm_set ?db ?e = bm_set ?db d - {k}" using bm_set_put_ok [OF dz km, of False] bz by simp
  have "runs n H (dealloc_data fs b) d () ?e"
    unfolding dealloc_data_def kk by (rule runs_sbind [OF z]) (rule r)
  moreover have "used_data fs ?e = used_data fs d - {b}"
    unfolding used_data_def be by (subst image_set_diff) (simp_all add: inj_on_def k(1))
  moreover have "same_off ({b} \<union> bitmap_area ?db) d ?e" by (rule same_off_trans [OF so bm_put_same [OF km]]) simp
  moreover have "bm_set ?db ?e \<subseteq> {..<A}" unfolding be using bm by blast
  ultimately show ?thesis using disk_ok_bm_put [OF dz] by blast
qed

lemma runs_dealloc_all:
  assumes g: "geometry n A fs" and H: "held_ok fs H"
    and "disk_ok d" "bm_set (data_bitmap fs) d \<subseteq> {..<A}" "distinct bs" "set bs \<subseteq> used_data fs d"
  shows "\<exists>e. runs n H (sfold (\<lambda>b _. dealloc_data fs b) bs ()) d () e \<and> disk_ok e \<and>
    used_data fs e = used_data fs d - set bs \<and> bm_set (data_bitmap fs) e \<subseteq> {..<A} \<and>
    same_off (set bs \<union> bitmap_area (data_bitmap fs)) d e"
  using assms(3-6)
proof (induction bs arbitrary: d)
  case Nil
  then show ?case by (intro exI [of _ d]) simp
next
  case (Cons b bs)
  have "b \<in> used_data fs d" using Cons.prems(4) by simp
  then obtain e1 where e1: "runs n H (dealloc_data fs b) d () e1" "disk_ok e1" "used_data fs e1 = used_data fs d - {b}"
      "bm_set (data_bitmap fs) e1 \<subseteq> {..<A}" "same_off ({b} \<union> bitmap_area (data_bitmap fs)) d e1"
    using runs_dealloc_data [OF g H Cons.prems(1,2)] by blast
  have pre: "distinct bs" "set bs \<subseteq> used_data fs e1" using Cons.prems(3,4) e1(3) by auto
  obtain e where e: "runs n H (sfold (\<lambda>b _. dealloc_data fs b) bs ()) e1 () e" "disk_ok e"
      "used_data fs e = used_data fs e1 - set bs" "bm_set (data_bitmap fs) e \<subseteq> {..<A}"
      "same_off (set bs \<union> bitmap_area (data_bitmap fs)) e1 e"
    using Cons.IH [OF e1(2,4) pre] by blast
  have "runs n H (sfold (\<lambda>b _. dealloc_data fs b) (b # bs) ()) d () e"
    using runs_sbind [OF e1(1), of "\<lambda>u. sfold (\<lambda>b _. dealloc_data fs b) bs u"] e(1) by simp
  moreover have "same_off (set (b # bs) \<union> bitmap_area (data_bitmap fs)) d e"
    by (rule same_off_trans [OF e1(5) e(5)]) auto
  ultimately show ?case using e(2-4) e1(3) by (intro exI [of _ e]) auto
qed


lemma runs_clear_inode:
  assumes inv: "fs_inv n A fs d" and i: "i \<in> used_inodes fs d"
  shows "\<exists>di e. runs n {inode_block fs i}
      (sbind (clear_size (inode_at fs d i)) (\<lambda>(data_blocks_dealloc, cleared_inode).
       sbind (slift (rassert (length data_blocks_dealloc = total_blocks (di_size (inode_at fs d i))))) (\<lambda>_.
       sbind (sfold (\<lambda>data_block _. dealloc_data fs data_block) data_blocks_dealloc ()) (\<lambda>_.
       sret ((), cleared_inode))))) d ((), di) e \<and>
    touches_file A fs i d di e \<and> di_type di = di_type (inode_at fs d i) \<and> content e di = [] \<and>
    used_data fs e = used_data fs d - set (inode_blocks fs d i)"
proof -
  let ?H = "{inode_block fs i}" and ?di = "inode_at fs d i" and ?B = "inode_blocks fs d i"
  let ?c = "cleared (data_blocks ?di) ?di"
  note f = fs_inv_facts [OF inv] and h = held_block(1) [OF fs_inv_facts(1) [OF inv] used_inodes_bound [OF i]]
  note hh = held_ok_bm [OF f(1) h]
  have ok: "file_ok n ?H d ?di" by (rule fs_inv_file(2) [OF inv i hh(3)])
  have B: "distinct ?B" "set ?B \<subseteq> used_data fs d" "length ?B = total_blocks (di_size ?di)" "set ?B \<subseteq> data_area A fs"
    using inv i ok length_blocks_of fs_inv_file(1) [OF inv i] unfolding fs_inv_def file_ok_def by (auto simp: inode_blocks_def)
  have c: "runs n ?H (clear_size ?di) d (?B, ?c) d" "di_size ?c = 0" "dinode_wf ?c" "di_type ?c = di_type ?di"
    using runs_clear_size_file [OF ok hh(4,5)] by (simp_all add: inode_blocks_def)
  obtain e where e: "runs n ?H (sfold (\<lambda>b _. dealloc_data fs b) ?B ()) d () e" "disk_ok e"
      "used_data fs e = used_data fs d - set ?B" "bm_set (data_bitmap fs) e \<subseteq> {..<A}"
      "same_off (set ?B \<union> bitmap_area (data_bitmap fs)) d e"
    using runs_dealloc_all [OF f(1) h f(2,3) B(1,2)] by blast
  have empty: "blocks_of e ?c = []" "content e ?c = []"
    using c(2) by (simp_all add: blocks_of_def content_def data_blocks_def data_blocks_of_def BLOCK_SZ_def)
  have "\<forall>b \<in> used_data fs d - set ?B. e b = d b"
    using e(5) f(4) geometry_areas(6) [OF f(1)] unfolding same_off_def by blast
  moreover have "same_off (data_area A fs \<union> bitmap_area (data_bitmap fs)) d e"
    by (rule same_off_mono [OF e(5)]) (use B(4) in blast)
  ultimately have "touches_file A fs i d ?c e"
    using e(2-4) c(2,3) empty by (simp add: touches_file_def)
  moreover have "runs n ?H (sbind (clear_size ?di) (\<lambda>(data_blocks_dealloc, cleared_inode).
       sbind (slift (rassert (length data_blocks_dealloc = total_blocks (di_size ?di)))) (\<lambda>_.
       sbind (sfold (\<lambda>data_block _. dealloc_data fs data_block) data_blocks_dealloc ()) (\<lambda>_.
       sret ((), cleared_inode))))) d ((), ?c) e"
    by (rule runs_sbind [OF c(1)]) (auto simp: B(3) rassert_def intro!: runs_sbind [OF runs_slift] runs_sbind [OF e(1)])
  ultimately show ?thesis using e(3) c(4) empty(2) by blast
qed


section \<open>New inodes\<close>

lemma runs_alloc_inode:
  assumes inv: "fs_inv n A fs d" and free: "used_inodes fs d \<noteq> {..<bitmap_maximum (inode_bitmap fs)}"
  obtains i where "i < bitmap_maximum (inode_bitmap fs)" "i \<notin> used_inodes fs d" "\<forall>j < i. j \<in> used_inodes fs d"
    "runs n {} (alloc_inode fs) d i (bm_put (inode_bitmap fs) True i d)"
proof -
  let ?ib = "inode_bitmap fs"
  note f = fs_inv_facts [OF inv]
  have sub: "used_inodes fs d \<subseteq> {..<bitmap_maximum ?ib}" using bm_set_pool by (simp add: used_inodes_def)
  then have "card (used_inodes fs d) < bitmap_maximum ?ib"
    using psubset_card_mono [of "{..<bitmap_maximum ?ib}" "used_inodes fs d"] free by auto
  then obtain i where i: "i < bitmap_maximum ?ib" "i \<notin> used_inodes fs d" "\<forall>j < i. j \<in> used_inodes fs d"
    using least_free [OF sub] by blast
  have ok: "bm_ok n {} ?ib" using geometry_areas(9) [OF f(1)] f(1) by (auto simp: bm_ok_def geometry_def BLOCK_CACHE_SIZE_def)
  have r: "runs n {} (bitmap_alloc ?ib) d (Some i) (bm_put ?ib True i d)"
    using runs_bitmap_alloc_Some [OF ok f(2) i(1)] i(2,3) by (simp add: used_inodes_def)
  have "i < 2 ^ 32" using i(1) f(1) by (simp add: geometry_def)
  then have "runs n {} (alloc_inode fs) d i (bm_put ?ib True i d)"
    unfolding alloc_inode_def
    by (intro runs_sbind [OF r] runs_sbind [where x = i and e = "bm_put ?ib True i d"]) (simp_all add: runwrap_def)
  then show ?thesis using that i by blast
qed

lemma runs_init_inode:
  assumes g: "geometry n A fs" and i: "i < bitmap_maximum (inode_bitmap fs)" and d: "disk_ok d"
  shows "runs n {} (init_disk_inode ty (get_disk_inode_pos fs i)) d () (put_inode fs i (DiskInode_initialize ty (inode_at fs d i)) d)"
proof -
  have "dinode_wf (DiskInode_initialize ty (inode_at fs d i))"
    using dinode_wf_at [OF d, of fs i] by (auto simp: dinode_wf_def DiskInode_initialize_def)
  then show ?thesis
    unfolding init_disk_inode_def disk_inode_pos [OF g i] fst_conv snd_conv DiskInode_size_def using held_block [OF g i]
    by (intro runs_cache_modify [where e = d and bs = "dinode_enc (DiskInode_initialize ty (inode_at fs d i))"])
      (auto simp: put_inode_def inode_at_def BLOCK_CACHE_SIZE_def)
qed

text \<open>The disk after a new inode has been allocated and initialised.\<close>

definition new_inode :: "EasyFileSystem \<Rightarrow> DiskInodeType \<Rightarrow> nat \<Rightarrow> disk \<Rightarrow> disk" where
  "new_inode fs ty i d =
     (let e = bm_put (inode_bitmap fs) True i d in put_inode fs i (DiskInode_initialize ty (inode_at fs e i)) e)"

lemma initialize_wf: "dinode_wf di \<Longrightarrow> dinode_wf (DiskInode_initialize ty di)"
  by (auto simp: dinode_wf_def DiskInode_initialize_def)

lemma new_inode_same:
  assumes g: "geometry n A fs" and i: "i < bitmap_maximum (inode_bitmap fs)"
  shows "same_off (bitmap_area (inode_bitmap fs) \<union> inode_area fs) d (new_inode fs ty i d)"
  unfolding new_inode_def Let_def
  by (rule same_off_trans [OF bm_put_same [OF i] put_inode_same]) (use inode_block_area [OF i] in auto)

lemma new_inode_at:
  assumes g: "geometry n A fs" and i: "i < bitmap_maximum (inode_bitmap fs)" and d: "disk_ok d"
  shows "disk_ok (new_inode fs ty i d)" "used_inodes fs (new_inode fs ty i d) = insert i (used_inodes fs d)"
    "di_size (inode_at fs (new_inode fs ty i d) i) = 0" "di_type (inode_at fs (new_inode fs ty i d) i) = discriminant ty"
    "j < bitmap_maximum (inode_bitmap fs) \<Longrightarrow> j \<noteq> i \<Longrightarrow> inode_at fs (new_inode fs ty i d) j = inode_at fs d j"
proof -
  let ?ib = "inode_bitmap fs" and ?e = "bm_put (inode_bitmap fs) True i d"
  note ar = geometry_areas [OF g]
  have e: "disk_ok ?e" by (rule disk_ok_bm_put [OF d])
  note wf = initialize_wf [OF dinode_wf_at [OF e], of ty fs i]
  show "disk_ok (new_inode fs ty i d)" unfolding new_inode_def Let_def by (rule disk_ok_put [OF e wf])
  have "bm_set ?ib (new_inode fs ty i d) = bm_set ?ib ?e"
    unfolding new_inode_def Let_def using bm_set_same [OF put_inode_same] inode_block_area [OF i] ar(1) by blast
  then show "used_inodes fs (new_inode fs ty i d) = insert i (used_inodes fs d)"
    using bm_set_put_ok [OF d i, of True] by (simp add: used_inodes_def)
  show "di_size (inode_at fs (new_inode fs ty i d) i) = 0" "di_type (inode_at fs (new_inode fs ty i d) i) = discriminant ty"
    unfolding new_inode_def Let_def inode_at_put [OF e wf] by (simp_all add: DiskInode_initialize_def)
  assume j: "j < bitmap_maximum ?ib" "j \<noteq> i"
  have "inode_at fs ?e j = inode_at fs d j" by (rule inode_at_same [OF bm_put_same [OF i] ar(1) j(1)])
  then show "inode_at fs (new_inode fs ty i d) j = inode_at fs d j"
    unfolding new_inode_def Let_def inode_at_put [OF e wf] using j(2) by simp
qed


lemma new_inode_files:
  assumes inv: "fs_inv n A fs d" and i: "i < bitmap_maximum (inode_bitmap fs)" "i \<notin> used_inodes fs d"
  shows "used_data fs (new_inode fs ty i d) = used_data fs d" "bm_set (data_bitmap fs) (new_inode fs ty i d) = bm_set (data_bitmap fs) d"
    "inode_blocks fs (new_inode fs ty i d) i = []" "file_content fs (new_inode fs ty i d) i = []"
    "j \<in> used_inodes fs d \<Longrightarrow> inode_blocks fs (new_inode fs ty i d) j = inode_blocks fs d j"
    "j \<in> used_inodes fs d \<Longrightarrow> file_content fs (new_inode fs ty i d) j = file_content fs d j"
proof -
  let ?d = "new_inode fs ty i d"
  note f = fs_inv_facts [OF inv] and ar = geometry_areas [OF f(1)]
  note at = new_inode_at [OF f(1) i(1) f(2), where ty = ty] and so = new_inode_same [OF f(1) i(1), where ty = ty and d = d]
  have "(bitmap_area (inode_bitmap fs) \<union> inode_area fs) \<inter> bitmap_area (data_bitmap fs) = {}" using ar(2,4) by blast
  then show bm: "bm_set (data_bitmap fs) ?d = bm_set (data_bitmap fs) d" by (rule bm_set_same [OF so])
  then show "used_data fs ?d = used_data fs d" by (simp add: used_data_def)
  show "inode_blocks fs ?d i = []" "file_content fs ?d i = []"
    using at(3) by (simp_all add: inode_blocks_def file_content_def blocks_of_def content_def data_blocks_def data_blocks_of_def BLOCK_SZ_def)
  assume j: "j \<in> used_inodes fs d"
  then have ji: "j \<noteq> i" "di_size (inode_at fs d j) \<le> MAX_FILE_SIZE" using i(2) inv by (auto simp: fs_inv_def)
  have "\<forall>b \<in> set (inode_blocks fs d j). ?d b = d b"
    using fs_inv_file(1) [OF inv j] so ar(3,5) unfolding same_off_def by blast
  then show "inode_blocks fs ?d j = inode_blocks fs d j" "file_content fs ?d j = file_content fs d j"
    using file_same [of fs ?d j d] at(5) [OF used_inodes_bound [OF j] ji(1)] ji(2) by simp_all
qed

lemma fs_inv_new_inode:
  assumes inv: "fs_inv n A fs d" and i: "i < bitmap_maximum (inode_bitmap fs)" "i \<notin> used_inodes fs d"
  shows "fs_inv n A fs (new_inode fs ty i d)"
proof -
  let ?d = "new_inode fs ty i d"
  note f = fs_inv_facts [OF inv] and at = new_inode_at [OF fs_inv_facts(1) [OF inv] i(1) fs_inv_facts(2) [OF inv], where ty = ty]
  note nf = new_inode_files [OF inv i, where ty = ty]
  have old: "di_size (inode_at fs d j) \<le> MAX_FILE_SIZE" "distinct (inode_blocks fs d j)" if "j \<in> used_inodes fs d" for j
    using inv that by (simp_all add: fs_inv_def)
  have blk: "inode_blocks fs ?d j = (if j = i then [] else inode_blocks fs d j)" if "j \<in> insert i (used_inodes fs d)" for j
    using nf(3,5) that by (cases "j = i") auto
  show ?thesis
    unfolding fs_inv_def at(2) nf(1,2)
  proof (intro conjI ballI impI)
    show "geometry n A fs" "disk_ok ?d" "bm_set (data_bitmap fs) d \<subseteq> {..<A}" using f at(1) by simp_all
  next
    fix j assume j: "j \<in> insert i (used_inodes fs d)"
    show "di_size (inode_at fs ?d j) \<le> MAX_FILE_SIZE"
      using j at(3) at(5) [OF used_inodes_bound, of j d] old(1) [of j] by (cases "j = i") auto
    show "distinct (inode_blocks fs ?d j)" using j blk [OF j] old(2) [of j] by auto
    fix k assume k: "k \<in> insert i (used_inodes fs d)" "j \<noteq> k"
    have "set (inode_blocks fs d j) \<inter> set (inode_blocks fs d k) = {}" if "j \<noteq> i" "k \<noteq> i"
      using inv j k that by (simp add: fs_inv_def)
    then show "set (inode_blocks fs ?d j) \<inter> set (inode_blocks fs ?d k) = {}"
      unfolding blk [OF j] blk [OF k(1)] by auto
  next
    have "(\<Union>j \<in> insert i (used_inodes fs d). set (inode_blocks fs ?d j)) = (\<Union>j \<in> used_inodes fs d. set (inode_blocks fs d j))"
      using nf(3,5) by simp
    then show "used_data fs d = (\<Union>j \<in> insert i (used_inodes fs d). set (inode_blocks fs ?d j))"
      using inv by (simp add: fs_inv_def)
  qed
qed


lemma new_inode_super:
  assumes g: "geometry n A fs" and i: "i < bitmap_maximum (inode_bitmap fs)"
  shows "new_inode fs ty i d 0 = d 0"
  using new_inode_same [OF g i, of d ty] geometry_super [OF g] by (simp add: same_off_def)

section \<open>Counting blocks\<close>

lemma card_used_data_sum:
  assumes inv: "fs_inv n A fs d"
  shows "card (used_data fs d) = (\<Sum>i \<in> used_inodes fs d. total_blocks (length (file_content fs d i)))"
proof -
  have fin: "finite (used_inodes fs d)" using bm_set_pool [of "inode_bitmap fs" d] finite_subset by (auto simp: used_inodes_def)
  have "card (used_data fs d) = card (\<Union>i \<in> used_inodes fs d. set (inode_blocks fs d i))" using inv by (simp add: fs_inv_def)
  also have "\<dots> = (\<Sum>i \<in> used_inodes fs d. card (set (inode_blocks fs d i)))"
    using fin inv by (intro card_UN_disjoint) (simp_all add: fs_inv_def)
  also have "\<dots> = (\<Sum>i \<in> used_inodes fs d. total_blocks (length (file_content fs d i)))"
  proof (rule sum.cong [OF refl])
    fix i assume i: "i \<in> used_inodes fs d"
    then have ok: "distinct (inode_blocks fs d i)" "di_size (inode_at fs d i) \<le> MAX_FILE_SIZE" using inv by (simp_all add: fs_inv_def)
    show "card (set (inode_blocks fs d i)) = total_blocks (length (file_content fs d i))"
      using distinct_card [OF ok(1)] length_blocks_of [OF ok(2)] by (simp add: inode_blocks_def file_content_def)
  qed
  finally show ?thesis .
qed

end
