(* ===== verification/Directory.thy ===== *)
theory Directory
  imports File_System
begin

text \<open>
  The root directory and the file system as a map. The contents of the root inode are a list of
  entries of 32 bytes; \<open>find\<close> searches it, \<open>ls\<close> lists it, \<open>create\<close> appends to it. Under the
  invariant \<open>efs_inv\<close> the file system denotes a finite map from names to byte strings, and the
  operations of \<open>easy-fs/src/vfs.rs\<close> act on this map.
\<close>

section \<open>Entries\<close>

definition dir_entries :: "u8 list \<Rightarrow> DirEntry list" where
  "dir_entries bs = map (\<lambda>k. dirent_of_bytes (slice (32 * k) 32 bs)) [0..<length bs div 32]"

definition entry_name :: "DirEntry \<Rightarrow> u8 list" where
  "entry_name e = (case dirent_name e of Inl _ \<Rightarrow> [] | Inr nm \<Rightarrow> nm)"

definition dir_list :: "u8 list \<Rightarrow> (u8 list \<times> nat) list" where
  "dir_list bs = map (\<lambda>e. (entry_name e, de_inode_number e)) (dir_entries bs)"

definition dir_wf :: "u8 list \<Rightarrow> bool" where
  "dir_wf bs \<longleftrightarrow> length bs mod 32 = 0 \<and> (\<forall>e \<in> set (dir_entries bs). \<exists>nm. dirent_name e = Inr nm)"

lemma DirEntry_empty_wf: "dirent_wf DirEntry_empty"
  by (simp add: DirEntry_empty_def dirent_wf_def)

lemma dirent_name_entry: "dir_wf bs \<Longrightarrow> e \<in> set (dir_entries bs) \<Longrightarrow> dirent_name e = Inr (entry_name e)"
  by (auto simp: dir_wf_def entry_name_def)

lemma nth_dir_entries: "k < length bs div 32 \<Longrightarrow> dir_entries bs ! k = dirent_of_bytes (slice (32 * k) 32 bs)"
  by (simp add: dir_entries_def)

lemma entry_bytes:
  assumes "k < length bs div 32"
  shows "length (slice (32 * k) 32 bs) = 32" "32 * k + 32 \<le> length bs"
  using assms by auto

lemma dir_entries_append:
  assumes "length bs mod 32 = 0" and "length x = 32"
  shows "dir_entries (bs @ x) = dir_entries bs @ [dirent_of_bytes x]"
proof -
  obtain m where m: "length bs = 32 * m" using assms(1) by auto
  have "slice (32 * k) 32 (bs @ x) = slice (32 * k) 32 bs" if "k < m" for k
    using that m by (simp add: slice_def)
  moreover have "slice (32 * m) 32 (bs @ x) = x" using m assms(2) by (simp add: slice_def)
  ultimately show ?thesis using m assms(2) by (simp add: dir_entries_def)
qed

lemma dir_list_append:
  assumes "dir_wf bs" and "length x = 32" and "dirent_name (dirent_of_bytes x) = Inr nm"
  shows "dir_wf (bs @ x)" "dir_list (bs @ x) = dir_list bs @ [(nm, de_inode_number (dirent_of_bytes x))]"
  using assms dir_entries_append [of bs x] by (auto simp: dir_wf_def dir_list_def entry_name_def mod_add_left_eq [symmetric])

section \<open>Searching\<close>

lemma runs_read_dirent:
  assumes ok: "file_ok n H d di" and H: "card H < BLOCK_CACHE_SIZE" and k: "k < di_size di div 32" and e: "dirent_wf e"
  shows "runs n H (read_dirent k e di) d (dir_entries (content d di) ! k) d"
proof -
  have le: "32 * k + 32 \<le> di_size di" using k by auto
  have sz: "di_size di \<le> MAX_FILE_SIZE" using ok by (simp add: file_ok_def)
  have buf: "32 * k + length (dirent_as_bytes e) < 2 ^ 64" using e le sz by (simp add: MAX_FILE_SIZE_def)
  have c: "min (length (dirent_as_bytes e)) (di_size di - 32 * k) = 32" using e le by simp
  have s: "splice 0 (slice (32 * k) 32 (content d di)) (dirent_as_bytes e) = slice (32 * k) 32 (content d di)"
    using e le by (simp add: splice_def)
  have "runs n H (di_read_at (32 * k) (dirent_as_bytes e) di) d (32, slice (32 * k) 32 (content d di)) d"
    using runs_di_read_at [OF ok H buf] unfolding c s .
  then show ?thesis
    unfolding read_dirent_def DIRENT_SZ_def using k
    by (auto intro!: runs_sbind [where x = "(32, slice (32 * k) 32 (content d di))" and e = d] runs_sbind [OF runs_slift]
        simp: rassert_def nth_dir_entries)
qed

lemma runs_find_loop:
  assumes ok: "file_ok n H d di" and H: "card H < BLOCK_CACHE_SIZE" and wf: "dir_wf (content d di)"
    and "k \<le> di_size di div 32" "dirent_wf e"
  shows "runs n H (find_loop name di [k..<di_size di div 32] e) d (map_of (drop k (dir_list (content d di))) name) d"
  using assms(4,5)
proof (induction "di_size di div 32 - k" arbitrary: k e)
  case 0
  then have "k = di_size di div 32" by simp
  then show ?case by (simp add: dir_list_def dir_entries_def)
next
  case (Suc m)
  let ?L = "dir_list (content d di)" and ?e = "dir_entries (content d di) ! k"
  have k: "k < di_size di div 32" using Suc.hyps(2) by simp
  then have kl: "k < length (dir_entries (content d di))" by (simp add: dir_entries_def)
  have wfe: "dirent_wf ?e" using k entry_bytes(1) [of k "content d di"] by (simp add: nth_dir_entries)
  have nm: "dirent_name ?e = Inr (entry_name ?e)" by (rule dirent_name_entry [OF wf nth_mem [OF kl]])
  have dr: "drop k ?L = (entry_name ?e, de_inode_number ?e) # drop (Suc k) ?L"
    using kl by (simp add: dir_list_def Cons_nth_drop_Suc [symmetric])
  have IH: "runs n H (find_loop name di [Suc k..<di_size di div 32] ?e) d (map_of (drop (Suc k) ?L) name) d"
    using Suc.hyps(1) [of "Suc k" ?e] Suc.hyps(2) k wfe by simp
  have up: "[k..<di_size di div 32] = k # [Suc k..<di_size di div 32]" using k by (rule upt_conv_Cons)
  show ?case
    unfolding up find_loop.simps
  proof (rule runs_sbind [OF runs_read_dirent [OF ok H k Suc.prems(2)]], rule runs_sbind [where x = "entry_name ?e" and e = d])
    show "runs n H (slift (dirent_name ?e)) d (entry_name ?e) d" unfolding nm by (rule runs_slift)
    show "runs n H (if entry_name ?e = name then sret (Some (de_inode_number ?e)) else find_loop name di [Suc k..<di_size di div 32] ?e)
        d (map_of (drop k ?L) name) d" using IH by (simp add: dr)
  qed
qed

lemma runs_find_inode_id:
  assumes "file_ok n H d di" and "card H < BLOCK_CACHE_SIZE" and "dir_wf (content d di)" and "is_dir di"
  shows "runs n H (find_inode_id name di) d (map_of (dir_list (content d di)) name) d"
  using runs_find_loop [OF assms(1-3), of 0 DirEntry_empty name] DirEntry_empty_wf assms(4)
  by (auto simp: find_inode_id_def Let_def rassert_def intro!: runs_sbind [OF runs_slift])


section \<open>The invariant with the directory\<close>

abbreviation root_dir :: "EasyFileSystem \<Rightarrow> disk \<Rightarrow> (u8 list \<times> nat) list" where
  "root_dir fs d \<equiv> dir_list (file_content fs d 0)"

definition efs_inv :: "nat \<Rightarrow> nat \<Rightarrow> EasyFileSystem \<Rightarrow> disk \<Rightarrow> bool" where
  "efs_inv n A fs d \<longleftrightarrow> fs_inv n A fs d \<and> 0 \<in> used_inodes fs d \<and> is_dir (inode_at fs d 0) \<and>
     dir_wf (file_content fs d 0) \<and> distinct (map fst (root_dir fs d)) \<and> distinct (map snd (root_dir fs d)) \<and>
     0 \<notin> snd ` set (root_dir fs d) \<and> snd ` set (root_dir fs d) \<subseteq> used_inodes fs d"

text \<open>What the file system denotes: the contents of each name.\<close>

definition fs_map :: "EasyFileSystem \<Rightarrow> disk \<Rightarrow> u8 list \<Rightarrow> u8 list option" where
  "fs_map fs d name = map_option (file_content fs d) (map_of (root_dir fs d) name)"

lemma efs_inv_facts:
  assumes "efs_inv n A fs d"
  shows "fs_inv n A fs d" "0 \<in> used_inodes fs d" "is_dir (inode_at fs d 0)" "dir_wf (file_content fs d 0)"
    "distinct (map fst (root_dir fs d))" "distinct (map snd (root_dir fs d))" "geometry n A fs"
proof -
  show inv: "fs_inv n A fs d" using assms by (simp add: efs_inv_def)
  show "geometry n A fs" by (rule fs_inv_facts(1) [OF inv])
qed (use assms in \<open>simp_all add: efs_inv_def\<close>)

lemma efs_inv_entry:
  assumes "efs_inv n A fs d" and "map_of (root_dir fs d) name = Some i"
  shows "i \<in> used_inodes fs d" "i \<noteq> 0" "i < bitmap_maximum (inode_bitmap fs)"
proof -
  have m: "i \<in> snd ` set (root_dir fs d)" using map_of_SomeD [OF assms(2)] by force
  have z: "0 \<notin> snd ` set (root_dir fs d)" "snd ` set (root_dir fs d) \<subseteq> used_inodes fs d" using assms(1) by (simp_all add: efs_inv_def)
  show i: "i \<in> used_inodes fs d" using m z(2) by blast
  show "i \<noteq> 0" using m z(1) by metis
  show "i < bitmap_maximum (inode_bitmap fs)" by (rule used_inodes_bound [OF i])
qed

lemma inode_ref_pos:
  "geometry n A fs \<Longrightarrow> i < bitmap_maximum (inode_bitmap fs) \<Longrightarrow>
   (let (block_id, block_offset) = get_disk_inode_pos fs i in Inode_new block_id block_offset fs) = inode_ref fs i"
  by (simp add: disk_inode_pos inode_ref_def)

lemma root_held:
  assumes "efs_inv n A fs d"
  shows "held_ok fs {inode_block fs 0}" "file_ok n {inode_block fs 0} d (inode_at fs d 0)"
    "card {inode_block fs 0} < BLOCK_CACHE_SIZE" "0 < bitmap_maximum (inode_bitmap fs)"
proof -
  note e = efs_inv_facts [OF assms]
  show b: "0 < bitmap_maximum (inode_bitmap fs)" by (rule used_inodes_bound [OF e(2)])
  show h: "held_ok fs {inode_block fs 0}" by (rule held_block(1) [OF e(7) b])
  show "file_ok n {inode_block fs 0} d (inode_at fs d 0)"
    by (rule fs_inv_file(2) [OF e(1,2) held_ok_bm(3) [OF e(7) h]])
qed (simp add: BLOCK_CACHE_SIZE_def)

lemma runs_root_find:
  assumes inv: "efs_inv n A fs d"
  shows "runs n {inode_block fs 0} (find_inode_id name (inode_at fs d 0)) d (map_of (root_dir fs d) name) d"
  using runs_find_inode_id [OF root_held(2,3) [OF inv]] efs_inv_facts(3,4) [OF inv] by (simp add: file_content_def)

lemma runs_inode_find:
  assumes inv: "efs_inv n A fs d"
  shows "runs n {} (inode_find (inode_ref fs 0) name) d (map_option (inode_ref fs) (map_of (root_dir fs d) name)) d"
proof -
  note e = efs_inv_facts [OF inv] and r = root_held [OF inv]
  have "map_option (\<lambda>inode_id. let (block_id, block_offset) = get_disk_inode_pos fs inode_id in Inode_new block_id block_offset fs)
      (map_of (root_dir fs d) name) = map_option (inode_ref fs) (map_of (root_dir fs d) name)"
    using inode_ref_pos [OF e(7)] efs_inv_entry(3) [OF inv] by (intro option.map_cong refl) auto
  then have "runs n {inode_block fs 0} (sbind (find_inode_id name (inode_at fs d 0)) (\<lambda>r.
       sret (map_option (\<lambda>inode_id. let (block_id, block_offset) = get_disk_inode_pos fs inode_id
         in Inode_new block_id block_offset fs) r))) d (map_option (inode_ref fs) (map_of (root_dir fs d) name)) d"
    by (intro runs_sbind [OF runs_root_find [OF inv]]) simp
  then show ?thesis
    unfolding inode_find_def by (intro runs_read_inode [OF e(7) r(4)]) (simp add: inode_ref_def Inode_new_def)
qed

lemma runs_ls_loop:
  assumes ok: "file_ok n H d di" and H: "card H < BLOCK_CACHE_SIZE" and wf: "dir_wf (content d di)"
    and "set ks \<subseteq> {..<di_size di div 32}"
  shows "runs n H (sfold (\<lambda>i v. sbind (read_dirent i DirEntry_empty di) (\<lambda>dirent.
      sbind (slift (dirent_name dirent)) (\<lambda>name. sret (vec_push v name)))) ks v) d
    (v @ map (\<lambda>k. entry_name (dir_entries (content d di) ! k)) ks) d"
  using assms(4)
proof (induction ks arbitrary: v)
  case (Cons k ks)
  let ?e = "dir_entries (content d di) ! k"
  have k: "k < di_size di div 32" using Cons.prems by simp
  then have "k < length (dir_entries (content d di))" by (simp add: dir_entries_def)
  then have nm: "dirent_name ?e = Inr (entry_name ?e)" by (rule dirent_name_entry [OF wf nth_mem])
  have one: "runs n H (sbind (read_dirent k DirEntry_empty di) (\<lambda>dirent.
      sbind (slift (dirent_name dirent)) (\<lambda>name. sret (vec_push v name)))) d (v @ [entry_name ?e]) d"
    using nm by (intro runs_sbind [OF runs_read_dirent [OF ok H k DirEntry_empty_wf]]) (auto intro!: runs_sbind [OF runs_slift] simp: vec_push_def)
  show ?case using runs_sbind [OF one] Cons.IH [of "v @ [entry_name ?e]"] Cons.prems by simp
qed simp

lemma runs_inode_ls:
  assumes inv: "efs_inv n A fs d"
  shows "runs n {} (inode_ls (inode_ref fs 0)) d (map fst (root_dir fs d)) d"
proof -
  note e = efs_inv_facts [OF inv] and r = root_held [OF inv]
  let ?di = "inode_at fs d 0"
  have L: "map fst (root_dir fs d) = [] @ map (\<lambda>k. entry_name (dir_entries (content d ?di) ! k)) [0..<di_size ?di div 32]"
    by (intro nth_equalityI) (simp_all add: dir_list_def dir_entries_def file_content_def)
  show ?thesis
    unfolding inode_ls_def DIRENT_SZ_def Let_def L
    by (intro runs_read_inode [OF e(7) r(4)] runs_ls_loop [OF r(2,3)]) (use e(4) in \<open>auto simp: file_content_def\<close>)
qed


section \<open>Operations on a named file\<close>

lemma map_of_inj:
  assumes "distinct (map snd L)" and "map_of L a = Some i" and "map_of L b = Some i"
  shows "a = b"
  using assms by (metis distinct_map inj_onD map_of_SomeD prod.inject snd_conv)

lemma fs_map_update:
  assumes inv: "efs_inv n A fs d" and nm: "map_of (root_dir fs d) name = Some i" and u: "file_updated n A fs i d c d'"
  shows "efs_inv n A fs d'" "fs_map fs d' = (fs_map fs d)(name \<mapsto> c)" "root_dir fs d' = root_dir fs d"
proof -
  note e = efs_inv_facts [OF inv] and en = efs_inv_entry [OF inv nm]
  have u': "fs_inv n A fs d'" "used_inodes fs d' = used_inodes fs d" "file_content fs d' i = c"
    "\<forall>j \<in> used_inodes fs d. j \<noteq> i \<longrightarrow> inode_at fs d' j = inode_at fs d j \<and> file_content fs d' j = file_content fs d j"
    using u by (simp_all add: file_updated_def)
  have root: "inode_at fs d' 0 = inode_at fs d 0" "file_content fs d' 0 = file_content fs d 0" using u'(4) e(2) en(2) by auto
  then show "root_dir fs d' = root_dir fs d" by simp
  show "efs_inv n A fs d'" using inv u'(1,2) root by (simp add: efs_inv_def)
  show "fs_map fs d' = (fs_map fs d)(name \<mapsto> c)"
  proof
    fix a
    show "fs_map fs d' a = ((fs_map fs d)(name \<mapsto> c)) a"
    proof (cases "map_of (root_dir fs d) a")
      case None
      then show ?thesis using nm by (auto simp: fs_map_def root(2))
    next
      case (Some j)
      show ?thesis
      proof (cases "a = name")
        case True
        then show ?thesis using nm u'(3) by (simp add: fs_map_def root(2))
      next
        case False
        then have "j \<noteq> i" using map_of_inj [OF e(6) Some] nm by blast
        then show ?thesis using False Some u'(4) efs_inv_entry(1) [OF inv Some] by (simp add: fs_map_def root(2))
      qed
    qed
  qed
qed

lemma fs_map_Some:
  assumes "fs_map fs d name = Some c"
  obtains i where "map_of (root_dir fs d) name = Some i" "file_content fs d i = c"
  using assms by (auto simp: fs_map_def)

lemma runs_inode_write_at:
  assumes inv: "fs_inv n A fs d" and i: "i \<in> used_inodes fs d" and buf: "buf \<noteq> []"
    and off: "off \<le> length (file_content fs d i)" "off + length buf \<le> MAX_FILE_SIZE"
    and room: "total_blocks (off + length buf) - total_blocks (length (file_content fs d i)) \<le> free_data A fs d"
  shows "\<exists>d'. runs n {} (inode_write_at (inode_ref fs i) off buf) d (length buf) d' \<and>
    file_updated n A fs i d (splice off buf (file_content fs d i)) d'"
proof -
  let ?f = "\<lambda>disk_inode. sbind (inode_increase_size fs ((off + length buf) mod 2 ^ 32) disk_inode) (\<lambda>disk_inode.
    sbind (di_write_at off buf disk_inode) (\<lambda>written_size. sret (written_size, disk_inode)))"
  obtain di e e' where w: "runs n {inode_block fs i} (inode_increase_size fs ((off + length buf) mod 2 ^ 32) (inode_at fs d i)) d di e"
      "runs n {inode_block fs i} (di_write_at off buf di) e (length buf) e'"
      "touches_file A fs i d di e'" "di_type di = di_type (inode_at fs d i)"
      "content e' di = splice off buf (file_content fs d i)"
    by (rule runs_write_inode [OF inv i buf off room])
  have r: "runs n {inode_block fs i} (?f (inode_at fs d i)) d (length buf, di) e'"
    by (rule runs_sbind [OF w(1)], rule runs_sbind [OF w(2)]) simp
  note op = runs_file_op [where f = ?f, OF inv i r w(3,4), unfolded w(5)]
  have "runs n {} (inode_write_at (inode_ref fs i) off buf) d (length buf) (put_inode fs i di e')"
    unfolding inode_write_at_def
    by (rule runs_sbind [where x = "length buf" and e = "put_inode fs i di e'"])
      (use op(1) runs_sync_all in \<open>auto simp: inode_ref_def Inode_new_def intro: runs_sbind\<close>)
  then show ?thesis using op(2) by blast
qed

lemma runs_inode_clear:
  assumes inv: "fs_inv n A fs d" and i: "i \<in> used_inodes fs d"
  shows "\<exists>d'. runs n {} (inode_clear (inode_ref fs i)) d () d' \<and> file_updated n A fs i d [] d' \<and>
    used_data fs d' = used_data fs d - set (inode_blocks fs d i)"
proof -
  let ?f = "\<lambda>disk_inode. sbind (clear_size disk_inode) (\<lambda>(data_blocks_dealloc, cleared_inode).
     sbind (slift (rassert (length data_blocks_dealloc = total_blocks (di_size disk_inode)))) (\<lambda>_.
     sbind (sfold (\<lambda>data_block _. dealloc_data fs data_block) data_blocks_dealloc ()) (\<lambda>_.
     sret ((), cleared_inode))))"
  obtain di e where r: "runs n {inode_block fs i} (?f (inode_at fs d i)) d ((), di) e" and t: "touches_file A fs i d di e"
      "di_type di = di_type (inode_at fs d i)" "content e di = []" and u: "used_data fs e = used_data fs d - set (inode_blocks fs d i)"
    using runs_clear_inode [OF inv i] by blast
  note op = runs_file_op [where f = ?f, OF inv i r t(1,2), unfolded t(3)]
  have "runs n {} (inode_clear (inode_ref fs i)) d () (put_inode fs i di e)"
    unfolding inode_clear_def
    by (rule runs_sbind [where x = "()" and e = "put_inode fs i di e"])
      (use op(1) runs_sync_all in \<open>auto simp: inode_ref_def Inode_new_def\<close>)
  moreover have "used_data fs (put_inode fs i di e) = used_data fs d - set (inode_blocks fs d i)"
    using put_touched(2) [OF inv i t(1)] u by simp
  ultimately show ?thesis using op(2) by blast
qed

lemma runs_inode_read_at:
  assumes inv: "fs_inv n A fs d" and i: "i \<in> used_inodes fs d" and buf: "off + length buf < 2 ^ 64"
  defines "c \<equiv> min (length buf) (length (file_content fs d i) - off)"
  shows "runs n {} (inode_read_at (inode_ref fs i) off buf) d (c, splice 0 (slice off c (file_content fs d i)) buf) d"
proof -
  note g = fs_inv_facts(1) [OF inv] and b = used_inodes_bound [OF i]
  note h = held_block(1) [OF g b]
  have "file_ok n {inode_block fs i} d (inode_at fs d i)" by (rule fs_inv_file(2) [OF inv i held_ok_bm(3) [OF g h]])
  then show ?thesis
    unfolding inode_read_at_def c_def file_content_def length_content
    by (intro runs_read_inode [OF g b] runs_di_read_at buf) (simp_all add: BLOCK_CACHE_SIZE_def)
qed


section \<open>Creating a file\<close>

definition name_ok :: "u8 list \<Rightarrow> bool" where
  "name_ok name \<longleftrightarrow> length name \<le> NAME_LENGTH_LIMIT \<and> 0 \<notin> set name \<and> utf8_valid name"

lemma new_entry:
  assumes "name_ok name" and "i < 2 ^ 32"
  obtains e where "DirEntry_new name i = Inr e" "length (dirent_as_bytes e) = 32"
    "dirent_name (dirent_of_bytes (dirent_as_bytes e)) = Inr name" "de_inode_number (dirent_of_bytes (dirent_as_bytes e)) = i"
proof -
  have nm: "length name \<le> 28" "0 \<notin> set name" "utf8_valid name" "length name < 28"
    using assms(1) by (simp_all add: name_ok_def)
  obtain e where e: "DirEntry_new name i = Inr e" "dirent_wf e" "de_name e = name @ replicate (28 - length name) 0"
      "de_inode_number e = i" using DirEntry_new_ok [OF nm(1) assms(2)] by blast
  moreover have "dirent_name e = Inr name" using dirent_name_padded [OF nm(2,3) e(3)] nm(4) by simp
  ultimately show ?thesis using that [of e] by simp
qed

text \<open>Appending an entry to the root directory.\<close>

lemma runs_append_entry:
  assumes inv: "fs_inv n A fs d" and root: "0 \<in> used_inodes fs d" and wf: "length (file_content fs d 0) mod 32 = 0"
    and e: "DirEntry_new name i = Inr e" "length (dirent_as_bytes e) = 32"
    and sz: "length (file_content fs d 0) + 32 \<le> MAX_FILE_SIZE"
    and room: "total_blocks (length (file_content fs d 0) + 32) - total_blocks (length (file_content fs d 0)) \<le> free_data A fs d"
  shows "\<exists>d'. runs n {} (modify_disk_inode (inode_ref fs 0) (\<lambda>root_inode.
      let file_count = di_size root_inode div DIRENT_SZ;
          new_size = (file_count + 1) * DIRENT_SZ
      in sbind (inode_increase_size fs (new_size mod 2 ^ 32) root_inode) (\<lambda>root_inode.
         sbind (slift (DirEntry_new name i)) (\<lambda>dirent.
         sbind (di_write_at (file_count * DIRENT_SZ) (dirent_as_bytes dirent) root_inode) (\<lambda>_.
         sret ((), root_inode)))))) d () d' \<and>
    file_updated n A fs 0 d (file_content fs d 0 @ dirent_as_bytes e) d'"
    (is "\<exists>d'. runs n {} (modify_disk_inode _ ?f) d () d' \<and> _")
proof -
  let ?c = "file_content fs d 0" and ?x = "dirent_as_bytes e"
  have x: "?x \<noteq> []" using e(2) by auto
  have szx: "length ?c + length ?x \<le> MAX_FILE_SIZE" "total_blocks (length ?c + length ?x) - total_blocks (length ?c) \<le> free_data A fs d"
    using sz room e(2) by simp_all
  obtain di e1 e2 where w: "runs n {inode_block fs 0} (inode_increase_size fs ((length ?c + length ?x) mod 2 ^ 32) (inode_at fs d 0)) d di e1"
      "runs n {inode_block fs 0} (di_write_at (length ?c) ?x di) e1 (length ?x) e2"
      "touches_file A fs 0 d di e2" "di_type di = di_type (inode_at fs d 0)" "content e2 di = splice (length ?c) ?x ?c"
    by (rule runs_write_inode [OF inv root x order_refl szx])
  have len: "length ?c = di_size (inode_at fs d 0)" by (simp add: file_content_def)
  then have m: "di_size (inode_at fs d 0) div DIRENT_SZ * DIRENT_SZ = length ?c" using wf div_mult_mod_eq [of "length ?c" 32] by simp
  then have m': "(di_size (inode_at fs d 0) div DIRENT_SZ + 1) * DIRENT_SZ = length ?c + length ?x" using e(2) by simp
  have r: "runs n {inode_block fs 0} (?f (inode_at fs d 0)) d ((), di) e2"
    unfolding Let_def m m'
    by (rule runs_sbind [OF w(1)], unfold e(1), rule runs_sbind [OF runs_slift], rule runs_sbind [OF w(2)]) simp
  have "content e2 di = ?c @ ?x" using w(5) by (simp add: splice_def)
  then show ?thesis using runs_file_op [where f = ?f, OF inv root r w(3,4)] by auto
qed

lemma runs_create_check:
  assumes inv: "efs_inv n A fs d"
  shows "runs n {} (read_disk_inode (inode_ref fs 0) (\<lambda>root_inode.
      sbind (slift (rassert (is_dir root_inode))) (\<lambda>_. find_inode_id name root_inode))) d (map_of (root_dir fs d) name) d"
  using efs_inv_facts [OF inv] root_held [OF inv] runs_root_find [OF inv]
  by (intro runs_read_inode) (auto simp: rassert_def intro!: runs_sbind [OF runs_slift])

text \<open>What \<open>create\<close> leaves behind: a new empty file and one more entry.\<close>

definition created :: "nat \<Rightarrow> nat \<Rightarrow> EasyFileSystem \<Rightarrow> u8 list \<Rightarrow> nat \<Rightarrow> disk \<Rightarrow> disk \<Rightarrow> bool" where
  "created n A fs name i d d' \<longleftrightarrow>
     i \<notin> used_inodes fs d \<and> used_inodes fs d' = insert i (used_inodes fs d) \<and> file_content fs d' i = [] \<and>
     is_file (inode_at fs d' i) \<and> d' 0 = d 0 \<and> root_dir fs d' = root_dir fs d @ [(name, i)] \<and> efs_inv n A fs d' \<and>
     (\<forall>j \<in> used_inodes fs d. j \<noteq> 0 \<longrightarrow> file_content fs d' j = file_content fs d j)"

lemma created_entry:
  assumes inv: "efs_inv n A fs d" and nm: "map_of (root_dir fs d) name = None"
    and i: "i < bitmap_maximum (inode_bitmap fs)" "i \<notin> used_inodes fs d"
    and x: "length x = 32" "dirent_name (dirent_of_bytes x) = Inr name" "de_inode_number (dirent_of_bytes x) = i"
    and u: "file_updated n A fs 0 (new_inode fs File i d) (file_content fs d 0 @ x) d'"
  shows "created n A fs name i d d'"
proof -
  let ?d = "new_inode fs File i d"
  note e = efs_inv_facts [OF inv] and g = fs_inv_facts [OF efs_inv_facts(1) [OF inv]]
  note at = new_inode_at [OF g(1) i(1) g(2), where ty = File] and nf = new_inode_files [OF e(1) i, where ty = File]
  have u': "fs_inv n A fs d'" "used_inodes fs d' = insert i (used_inodes fs d)" "file_content fs d' 0 = file_content fs d 0 @ x"
    "di_type (inode_at fs d' 0) = di_type (inode_at fs ?d 0)" "d' 0 = ?d 0"
    "\<forall>j \<in> insert i (used_inodes fs d). j \<noteq> 0 \<longrightarrow> inode_at fs d' j = inode_at fs ?d j \<and> file_content fs d' j = file_content fs ?d j"
    using u at(2) by (simp_all add: file_updated_def)
  have i0: "i \<noteq> 0" using e(2) i(2) by metis
  have dl: "dir_wf (file_content fs d 0 @ x)" "root_dir fs d' = root_dir fs d @ [(name, i)]"
    using dir_list_append [OF e(4) x(1,2)] x(3) u'(3) by simp_all
  have "di_type (inode_at fs d' 0) = di_type (inode_at fs d 0)" using u'(4) at(5) [OF used_inodes_bound [OF e(2)]] i0 by simp
  then have dir: "is_dir (inode_at fs d' 0)" using e(3) by (simp add: is_dir_def)
  have fi: "file_content fs d' i = []" "is_file (inode_at fs d' i)" using u'(6) i0 nf(4) at(4) by (auto simp: is_file_def)
  have "name \<notin> fst ` set (root_dir fs d)" using nm by (simp add: map_of_eq_None_iff)
  moreover have "i \<notin> snd ` set (root_dir fs d)" using inv i(2) unfolding efs_inv_def by blast
  ultimately have "efs_inv n A fs d'"
    using u'(1-3) dl dir i0 inv by (auto simp: efs_inv_def)
  moreover have "\<forall>j \<in> used_inodes fs d. j \<noteq> 0 \<longrightarrow> file_content fs d' j = file_content fs d j" using u'(6) nf(6) by auto
  ultimately show ?thesis using i(2) u'(2,5) new_inode_super [OF g(1) i(1)] fi dl(2) by (simp add: created_def)
qed


lemma runs_inode_create:
  assumes inv: "efs_inv n A fs d" and nm: "map_of (root_dir fs d) name = None" "name_ok name"
    and free: "used_inodes fs d \<noteq> {..<bitmap_maximum (inode_bitmap fs)}"
    and sz: "length (file_content fs d 0) + 32 \<le> MAX_FILE_SIZE"
    and room: "total_blocks (length (file_content fs d 0) + 32) - total_blocks (length (file_content fs d 0)) \<le> free_data A fs d"
  shows "\<exists>i d'. runs n {} (inode_create (inode_ref fs 0) name) d (Some (inode_ref fs i)) d' \<and> created n A fs name i d d'"
proof -
  note e = efs_inv_facts [OF inv] and g = fs_inv_facts [OF efs_inv_facts(1) [OF inv]]
  obtain i where i: "i < bitmap_maximum (inode_bitmap fs)" "i \<notin> used_inodes fs d"
    and a: "runs n {} (alloc_inode fs) d i (bm_put (inode_bitmap fs) True i d)"
    using runs_alloc_inode [OF e(1) free] by blast
  let ?d = "new_inode fs File i d"
  have ini: "runs n {} (init_disk_inode File (get_disk_inode_pos fs i)) (bm_put (inode_bitmap fs) True i d) () ?d"
    using runs_init_inode [OF e(7) i(1) disk_ok_bm_put [OF g(2)]] by (simp add: new_inode_def Let_def)
  have i32: "i < 2 ^ 32" using i(1) e(7) by (simp add: geometry_def)
  obtain en where en: "DirEntry_new name i = Inr en" "length (dirent_as_bytes en) = 32"
      "dirent_name (dirent_of_bytes (dirent_as_bytes en)) = Inr name" "de_inode_number (dirent_of_bytes (dirent_as_bytes en)) = i"
    by (rule new_entry [OF nm(2) i32])
  note nf = new_inode_files [OF e(1) i, where ty = File]
  have c0: "file_content fs ?d 0 = file_content fs d 0" "free_data A fs ?d = free_data A fs d"
    using nf(6) [OF e(2)] nf(1) by (simp_all add: free_data_def)
  have pre: "0 \<in> used_inodes fs ?d" "length (file_content fs ?d 0) mod 32 = 0"
    using new_inode_at(2) [OF g(1) i(1) g(2), where ty = File] e(2,4) c0 by (simp_all add: dir_wf_def)
  obtain d' where ap: "runs n {} (modify_disk_inode (inode_ref fs 0) (\<lambda>root_inode.
      let file_count = di_size root_inode div DIRENT_SZ;
          new_size = (file_count + 1) * DIRENT_SZ
      in sbind (inode_increase_size fs (new_size mod 2 ^ 32) root_inode) (\<lambda>root_inode.
         sbind (slift (DirEntry_new name i)) (\<lambda>dirent.
         sbind (di_write_at (file_count * DIRENT_SZ) (dirent_as_bytes dirent) root_inode) (\<lambda>_.
         sret ((), root_inode)))))) ?d () d'"
      and u: "file_updated n A fs 0 ?d (file_content fs d 0 @ dirent_as_bytes en) d'"
    using runs_append_entry [OF fs_inv_new_inode [OF e(1) i] pre en(1,2)] sz room unfolding c0 by blast
  have fs: "in_fs (inode_ref fs 0) = fs" by (simp add: inode_ref_def Inode_new_def)
  have "runs n {} (inode_create (inode_ref fs 0) name) d (Some (inode_ref fs i)) d'"
    unfolding inode_create_def fs Let_def
  proof (rule runs_sbind [OF runs_create_check [OF inv]], subst if_not_P, simp add: nm(1), rule runs_sbind [OF a],
      rule runs_sbind [OF ini], rule runs_sbind [OF ap [unfolded Let_def]])
    show "runs n {} (case get_disk_inode_pos fs i of (block_id, block_offset) \<Rightarrow>
        sbind sync_all (\<lambda>_. sret (Some (Inode_new block_id block_offset fs)))) d' (Some (inode_ref fs i)) d'"
      unfolding disk_inode_pos [OF e(7) i(1)] split by (rule runs_sbind [OF runs_sync_all]) (simp add: inode_ref_def)
  qed
  then show ?thesis using created_entry [OF inv nm(1) i en(2-4) u] by blast
qed


lemma created_map:
  assumes inv: "efs_inv n A fs d" and c: "created n A fs name i d d'" and nm: "map_of (root_dir fs d) name = None"
  shows "map_of (root_dir fs d') name = Some i" "fs_map fs d' = (fs_map fs d)(name \<mapsto> [])"
proof -
  let ?R = "root_dir fs d"
  have c': "file_content fs d' i = []" "root_dir fs d' = ?R @ [(name, i)]"
    "\<forall>j \<in> used_inodes fs d. j \<noteq> 0 \<longrightarrow> file_content fs d' j = file_content fs d j"
    using c by (simp_all add: created_def)
  have m: "map_of (root_dir fs d') = (map_of ?R)(name \<mapsto> i)"
    unfolding c'(2) map_of_append using nm by (auto simp: map_add_def split: option.splits)
  then show "map_of (root_dir fs d') name = Some i" by simp
  show "fs_map fs d' = (fs_map fs d)(name \<mapsto> [])"
  proof
    fix b
    show "fs_map fs d' b = ((fs_map fs d)(name \<mapsto> [])) b"
    proof (cases "map_of ?R b")
      case None
      then show ?thesis using c'(1) by (simp add: fs_map_def m)
    next
      case (Some j)
      then have "b \<noteq> name" using nm by auto
      then show ?thesis using Some c'(3) efs_inv_entry(1,2) [OF inv Some] by (simp add: fs_map_def m)
    qed
  qed
qed

lemma runs_create_exists:
  assumes inv: "efs_inv n A fs d" and nm: "map_of (root_dir fs d) name \<noteq> None"
  shows "runs n {} (inode_create (inode_ref fs 0) name) d None d"
  unfolding inode_create_def by (rule runs_sbind [OF runs_create_check [OF inv]], subst if_P [OF nm]) simp

end
