(* ===== verification/Persistence.thy ===== *)
theory Persistence
  imports Vfs
begin

text \<open>
  What is on the device and what is only in the cache. A store is \<open>clean\<close> when no cached block has
  changes that the device lacks. Operations that only read keep a clean store clean, although they
  may evict blocks; operations that end with \<open>block_cache_sync_all\<close> leave a clean store whatever
  they found. A program that starts later, with an empty cache, sees the device.
\<close>

section \<open>Clean stores\<close>

definition clean :: "store \<Rightarrow> bool" where
  "clean s \<longleftrightarrow> (\<forall>(k, c) \<in> set (bcm_queue s). \<not> bc_modified c)"

definition reads :: "'a op \<Rightarrow> bool" where
  "reads m \<longleftrightarrow> (\<forall>s r s'. clean s \<longrightarrow> m s = Inr (r, s') \<longrightarrow> clean s')"

definition flushes :: "'a op \<Rightarrow> bool" where
  "flushes m \<longleftrightarrow> (\<forall>s r s'. m s = Inr (r, s') \<longrightarrow> clean s')"

named_theorems reads_intros \<open>operations that only read\<close>

lemma clean_file:
  assumes at: "at_disk n {} d s" and c: "clean s"
  shows "bf_blocks (store_file s) = d" "at_disk n {} d (empty_store (store_file s))"
proof -
  have ok: "cache_ok s" and v: "view s = d" and len: "bf_len (store_file s) = n" using at by (simp_all add: at_disk_def)
  have "bf_blocks (store_file s) b = view s b" for b
  proof (cases "map_of (bcm_queue s) b")
    case (Some e)
    then have m: "(b, e) \<in> set (bcm_queue s)" by (rule map_of_SomeD)
    then have "entry_ok (store_file s) (b, e)" "\<not> bc_modified e" using ok c by (auto simp: cache_ok_def clean_def)
    then show ?thesis using Some by (simp add: view_def entry_ok_def)
  qed (simp add: view_def)
  then show f: "bf_blocks (store_file s) = d" using v by (auto simp: fun_eq_iff)
  show "at_disk n {} d (empty_store (store_file s))"
    using ok f len by (auto simp: at_disk_def cache_ok_def empty_store_def view_def fun_eq_iff)
qed

section \<open>Reading\<close>

lemma reads_sret [reads_intros]: "reads (sret x)"
  by (simp add: reads_def sret_def)

lemma reads_slift [reads_intros]: "reads (slift r)"
  by (auto simp: reads_def slift_def elim!: rbind_eq_InrE)

lemma sbind_Inr:
  assumes "sbind m f s = Inr (r, s')"
  obtains x s1 where "m s = Inr (x, s1)" "f x s1 = Inr (r, s')"
  using assms by (auto simp: sbind_def elim!: rbind_eq_InrE)

lemma readsD: "reads m \<Longrightarrow> m s = Inr (r, s') \<Longrightarrow> clean s \<Longrightarrow> clean s'"
  unfolding reads_def by blast

lemma reads_sbind [reads_intros]: "reads m \<Longrightarrow> (\<And>x. reads (f x)) \<Longrightarrow> reads (sbind m f)"
  unfolding reads_def [of "sbind m f"] by (intro allI impI) (erule sbind_Inr, blast dest: readsD)

lemma reads_if: "(c \<Longrightarrow> reads m) \<Longrightarrow> (\<not> c \<Longrightarrow> reads m') \<Longrightarrow> reads (if c then m else m')"
  by simp

lemma reads_sfold [reads_intros]: "(\<And>x b. reads (f x b)) \<Longrightarrow> reads (sfold f xs b)"
  by (induction xs arbitrary: b) (auto intro: reads_intros)

lemma clean_get:
  assumes "clean s" and "get_block_cache k s = Inr s'"
  shows "clean s'"
proof -
  have rem: "set (vec_remove i q) \<subseteq> set q" for i and q :: "(nat \<times> BlockCache) list"
    by (auto simp: vec_remove_def dest: in_set_takeD in_set_dropD)
  have "clean s1" if "bcm_evict s = Inr s1" for s1
    using assms(1) that rem by (fastforce simp: bcm_evict_def clean_def elim!: rbind_eq_InrE split: option.splits)
  then show ?thesis using assms
    by (auto simp: get_block_cache_def BlockCache_new_def clean_def vec_push_def elim!: rbind_eq_InrE
        split: option.splits if_splits)
qed

lemma reads_cache_read [reads_intros]:
  assumes "\<And>bs. reads (f bs)"
  shows "reads (cache_read sz k off f)"
  unfolding reads_def
proof (intro allI impI)
  fix s r s' assume c: "clean s" and ok: "cache_read sz k off f s = Inr (r, s')"
  from ok obtain s1 bs s2 where s1: "cache_lock k s = Inr s1" and s2: "f bs s1 = Inr (r, s2)" and s': "s' = cache_unlock k s2"
    by (auto simp: cache_read_def elim!: rbind_eq_InrE)
  from s1 obtain s0 where s0: "get_block_cache k s = Inr s0" "s1 = s0\<lparr>arcs := k # arcs s0\<rparr>"
    by (auto simp: cache_lock_def elim!: rbind_eq_InrE split: if_splits)
  have "clean s1" using clean_get [OF c s0(1)] by (simp add: s0(2) clean_def)
  then have "clean s2" by (rule readsD [OF assms s2])
  then show "clean s'" by (simp add: s' cache_unlock_def clean_def)
qed

lemma reads_get_block_id [reads_intros]: "reads (get_block_id di i)"
  by (auto simp: get_block_id_def Let_def intro!: reads_intros)

lemma reads_read_loop [reads_intros]: "reads (read_loop di stop start b n buf)"
proof (induction di stop start b n buf rule: read_loop.induct)
  case (1 di stop start b n buf)
  show ?case
    unfolding read_loop.simps [of di stop start] Let_def by (intro reads_intros reads_if) (rule 1 [OF refl refl refl])
qed

lemma reads_di_read_at [reads_intros]: "reads (di_read_at off buf di)"
  by (auto simp: di_read_at_def Let_def intro!: reads_intros)

lemma reads_inode_ls [reads_intros]: "reads (inode_ls ino)"
  by (auto simp: inode_ls_def read_disk_inode_def read_dirent_def Let_def intro!: reads_intros)

section \<open>Flushing\<close>

lemma flushes_reads: "flushes m \<Longrightarrow> reads m"
  by (auto simp: flushes_def reads_def)

lemma flushes_last: "(\<And>x. flushes (f x)) \<Longrightarrow> flushes (sbind m f)"
  unfolding flushes_def by (blast elim: sbind_Inr)

lemma flushes_first: "flushes m \<Longrightarrow> (\<And>x. reads (f x)) \<Longrightarrow> flushes (sbind m f)"
  unfolding flushes_def by (blast elim: sbind_Inr dest: readsD)

lemma flushes_sync_all: "flushes sync_all"
proof -
  let ?step = "\<lambda>a (k, c) (q, f). if k \<in> a then Inl Lock_Held else rbind (bc_sync c f) (\<lambda>(c, f). Inr (vec_push q (k, c), f))"
  have "\<forall>(k, c) \<in> set q'. \<not> bc_modified c"
    if "rfold (?step a) es (q, f) = Inr (q', f')" "\<forall>(k, c) \<in> set q. \<not> bc_modified c" for a es q f q' f'
    using that
  proof (induction es arbitrary: q f)
    case (Cons e es)
    then show ?case
      by (fastforce simp: bc_sync_def vec_push_def elim!: rbind_eq_InrE split: prod.splits if_splits)
  qed simp
  then show ?thesis
    by (fastforce simp: flushes_def sync_all_def block_cache_sync_all_def clean_def elim!: rbind_eq_InrE)
qed

lemma flushes_write_at: "flushes (inode_write_at ino off buf)"
  unfolding inode_write_at_def by (intro flushes_last flushes_first [OF flushes_sync_all] reads_sret)

lemma flushes_efs_create: "flushes (efs_create n b)"
  unfolding efs_create_def Let_def
  by (auto split: prod.splits intro!: flushes_last flushes_first [OF flushes_sync_all] reads_sret)

lemma flushes_pack_app: "flushes (pack_app host root app)"
  unfolding pack_app_def by (intro flushes_last flushes_first [OF flushes_write_at] reads_sret)

text \<open>The packer ends with a listing, which reads; what it stored before is on the device.\<close>

lemma flushes_easy_fs_pack: "flushes (easy_fs_pack entries host)"
  unfolding easy_fs_pack_def Let_def
  by (intro flushes_first [OF flushes_efs_create] reads_intros flushes_reads [OF flushes_pack_app])

end
