(* ===== verification/Fs_Image.thy ===== *)
theory Fs_Image
  imports Directory Persistence
begin

text \<open>
  Formatting a device, opening it again and packing an image: \<open>EasyFileSystem::create\<close> establishes
  the invariant with an empty root directory, \<open>open\<close> reads back the same layout, and the packer of
  \<open>easy-fs-fuse\<close> stores every application under its name. The theory holds the properties of the
  file system as a whole.
\<close>

section \<open>The areas that \<open>create\<close> computes\<close>

definition data_total :: "nat \<Rightarrow> nat \<Rightarrow> nat" where
  "data_total T B = T - 1 - 1025 * B"

definition data_bm :: "nat \<Rightarrow> nat \<Rightarrow> nat" where
  "data_bm T B = (data_total T B + 4096) div 4097"

definition params_ok :: "nat \<Rightarrow> nat \<Rightarrow> nat \<Rightarrow> bool" where
  "params_ok n T B \<longleftrightarrow> 0 < B \<and> B \<le> 2 ^ 20 \<and> 1025 * B + 2 \<le> T \<and> T \<le> n \<and> n + 4096 < 2 ^ 32"

abbreviation formatted :: "nat \<Rightarrow> nat \<Rightarrow> EasyFileSystem" where
  "formatted T B \<equiv> efs_make B (1024 * B) (data_bm T B)"

abbreviation data_size :: "nat \<Rightarrow> nat \<Rightarrow> nat" where
  "data_size T B \<equiv> data_total T B - data_bm T B"

lemma data_bm_bounds:
  assumes "params_ok n T B"
  shows "data_bm T B \<le> data_total T B" "data_total T B \<le> 4097 * data_bm T B" "1 + 1025 * B + data_total T B = T"
  using assms by (auto simp: params_ok_def data_bm_def data_total_def)

lemma efs_areas_eq:
  assumes "params_ok n T B"
  shows "efs_areas T B = (1024 * B, data_bm T B, data_size T B)"
proof -
  note b = data_bm_bounds [OF assms]
  have p: "0 < B" "1025 * B + 2 \<le> T" "T + 4096 < 2 ^ 32" using assms by (auto simp: params_ok_def)
  have a: "(bitmap_maximum (Bitmap_new 1 B) * DiskInode_size + BLOCK_SZ - 1) div BLOCK_SZ = 1024 * B"
    by (simp add: bitmap_maximum_def Bitmap_new_def DiskInode_size_def BLOCK_SZ_def)
  have m: "1024 * B mod 2 ^ 32 = 1024 * B" "(B + 1024 * B) mod 2 ^ 32 = 1025 * B" using p by simp_all
  have e: "T + 2 * 2 ^ 32 - 1 - 1025 * B = data_total T B + 2 * 2 ^ 32" using p by (simp add: data_total_def)
  have lt: "data_total T B < 2 ^ 32" "data_total T B + 4096 < 2 ^ 32" using p by (simp_all add: data_total_def)
  have t: "(T + 2 * 2 ^ 32 - 1 - 1025 * B) mod 2 ^ 32 = data_total T B"
    unfolding e mod_mult_self1 by (rule mod_less [OF lt(1)])
  have t': "(data_total T B + 4096) mod 2 ^ 32 div 4097 = data_bm T B" using lt(2) by (simp add: data_bm_def)
  have "data_total T B + 2 ^ 32 - data_bm T B = data_size T B + 2 ^ 32" using b(1) by simp
  moreover have "data_size T B < 2 ^ 32" using p by (simp add: data_total_def)
  ultimately have "(data_total T B + 2 ^ 32 - data_bm T B) mod 2 ^ 32 = data_size T B" by (simp only: mod_add_self2 mod_less)
  then show ?thesis unfolding efs_areas_def Let_def a m t t' by (simp only:)
qed

lemma formatted_fields:
  assumes "params_ok n T B"
  shows "inode_bitmap (formatted T B) = \<lparr>start_block_id = 1, bm_blocks = B\<rparr>"
    "data_bitmap (formatted T B) = \<lparr>start_block_id = 1 + 1025 * B, bm_blocks = data_bm T B\<rparr>"
    "inode_area_start_block (formatted T B) = 1 + B"
    "data_area_start_block (formatted T B) = 1 + 1025 * B + data_bm T B"
proof -
  note b = data_bm_bounds [OF assms]
  have p: "T + 4096 < 2 ^ 32" "1025 * B + 2 \<le> T" using assms by (auto simp: params_ok_def)
  have "(B + 1024 * B) mod 2 ^ 32 = 1025 * B" "(1 + 1025 * B) mod 2 ^ 32 = 1 + 1025 * B" "(1 + B) mod 2 ^ 32 = 1 + B"
    "(1 + 1025 * B + data_bm T B) mod 2 ^ 32 = 1 + 1025 * B + data_bm T B" using p b by simp_all
  then show "inode_bitmap (formatted T B) = \<lparr>start_block_id = 1, bm_blocks = B\<rparr>"
    "data_bitmap (formatted T B) = \<lparr>start_block_id = 1 + 1025 * B, bm_blocks = data_bm T B\<rparr>"
    "inode_area_start_block (formatted T B) = 1 + B"
    "data_area_start_block (formatted T B) = 1 + 1025 * B + data_bm T B"
    by (simp_all only: efs_make_def Let_def EasyFileSystem.simps Bitmap_new_def)
qed

lemma formatted_geometry:
  assumes "params_ok n T B"
  shows "geometry n (data_size T B) (formatted T B)"
  using assms data_bm_bounds [OF assms]
  unfolding geometry_def formatted_fields [OF assms] by (auto simp: params_ok_def bitmap_maximum_def)

section \<open>Formatting\<close>

lemma runs_zero_all:
  assumes "set ks \<subseteq> {..<n}" and "disk_ok d"
  shows "runs n {} (sfold (\<lambda>i _. zero_block i) ks ()) d () (\<lambda>b. if b \<in> set ks then replicate 512 0 else d b)"
  using assms
proof (induction ks arbitrary: d)
  case (Cons k ks)
  let ?d = "d(k := replicate 512 0)"
  have z: "runs n {} (zero_block k) d () ?d"
    unfolding zero_block_def using Cons.prems disk_ok_length [OF Cons.prems(2), of k]
    by (intro runs_cache_modify [where e = d and bs = "replicate 512 0"])
      (auto simp: BLOCK_SZ_def BLOCK_CACHE_SIZE_def map_replicate_const splice_def)
  have "disk_ok ?d" using Cons.prems(2) by (simp add: disk_ok_def BLOCK_SZ_def)
  then have "runs n {} (sfold (\<lambda>i _. zero_block i) ks ()) ?d () (\<lambda>b. if b \<in> set ks then replicate 512 0 else ?d b)"
    using Cons.IH Cons.prems(1) by simp
  moreover have "(\<lambda>b. if b \<in> set ks then replicate 512 0 else ?d b) = (\<lambda>b. if b \<in> set (k # ks) then replicate 512 0 else d b)"
    by auto
  ultimately show ?case using runs_sbind [OF z] by simp
qed simp

definition blank_disk :: "nat \<Rightarrow> nat \<Rightarrow> disk \<Rightarrow> disk" where
  "blank_disk T B d = (\<lambda>b. if b < T then replicate 512 0 else d b)
     (0 := splice 0 (superblock_enc (SuperBlock_initialize T B (1024 * B) (data_bm T B) (data_size T B))) (replicate 512 0))"

definition fresh_disk :: "nat \<Rightarrow> nat \<Rightarrow> disk \<Rightarrow> disk" where
  "fresh_disk T B d = new_inode (formatted T B) Directory 0 (blank_disk T B d)"

lemma blank_bitmaps:
  assumes "params_ok n T B"
  shows "bm_set (inode_bitmap (formatted T B)) (blank_disk T B d) = {}" "bm_set (data_bitmap (formatted T B)) (blank_disk T B d) = {}"
proof -
  note b = data_bm_bounds [OF assms]
  have bit: "\<not> block_bit (replicate 512 0) j" if "j < 4096" for j
    using that by (simp add: block_bit_def bits64_def read_u_def)
  have zero: "blank_disk T B d k = replicate 512 0" if "0 < k" "k < T" for k using that by (simp add: blank_disk_def)
  show "bm_set (inode_bitmap (formatted T B)) (blank_disk T B d) = {}"
    unfolding formatted_fields [OF assms] bm_set_def using assms bit zero
    by (auto simp: bitmap_maximum_def params_ok_def less_mult_imp_div_less)
  show "bm_set (data_bitmap (formatted T B)) (blank_disk T B d) = {}"
    unfolding formatted_fields [OF assms] bm_set_def using assms b bit zero
    by (auto simp: bitmap_maximum_def params_ok_def less_mult_imp_div_less)
qed


lemma blank_inv:
  assumes p: "params_ok n T B" and d: "disk_ok d"
  shows "fs_inv n (data_size T B) (formatted T B) (blank_disk T B d)" "used_inodes (formatted T B) (blank_disk T B d) = {}"
    "used_data (formatted T B) (blank_disk T B d) = {}"
proof -
  note bm = blank_bitmaps [OF p, of d]
  show u: "used_inodes (formatted T B) (blank_disk T B d) = {}" using bm(1) by (simp add: used_inodes_def)
  show v: "used_data (formatted T B) (blank_disk T B d) = {}" using bm(2) by (simp add: used_data_def)
  have "disk_ok (blank_disk T B d)" using d by (simp add: disk_ok_def blank_disk_def BLOCK_SZ_def)
  then show "fs_inv n (data_size T B) (formatted T B) (blank_disk T B d)"
    using formatted_geometry [OF p] by (simp add: fs_inv_def u v bm(2))
qed

lemma fresh_inv:
  assumes p: "params_ok n T B" and d: "disk_ok d"
  shows "efs_inv n (data_size T B) (formatted T B) (fresh_disk T B d)" "used_inodes (formatted T B) (fresh_disk T B d) = {0}"
    "used_data (formatted T B) (fresh_disk T B d) = {}" "file_content (formatted T B) (fresh_disk T B d) 0 = []"
    "fresh_disk T B d 0 = blank_disk T B d 0"
proof -
  note b = blank_inv [OF p d]
  note g = fs_inv_facts [OF b(1)]
  have z: "0 < bitmap_maximum (inode_bitmap (formatted T B))" "0 \<notin> used_inodes (formatted T B) (blank_disk T B d)"
    using p b(2) by (auto simp: formatted_fields [OF p] bitmap_maximum_def params_ok_def)
  note at = new_inode_at [OF g(1) z(1) g(2), where ty = Directory] and nf = new_inode_files [OF b(1) z, where ty = Directory]
  show u: "used_inodes (formatted T B) (fresh_disk T B d) = {0}" using at(2) b(2) by (simp add: fresh_disk_def)
  show "used_data (formatted T B) (fresh_disk T B d) = {}" using nf(1) b(3) by (simp add: fresh_disk_def)
  show c: "file_content (formatted T B) (fresh_disk T B d) 0 = []" using nf(4) by (simp add: fresh_disk_def)
  show "fresh_disk T B d 0 = blank_disk T B d 0" unfolding fresh_disk_def by (rule new_inode_super [OF g(1) z(1)])
  have "fs_inv n (data_size T B) (formatted T B) (fresh_disk T B d)"
    unfolding fresh_disk_def by (rule fs_inv_new_inode [OF b(1) z])
  moreover have "is_dir (inode_at (formatted T B) (fresh_disk T B d) 0)" using at(4) by (simp add: fresh_disk_def is_dir_def)
  ultimately show "efs_inv n (data_size T B) (formatted T B) (fresh_disk T B d)"
    using u c by (simp add: efs_inv_def dir_list_def dir_entries_def dir_wf_def)
qed

lemma runs_efs_create:
  assumes p: "params_ok n T B" and d: "disk_ok d"
  shows "runs n {} (efs_create T B) d (formatted T B) (fresh_disk T B d)"
proof -
  let ?fs = "formatted T B" and ?z = "\<lambda>b. if b \<in> set [0..<T] then replicate 512 0 else d b"
  let ?b = "blank_disk T B d" and ?e = "bm_put (inode_bitmap ?fs) True 0 (blank_disk T B d)"
  note b = blank_inv [OF p d]
  note g = fs_inv_facts [OF b(1)]
  have T: "T \<le> n" "0 < n" "0 < T" "0 < bitmap_maximum (inode_bitmap ?fs)"
    using p by (auto simp: formatted_fields [OF p] bitmap_maximum_def params_ok_def)
  have zero: "runs n {} (sfold (\<lambda>i _. zero_block i) [0..<T] ()) d () ?z"
    using T(1) by (intro runs_zero_all d) auto
  have super: "runs n {} (cache_modify SuperBlock_size 0 0 (\<lambda>_.
      sret ((), superblock_enc (SuperBlock_initialize T B (1024 * B) (data_bm T B) (data_size T B))))) ?z () ?b"
    using T by (intro runs_cache_modify [where e = ?z and
          bs = "superblock_enc (SuperBlock_initialize T B (1024 * B) (data_bm T B) (data_size T B))"])
      (auto simp: BLOCK_CACHE_SIZE_def SuperBlock_size_def BLOCK_SZ_def blank_disk_def)
  have "used_inodes ?fs ?b \<noteq> {..<bitmap_maximum (inode_bitmap ?fs)}" using b(2) T(4) by auto
  then obtain i where i: "\<forall>j < i. j \<in> used_inodes ?fs ?b" "runs n {} (alloc_inode ?fs) ?b i (bm_put (inode_bitmap ?fs) True i ?b)"
    using runs_alloc_inode [OF b(1)] by metis
  then have "i = 0" using b(2) by auto
  then have a: "runs n {} (alloc_inode ?fs) ?b 0 ?e" using i(2) by simp
  have ini: "runs n {} (init_disk_inode Directory (get_disk_inode_pos ?fs 0)) ?e () (fresh_disk T B d)"
    using runs_init_inode [OF g(1) T(4) disk_ok_bm_put [OF g(2)]] by (simp add: fresh_disk_def new_inode_def Let_def)
  show ?thesis
    unfolding efs_create_def efs_areas_eq [OF p] Let_def split
    by (rule runs_sbind [OF zero], rule runs_sbind [OF super], rule runs_sbind [OF a], rule runs_sbind [where x = "()" and e = ?e],
        simp add: rassert_def, rule runs_sbind [OF ini], rule runs_sbind [OF runs_sync_all]) simp
qed

lemma runs_efs_open:
  assumes p: "params_ok n T B" and super: "d 0 = blank_disk T B d0 0"
  shows "runs n {} efs_open d (formatted T B) d"
proof -
  let ?sb = "SuperBlock_initialize T B (1024 * B) (data_bm T B) (data_size T B)"
  have "superblock_wf ?sb"
    using p data_bm_bounds [OF p] by (auto simp: superblock_wf_def SuperBlock_initialize_def EFS_MAGIC_def params_ok_def)
  then have dec: "superblock_dec (superblock_enc ?sb) = ?sb" by (rule superblock_dec_enc)
  have sl: "slice 0 24 (d 0) = superblock_enc ?sb" using super by (simp add: blank_disk_def)
  have n: "0 < n" using p by (simp add: params_ok_def)
  have "SuperBlock_is_valid ?sb" by (simp add: SuperBlock_is_valid_def SuperBlock_initialize_def)
  then have "runs n {0} (sbind (slift (rassert (SuperBlock_is_valid ?sb))) (\<lambda>_.
      sret (efs_make (sb_inode_bitmap_blocks ?sb) (sb_inode_area_blocks ?sb) (sb_data_bitmap_blocks ?sb)))) d (formatted T B) d"
    by (intro runs_sbind [where x = "()" and e = d]) (simp_all add: rassert_def SuperBlock_initialize_def)
  then show ?thesis
    unfolding efs_open_def SuperBlock_size_def using n
    by (intro runs_cache_read) (simp_all only: sl dec Let_def, simp_all add: BLOCK_CACHE_SIZE_def BLOCK_SZ_def)
qed


section \<open>Packing\<close>

text \<open>The directory lists the names \<open>L\<close>, whose contents are those of \<open>host\<close>, and there is no other file.\<close>

definition packed :: "nat \<Rightarrow> nat \<Rightarrow> EasyFileSystem \<Rightarrow> (u8 list \<Rightarrow> u8 list option) \<Rightarrow> u8 list list \<Rightarrow> disk \<Rightarrow> bool" where
  "packed n A fs host L d \<longleftrightarrow> efs_inv n A fs d \<and> map fst (root_dir fs d) = L \<and>
     used_inodes fs d = insert 0 (snd ` set (root_dir fs d)) \<and> (\<forall>a \<in> set L. fs_map fs d a = host a)"

definition pack_blocks :: "(u8 list \<Rightarrow> u8 list option) \<Rightarrow> u8 list list \<Rightarrow> nat" where
  "pack_blocks host L = total_blocks (32 * length L) + (\<Sum>a \<leftarrow> L. total_blocks (length (the (host a))))"

lemma root_length:
  assumes "efs_inv n A fs d"
  shows "length (file_content fs d 0) = 32 * length (root_dir fs d)"
  using efs_inv_facts(4) [OF assms] by (auto simp: dir_wf_def dir_list_def dir_entries_def)

lemma packed_card:
  assumes "packed n A fs host L d"
  shows "card (used_data fs d) = pack_blocks host L"
proof -
  let ?R = "root_dir fs d" and ?g = "\<lambda>i. total_blocks (length (file_content fs d i))"
  have inv: "efs_inv n A fs d" and L: "map fst ?R = L" and u: "used_inodes fs d = insert 0 (snd ` set ?R)"
    and h: "\<forall>a \<in> set L. fs_map fs d a = host a" using assms by (simp_all add: packed_def)
  note e = efs_inv_facts [OF inv]
  have z: "0 \<notin> snd ` set ?R" using inv by (simp add: efs_inv_def)
  have "length (file_content fs d (snd r)) = length (the (host (fst r)))" if "r \<in> set ?R" for r
  proof -
    have "map_of ?R (fst r) = Some (snd r)" using that e(5) by (simp add: map_of_is_SomeI)
    then have "fs_map fs d (fst r) = Some (file_content fs d (snd r))" by (simp add: fs_map_def)
    moreover have "fst r \<in> set L" using that L by auto
    ultimately show ?thesis using h by auto
  qed
  then have s: "map (?g \<circ> snd) ?R = map ((\<lambda>a. total_blocks (length (the (host a)))) \<circ> fst) ?R" by simp
  have "card (used_data fs d) = ?g 0 + (\<Sum>i \<in> set (map snd ?R). ?g i)"
    unfolding card_used_data_sum [OF e(1)] u using z by (subst sum.insert) simp_all
  also have "\<dots> = ?g 0 + (\<Sum>i \<leftarrow> map snd ?R. ?g i)" using e(6) by (simp only: sum_list_distinct_conv_sum_set)
  also have "(\<Sum>i \<leftarrow> map snd ?R. ?g i) = (\<Sum>a \<leftarrow> map fst ?R. total_blocks (length (the (host a))))"
    using s by (simp only: map_map)
  also have "?g 0 = total_blocks (32 * length L)" unfolding root_length [OF inv] L [symmetric] by simp
  finally show ?thesis unfolding L pack_blocks_def .
qed

lemma created_packed:
  assumes p: "packed n A fs host L d" and c: "created n A fs a i d d'" and a: "a \<notin> set L"
  shows "packed n A fs (host(a \<mapsto> [])) (L @ [a]) d'" "map_of (root_dir fs d') a = Some i"
proof -
  have inv: "efs_inv n A fs d" and L: "map fst (root_dir fs d) = L" and u: "used_inodes fs d = insert 0 (snd ` set (root_dir fs d))"
    and h: "\<forall>a \<in> set L. fs_map fs d a = host a" using p by (simp_all add: packed_def)
  have none: "map_of (root_dir fs d) a = None" using a arg_cong [OF L, of set] by (simp add: map_of_eq_None_iff)
  note m = created_map [OF inv c none]
  show "map_of (root_dir fs d') a = Some i" by (rule m(1))
  show "packed n A fs (host(a \<mapsto> [])) (L @ [a]) d'"
    using c L u h a m(2) by (auto simp: packed_def created_def)
qed

lemma updated_packed:
  assumes p: "packed n A fs host L d" and a: "map_of (root_dir fs d) a = Some i" and u: "file_updated n A fs i d c d'"
  shows "packed n A fs (host(a \<mapsto> c)) L d'"
proof -
  note m = fs_map_update [OF conjunct1 [OF p [unfolded packed_def]] a u]
  have "used_inodes fs d' = used_inodes fs d" using u by (simp add: file_updated_def)
  then show ?thesis using p m by (auto simp: packed_def)
qed


lemma total_blocks_mono: "a \<le> b \<Longrightarrow> b \<le> MAX_FILE_SIZE \<Longrightarrow> total_blocks a \<le> total_blocks b"
  using blocks_bound(4) [of a] blocks_bound(4) [of b] need_upto_mono [OF data_blocks_mono [of a b]] by simp

lemma total_blocks_0 [simp]: "total_blocks 0 = 0"
  by (simp add: total_blocks_def data_blocks_of_def BLOCK_SZ_def)

definition app_ok :: "(u8 list \<Rightarrow> u8 list option) \<Rightarrow> u8 list \<Rightarrow> bool" where
  "app_ok host a \<longleftrightarrow> name_ok a \<and> (case host a of None \<Rightarrow> False | Some c \<Rightarrow> c \<noteq> [] \<and> length c \<le> MAX_FILE_SIZE)"

lemma pack_blocks_snoc:
  "pack_blocks h (L @ [a]) =
   total_blocks (32 * length L + 32) + (\<Sum>b \<leftarrow> L. total_blocks (length (the (h b)))) + total_blocks (length (the (h a)))"
  by (simp add: pack_blocks_def add.commute)

lemma pack_sum_upd:
  "a \<notin> set L \<Longrightarrow> (\<Sum>b \<leftarrow> L. total_blocks (length (the ((h(a \<mapsto> x)) b)))) = (\<Sum>b \<leftarrow> L. total_blocks (length (the (h b))))"
  by (rule arg_cong [where f = sum_list], rule map_cong) auto

lemma runs_pack_app:
  assumes p: "packed n A fs host L d" and a: "a \<notin> set L" "app_ok host a"
    and sz: "32 * (length L + 1) \<le> MAX_FILE_SIZE" "length L + 1 < bitmap_maximum (inode_bitmap fs)"
    and room: "pack_blocks host (L @ [a]) \<le> A"
  shows "\<exists>d'. runs n {} (pack_app host (inode_ref fs 0) a) d () d' \<and> packed n A fs host (L @ [a]) d' \<and> d' 0 = d 0"
proof -
  obtain c where c: "host a = Some c" "c \<noteq> []" "length c \<le> MAX_FILE_SIZE" "name_ok a"
    using a(2) by (auto simp: app_ok_def split: option.splits)
  let ?R = "root_dir fs d" and ?S = "\<Sum>b \<leftarrow> L. total_blocks (length (the (host b)))"
  have inv: "efs_inv n A fs d" and L: "map fst ?R = L" and u: "used_inodes fs d = insert 0 (snd ` set ?R)" using p by (simp_all add: packed_def)
  have len: "length ?R = length L" using arg_cong [OF L, of length] by simp
  have c0: "length (file_content fs d 0) = 32 * length L" using root_length [OF inv] len by simp
  have r: "total_blocks (32 * length L + 32) + ?S + total_blocks (length c) \<le> A"
    using room c(1) unfolding pack_blocks_snoc by simp
  have none: "map_of ?R a = None" using a(1) arg_cong [OF L, of set] by (simp add: map_of_eq_None_iff)
  have "card (used_inodes fs d) \<le> Suc (length L)"
    unfolding u using card_insert_le_m1 [of "Suc (length L)" "snd ` set ?R" 0] card_image_le [of "set ?R" snd] card_length [of ?R] len by simp
  then have "card (used_inodes fs d) \<noteq> card {..<bitmap_maximum (inode_bitmap fs)}" using sz(2) by simp
  then have free: "used_inodes fs d \<noteq> {..<bitmap_maximum (inode_bitmap fs)}" by metis
  have szc: "length (file_content fs d 0) + 32 \<le> MAX_FILE_SIZE"
    "total_blocks (length (file_content fs d 0) + 32) - total_blocks (length (file_content fs d 0)) \<le> free_data A fs d"
    using sz(1) r packed_card [OF p] unfolding c0 by (simp_all add: free_data_def pack_blocks_def)
  obtain i d1 where cr: "runs n {} (inode_create (inode_ref fs 0) a) d (Some (inode_ref fs i)) d1" "created n A fs a i d d1"
    using runs_inode_create [OF inv none c(4) free szc] by blast
  note p1 = created_packed [OF p cr(2) a(1)]
  have inv1: "fs_inv n A fs d1" "i \<in> used_inodes fs d1" "file_content fs d1 i = []" "d1 0 = d 0"
    using cr(2) by (simp_all add: created_def efs_inv_def)
  have "card (used_data fs d1) = total_blocks (32 * length L + 32) + ?S"
    using packed_card [OF p1(1)] unfolding pack_blocks_snoc pack_sum_upd [OF a(1)] by simp
  then have room1: "total_blocks (0 + length c) - total_blocks (length (file_content fs d1 i)) \<le> free_data A fs d1"
    using r inv1(3) by (simp add: free_data_def)
  obtain d2 where w: "runs n {} (inode_write_at (inode_ref fs i) 0 c) d1 (length c) d2" "file_updated n A fs i d1 (splice 0 c (file_content fs d1 i)) d2"
    using runs_inode_write_at [OF inv1(1,2) c(2) _ _ room1] c(3) by auto
  have "splice 0 c (file_content fs d1 i) = c" using inv1(3) by (simp add: splice_def)
  then have "packed n A fs (host(a \<mapsto> [], a \<mapsto> c)) (L @ [a]) d2" using updated_packed [OF p1] w(2) by simp
  moreover have "host(a \<mapsto> [], a \<mapsto> c) = host" using c(1) by auto
  moreover have "runs n {} (pack_app host (inode_ref fs 0) a) d () d2"
    unfolding pack_app_def c(1) runwrap_def option.case
    by (rule runs_sbind [OF runs_slift], rule runs_sbind [OF cr(1)]) (auto intro!: runs_sbind [OF runs_slift] runs_sbind [OF w(1)])
  moreover have "d2 0 = d 0" using w(2) inv1(4) by (simp add: file_updated_def)
  ultimately show ?thesis by (simp add: exI [of _ d2])
qed

lemma runs_pack_apps:
  assumes "packed n A fs host L d" and "distinct (L @ as)" and "\<forall>a \<in> set as. app_ok host a"
    and "32 * length (L @ as) \<le> MAX_FILE_SIZE" and "length (L @ as) < bitmap_maximum (inode_bitmap fs)"
    and "pack_blocks host (L @ as) \<le> A"
  shows "\<exists>d'. runs n {} (sfold (\<lambda>app _. pack_app host (inode_ref fs 0) app) as ()) d () d' \<and> packed n A fs host (L @ as) d' \<and> d' 0 = d 0"
  using assms
proof (induction as arbitrary: L d)
  case Nil
  then show ?case by (intro exI [of _ d]) simp
next
  case (Cons a as)
  have "total_blocks (32 * length (L @ [a])) \<le> total_blocks (32 * length (L @ a # as))"
    using Cons.prems(4) by (intro total_blocks_mono) simp_all
  then have room: "pack_blocks host (L @ [a]) \<le> A" using Cons.prems(6) by (simp add: pack_blocks_def)
  obtain d1 where d1: "runs n {} (pack_app host (inode_ref fs 0) a) d () d1" "packed n A fs host (L @ [a]) d1" "d1 0 = d 0"
    using runs_pack_app [OF Cons.prems(1) _ _ _ _ room] Cons.prems(2-5) by auto
  obtain d' where d': "runs n {} (sfold (\<lambda>app _. pack_app host (inode_ref fs 0) app) as ()) d1 () d'"
      "packed n A fs host ((L @ [a]) @ as) d'" "d' 0 = d1 0"
    using Cons.IH [OF d1(2)] Cons.prems(2-6) by auto
  have "runs n {} (sfold (\<lambda>app _. pack_app host (inode_ref fs 0) app) (a # as) ()) d () d'"
    unfolding sfold.simps by (rule runs_sbind [OF d1(1)]) (rule d'(1))
  then show ?case using d'(2,3) d1(3) by (intro exI [of _ d']) simp
qed

lemma find_and_read:
  assumes inv: "efs_inv n A fs d" and m: "fs_map fs d a = Some c" and c: "length c \<le> MAX_FILE_SIZE"
  shows "\<exists>ino. runs n {} (inode_find (inode_ref fs 0) a) d (Some ino) d \<and>
    (\<forall>buf. length buf = length c \<longrightarrow> runs n {} (inode_read_at ino 0 buf) d (length buf, c) d)"
proof -
  obtain i where i: "map_of (root_dir fs d) a = Some i" "file_content fs d i = c" using m by (rule fs_map_Some)
  have "runs n {} (inode_read_at (inode_ref fs i) 0 buf) d (length buf, c) d" if "length buf = length c" for buf
    using runs_inode_read_at [OF efs_inv_facts(1) [OF inv] efs_inv_entry(1) [OF inv i(1)], of 0 buf] that c i(2)
    by (simp add: MAX_FILE_SIZE_def splice_def slice_def)
  then show ?thesis using runs_inode_find [OF inv, of a] i(1) by auto
qed


section \<open>Properties\<close>

text \<open>
  C5: Formatting and mounting. \<open>EasyFileSystem::create\<close> returns on any device that is large enough,
  whatever it held; the disk it leaves satisfies the invariant of the file system, its root
  directory is empty and every data block is free. \<open>open\<close> on this disk returns the very layout that
  \<open>create\<close> returned.
\<close>

theorem create_then_open:
  assumes "params_ok n T B" and "disk_ok d"
  shows "\<exists>fs d'. runs n {} (efs_create T B) d fs d' \<and> efs_inv n (data_size T B) fs d' \<and> fs_map fs d' = Map.empty \<and>
    root_inode fs = inode_ref fs 0 \<and> free_data (data_size T B) fs d' = data_size T B \<and> runs n {} efs_open d' fs d'"
proof -
  note f = fresh_inv [OF assms]
  have "fs_map (formatted T B) (fresh_disk T B d) = Map.empty"
    using f(4) by (auto simp: fs_map_def dir_list_def dir_entries_def)
  moreover have "root_inode (formatted T B) = inode_ref (formatted T B) 0"
    using inode_ref_pos [OF efs_inv_facts(7) [OF f(1)] root_held(4) [OF f(1)]] by (simp add: root_inode_def)
  moreover have "runs n {} efs_open (fresh_disk T B d) (formatted T B) (fresh_disk T B d)"
    using runs_efs_open [OF assms(1), of "fresh_disk T B d" d] f(5) by simp
  moreover have "free_data (data_size T B) (formatted T B) (fresh_disk T B d) = data_size T B" using f(3) by (simp add: free_data_def)
  ultimately show ?thesis using runs_efs_create [OF assms] f(1) by blast
qed

theorem create_then_open_witness:
  "\<exists>fs d'. runs 32768 {} (efs_create 32768 1) zero_disk fs d' \<and> efs_inv 32768 31734 fs d' \<and> runs 32768 {} efs_open d' fs d'"
proof -
  have p: "params_ok 32768 32768 1" "disk_ok zero_disk" and A: "data_size 32768 1 = 31734"
    by (simp_all add: params_ok_def data_total_def data_bm_def disk_ok_def zero_disk_def BLOCK_SZ_def)
  from create_then_open [OF p] show ?thesis unfolding A by blast
qed

text \<open>
  C6: Searching and listing. On a disk with the invariant, \<open>find\<close> in the root directory returns the
  inode of a name exactly if the name is in the directory, \<open>ls\<close> returns the names in the order of
  their entries, and neither changes the disk.
\<close>

theorem find_and_ls_correct:
  assumes "efs_inv n A fs d"
  shows "\<exists>dir. dir = map_of (root_dir fs d) \<and>
    runs n {} (inode_find (inode_ref fs 0) name) d (map_option (inode_ref fs) (dir name)) d \<and>
    (\<forall>a. (dir a = None) = (fs_map fs d a = None)) \<and> (\<forall>a i. dir a = Some i \<longrightarrow> fs_map fs d a = Some (file_content fs d i)) \<and>
    (\<exists>names. runs n {} (inode_ls (inode_ref fs 0)) d names d \<and> distinct names \<and> set names = dom (fs_map fs d) \<and>
      names = map fst (root_dir fs d))"
proof -
  let ?dir = "map_of (root_dir fs d)"
  have "dom (fs_map fs d) = dom ?dir" by (auto simp: fs_map_def)
  then have "set (map fst (root_dir fs d)) = dom (fs_map fs d)" by (simp add: dom_map_of_conv_image_fst)
  then have "\<exists>names. runs n {} (inode_ls (inode_ref fs 0)) d names d \<and> distinct names \<and> set names = dom (fs_map fs d) \<and>
      names = map fst (root_dir fs d)"
    using runs_inode_ls [OF assms] efs_inv_facts(5) [OF assms] by blast
  then show ?thesis using runs_inode_find [OF assms] by (intro exI [of _ ?dir]) (simp add: fs_map_def)
qed


text \<open>A formatted device for examples.\<close>

definition sample_fs :: EasyFileSystem where
  "sample_fs = formatted 2000 1"

definition sample_fs_disk :: disk where
  "sample_fs_disk = fresh_disk 2000 1 zero_disk"

lemma sample_params: "params_ok 2000 2000 1" "disk_ok zero_disk" "data_size 2000 1 = 973"
  by (simp_all add: params_ok_def data_total_def data_bm_def disk_ok_def zero_disk_def BLOCK_SZ_def)

lemma sample_fs_inv:
  "efs_inv 2000 973 sample_fs sample_fs_disk" "fs_map sample_fs sample_fs_disk a = None"
  "used_inodes sample_fs sample_fs_disk = {0}" "file_content sample_fs sample_fs_disk 0 = []" "free_data 973 sample_fs sample_fs_disk = 973"
  using fresh_inv [OF sample_params(1,2)] unfolding sample_params(3) sample_fs_def [symmetric] sample_fs_disk_def [symmetric]
  by (simp_all add: fs_map_def dir_list_def dir_entries_def free_data_def)

text \<open>
  C2: Creating. For a new name, with room for one more entry and a free inode, \<open>create\<close> returns an
  inode that was not in use; afterwards the map that the file system denotes has the name with empty
  contents and is unchanged elsewhere, \<open>find\<close> finds the new inode, and the invariant holds. For a
  name in the directory, \<open>create\<close> returns \<open>None\<close> and changes nothing.
\<close>

theorem create_adds_file:
  assumes "efs_inv n A fs d"
  shows "(fs_map fs d name \<noteq> None \<longrightarrow> runs n {} (inode_create (inode_ref fs 0) name) d None d) \<and>
    (fs_map fs d name = None \<and> name_ok name \<and> used_inodes fs d \<noteq> {..<bitmap_maximum (inode_bitmap fs)} \<and>
     length (file_content fs d 0) + 32 \<le> MAX_FILE_SIZE \<and>
     total_blocks (length (file_content fs d 0) + 32) - total_blocks (length (file_content fs d 0)) \<le> free_data A fs d \<longrightarrow>
     (\<exists>i d'. runs n {} (inode_create (inode_ref fs 0) name) d (Some (inode_ref fs i)) d' \<and> i \<notin> used_inodes fs d \<and>
        efs_inv n A fs d' \<and> fs_map fs d' = (fs_map fs d)(name \<mapsto> []) \<and>
        runs n {} (inode_find (inode_ref fs 0) name) d' (Some (inode_ref fs i)) d'))"
proof (intro conjI impI)
  have m: "fs_map fs d name = None \<longleftrightarrow> map_of (root_dir fs d) name = None" by (simp add: fs_map_def)
  show "runs n {} (inode_create (inode_ref fs 0) name) d None d" if "fs_map fs d name \<noteq> None"
    using runs_create_exists [OF assms, of name] m that by simp
  assume h: "fs_map fs d name = None \<and> name_ok name \<and> used_inodes fs d \<noteq> {..<bitmap_maximum (inode_bitmap fs)} \<and>
     length (file_content fs d 0) + 32 \<le> MAX_FILE_SIZE \<and>
     total_blocks (length (file_content fs d 0) + 32) - total_blocks (length (file_content fs d 0)) \<le> free_data A fs d"
  then have nm: "map_of (root_dir fs d) name = None" using m by blast
  obtain i d' where c: "runs n {} (inode_create (inode_ref fs 0) name) d (Some (inode_ref fs i)) d'" "created n A fs name i d d'"
    using runs_inode_create [OF assms nm] h by blast
  note cm = created_map [OF assms c(2) nm]
  have c': "i \<notin> used_inodes fs d" "efs_inv n A fs d'" using c(2) by (simp_all add: created_def)
  have "runs n {} (inode_find (inode_ref fs 0) name) d' (Some (inode_ref fs i)) d'"
    using runs_inode_find [OF c'(2), of name] cm(1) by simp
  then show "\<exists>i d'. runs n {} (inode_create (inode_ref fs 0) name) d (Some (inode_ref fs i)) d' \<and> i \<notin> used_inodes fs d \<and>
      efs_inv n A fs d' \<and> fs_map fs d' = (fs_map fs d)(name \<mapsto> []) \<and>
      runs n {} (inode_find (inode_ref fs 0) name) d' (Some (inode_ref fs i)) d'"
    using c(1) c' cm(2) by blast
qed

lemma sample_room: "total_blocks 32 = 1" "name_ok [97]" "{0} \<noteq> {..<bitmap_maximum (inode_bitmap sample_fs)}"
proof -
  show "total_blocks 32 = 1" by (simp add: total_blocks_def data_blocks_of_def BLOCK_SZ_def)
  show "name_ok [97]" by (simp add: name_ok_def)
  have "card {..<bitmap_maximum (inode_bitmap sample_fs)} \<noteq> card {0 :: nat}"
    by (simp add: sample_fs_def formatted_fields [OF sample_params(1)] bitmap_maximum_def)
  then show "{0} \<noteq> {..<bitmap_maximum (inode_bitmap sample_fs)}" by metis
qed

theorem create_adds_file_witness:
  "\<exists>i d'. runs 2000 {} (inode_create (inode_ref sample_fs 0) [97]) sample_fs_disk (Some (inode_ref sample_fs i)) d' \<and>
     fs_map sample_fs d' [97] = Some []"
proof -
  have "\<exists>i d'. runs 2000 {} (inode_create (inode_ref sample_fs 0) [97]) sample_fs_disk (Some (inode_ref sample_fs i)) d' \<and>
      i \<notin> used_inodes sample_fs sample_fs_disk \<and> efs_inv 2000 973 sample_fs d' \<and>
      fs_map sample_fs d' = (fs_map sample_fs sample_fs_disk)([97] \<mapsto> []) \<and>
      runs 2000 {} (inode_find (inode_ref sample_fs 0) [97]) d' (Some (inode_ref sample_fs i)) d'"
    by (rule mp [OF conjunct2 [OF create_adds_file [OF sample_fs_inv(1)]]])
      (simp add: sample_fs_inv sample_room MAX_FILE_SIZE_def)
  then show ?thesis by fastforce
qed


lemma sample_file_disk:
  "\<exists>d. efs_inv 2000 973 sample_fs d \<and> fs_map sample_fs d [97] = Some [1, 2, 3] \<and> free_data 973 sample_fs d = 971 \<and>
     map fst (root_dir sample_fs d) = [[97]]"
proof -
  let ?host = "[[97] \<mapsto> [1, 2, 3 :: u8]]"
  have b: "pack_blocks ?host ([] @ [[97]]) = 2"
    by (simp add: pack_blocks_def total_blocks_def data_blocks_of_def BLOCK_SZ_def)
  have "packed 2000 973 sample_fs ?host [] sample_fs_disk"
    using sample_fs_inv by (simp add: packed_def dir_list_def dir_entries_def)
  moreover have "bm_blocks (inode_bitmap sample_fs) = 1"
    unfolding sample_fs_def formatted_fields [OF sample_params(1)] by simp
  ultimately obtain d where p: "packed 2000 973 sample_fs ?host ([] @ [[97]]) d"
    using runs_pack_app [of 2000 973 sample_fs ?host "[]" sample_fs_disk "[97]"] b
    by (auto simp: app_ok_def sample_room MAX_FILE_SIZE_def bitmap_maximum_def)
  have "card (used_data sample_fs d) = 2" using packed_card [OF p] b by simp
  then show ?thesis using p by (intro exI [of _ d]) (simp add: packed_def free_data_def)
qed

theorem find_and_ls_correct_witness:
  "\<exists>d i. fs_map sample_fs d [97] = Some [1, 2, 3] \<and> file_content sample_fs d i = [1, 2, 3] \<and>
     runs 2000 {} (inode_find (inode_ref sample_fs 0) [97]) d (Some (inode_ref sample_fs i)) d \<and>
     runs 2000 {} (inode_find (inode_ref sample_fs 0) [98]) d None d \<and>
     runs 2000 {} (inode_ls (inode_ref sample_fs 0)) d [[97]] d"
proof -
  obtain d where d: "efs_inv 2000 973 sample_fs d" "fs_map sample_fs d [97] = Some [1, 2, 3]" "map fst (root_dir sample_fs d) = [[97]]"
    using sample_file_disk by (elim exE conjE) (rule that)
  let ?dir = "map_of (root_dir sample_fs d)"
  have w: "runs 2000 {} (inode_find (inode_ref sample_fs 0) a) d (map_option (inode_ref sample_fs) (?dir a)) d"
    "(?dir a = None) = (fs_map sample_fs d a = None)" "?dir a = Some i \<Longrightarrow> fs_map sample_fs d a = Some (file_content sample_fs d i)"
    "runs 2000 {} (inode_ls (inode_ref sample_fs 0)) d (map fst (root_dir sample_fs d)) d" for a i
    using find_and_ls_correct [OF d(1), of a] by blast+
  obtain i where i: "?dir [97] = Some i" using w(2) [of "[97]"] d(2) by auto
  have "?dir [98] = None" using arg_cong [OF d(3), of set] by (simp add: map_of_eq_None_iff)
  then show ?thesis using w(1) [of "[97]"] w(1) [of "[98]"] w(3) [OF i] w(4) i d(2,3)
    by (intro exI [of _ d] exI [of _ i]) simp
qed

text \<open>
  C16: Inodes are stored apart. \<open>modify_disk_inode\<close> on the position of an inode runs its closure on the
  inode as it is stored; afterwards \<open>read_disk_inode\<close> at this position gives what the closure left,
  and at the position of every other inode of the inode area, also of the same block, what it gave
  before; no block but the one of the inode changes.
\<close>

theorem inode_slots_independent:
  assumes "geometry n A fs" and "disk_ok d" and "i < bitmap_maximum (inode_bitmap fs)"
    and "\<forall>di. dinode_wf di \<longrightarrow> dinode_wf (snd (g di))"
    and "at = (\<lambda>j. let (block_id, block_offset) = get_disk_inode_pos fs j in Inode_new block_id block_offset fs)"
  shows "\<exists>di d'. runs n {} (read_disk_inode (at i) sret) d di d \<and>
    runs n {} (modify_disk_inode (at i) (\<lambda>di. sret (g di))) d (fst (g di)) d' \<and>
    (\<forall>j < bitmap_maximum (inode_bitmap fs). \<exists>dj. runs n {} (read_disk_inode (at j) sret) d dj d \<and>
       runs n {} (read_disk_inode (at j) sret) d' (if j = i then snd (g di) else dj) d') \<and>
    (\<forall>b. b \<noteq> in_block_id (at i) \<longrightarrow> d' b = d b)"
proof -
  let ?di = "inode_at fs d i" and ?d = "put_inode fs i (snd (g (inode_at fs d i))) d"
  have at: "at j = inode_ref fs j" if "j < bitmap_maximum (inode_bitmap fs)" for j
    using inode_ref_pos [OF assms(1) that] by (simp add: assms(5))
  have wf: "dinode_wf (snd (g ?di))" using assms(4) dinode_wf_at [OF assms(2)] by blast
  have rd: "runs n {} (read_disk_inode (at j) sret) e (inode_at fs e j) e" if "j < bitmap_maximum (inode_bitmap fs)" for j e
    unfolding at [OF that] by (rule runs_read_inode [OF assms(1) that runs_sret])
  have "runs n {inode_block fs i} (sret (g ?di)) d (fst (g ?di), snd (g ?di)) d" by simp
  then have md: "runs n {} (modify_disk_inode (at i) (\<lambda>di. sret (g di))) d (fst (g ?di)) ?d"
    unfolding at [OF assms(3)] by (intro runs_modify_inode [OF assms(1,3)] wf) simp_all
  have "runs n {} (read_disk_inode (at j) sret) ?d (if j = i then snd (g ?di) else inode_at fs d j) ?d"
    if "j < bitmap_maximum (inode_bitmap fs)" for j
    using rd [OF that, of ?d] unfolding inode_at_put [OF assms(2) wf] by (simp add: eq_commute)
  moreover have "?d b = d b" if "b \<noteq> in_block_id (at i)" for b
    using that unfolding at [OF assms(3)] by (simp add: put_inode_def inode_ref_def Inode_new_def)
  ultimately show ?thesis using rd md assms(3) by (intro exI [of _ ?di] exI [of _ ?d]) blast
qed

theorem inode_slots_independent_witness:
  "\<exists>di dj d'. runs 2000 {} (modify_disk_inode (inode_ref sample_fs 1) (\<lambda>di. sret ((), di\<lparr>di_indirect1 := 7\<rparr>))) sample_fs_disk () d' \<and>
     runs 2000 {} (read_disk_inode (inode_ref sample_fs 1) sret) d' (di\<lparr>di_indirect1 := 7\<rparr>) d' \<and>
     runs 2000 {} (read_disk_inode (inode_ref sample_fs 2) sret) sample_fs_disk dj sample_fs_disk \<and>
     runs 2000 {} (read_disk_inode (inode_ref sample_fs 2) sret) d' dj d'"
proof -
  let ?max = "bitmap_maximum (inode_bitmap sample_fs)"
  let ?at = "\<lambda>j. let (block_id, block_offset) = get_disk_inode_pos sample_fs j in Inode_new block_id block_offset sample_fs"
  have g: "geometry 2000 973 sample_fs" "disk_ok sample_fs_disk"
    using sample_fs_inv(1) by (simp_all add: efs_inv_def fs_inv_def)
  have i: "1 < ?max" "2 < ?max"
    unfolding sample_fs_def formatted_fields [OF sample_params(1)] by (simp_all add: bitmap_maximum_def)
  have wf: "\<forall>di. dinode_wf di \<longrightarrow> dinode_wf (snd ((), di\<lparr>di_indirect1 := 7\<rparr>))" by (simp add: dinode_wf_def)
  have at: "?at 1 = inode_ref sample_fs 1" "?at 2 = inode_ref sample_fs 2"
    by (rule inode_ref_pos [OF g(1) i(1)], rule inode_ref_pos [OF g(1) i(2)])
  obtain di d' where w: "runs 2000 {} (modify_disk_inode (?at 1) (\<lambda>di. sret ((), di\<lparr>di_indirect1 := 7\<rparr>))) sample_fs_disk
        (fst ((), di\<lparr>di_indirect1 := 7\<rparr>)) d'"
      "\<forall>j < ?max. \<exists>dj. runs 2000 {} (read_disk_inode (?at j) sret) sample_fs_disk dj sample_fs_disk \<and>
         runs 2000 {} (read_disk_inode (?at j) sret) d' (if j = 1 then snd ((), di\<lparr>di_indirect1 := 7\<rparr>) else dj) d'"
    using inode_slots_independent [OF g i(1) wf refl] by (elim exE conjE) (rule that)
  have "runs 2000 {} (read_disk_inode (?at 1) sret) d' (di\<lparr>di_indirect1 := 7\<rparr>) d'"
    using w(2) [rule_format, OF i(1)] unfolding if_P [OF refl] snd_conv by (elim exE conjE)
  moreover obtain dj where "runs 2000 {} (read_disk_inode (?at 2) sret) sample_fs_disk dj sample_fs_disk"
      "runs 2000 {} (read_disk_inode (?at 2) sret) d' dj d'"
    using w(2) [rule_format, OF i(2)] by auto
  ultimately show ?thesis using w(1) unfolding at fst_conv by blast
qed

text \<open>
  C1: Writing and reading a file by its name. When \<open>find\<close> returns an inode, \<open>write_at\<close> at an offset
  up to the end of the file, with room on the disk, writes all bytes; the map that the file system
  denotes changes at this name only, to the old contents overwritten and extended by the buffer. A
  later \<open>read_at\<close> returns the corresponding slice of the new contents.
\<close>

theorem write_updates_map:
  assumes "efs_inv n A fs d" and "fs_map fs d name = Some c" and "buf \<noteq> []" and "off \<le> length c" "off + length buf \<le> MAX_FILE_SIZE"
    and "total_blocks (off + length buf) - total_blocks (length c) \<le> free_data A fs d" and "pos + length rbuf < 2 ^ 64"
    and "c' = splice off buf c" "k = min (length rbuf) (length c' - pos)"
  shows "\<exists>ino d'. runs n {} (inode_find (inode_ref fs 0) name) d (Some ino) d \<and>
    runs n {} (inode_write_at ino off buf) d (length buf) d' \<and> efs_inv n A fs d' \<and> fs_map fs d' = (fs_map fs d)(name \<mapsto> c') \<and>
    runs n {} (inode_read_at ino pos rbuf) d' (k, splice 0 (slice pos k c') rbuf) d'"
proof -
  obtain i where i: "map_of (root_dir fs d) name = Some i" "file_content fs d i = c" using assms(2) by (rule fs_map_Some)
  have inv: "fs_inv n A fs d" by (rule efs_inv_facts(1) [OF assms(1)])
  note u = efs_inv_entry(1) [OF assms(1) i(1)]
  obtain d' where w: "runs n {} (inode_write_at (inode_ref fs i) off buf) d (length buf) d'" "file_updated n A fs i d c' d'"
    using runs_inode_write_at [OF inv u assms(3), of off] assms(4-6,8) i(2) by auto
  note m = fs_map_update [OF assms(1) i(1) w(2)]
  have u': "i \<in> used_inodes fs d'" "file_content fs d' i = c'" using w(2) u by (simp_all add: file_updated_def)
  have "runs n {} (inode_read_at (inode_ref fs i) pos rbuf) d' (k, splice 0 (slice pos k c') rbuf) d'"
    using runs_inode_read_at [OF efs_inv_facts(1) [OF m(1)] u'(1) assms(7)] u'(2) assms(9) by simp
  moreover have "runs n {} (inode_find (inode_ref fs 0) name) d (Some (inode_ref fs i)) d"
    using runs_inode_find [OF assms(1), of name] i(1) by simp
  ultimately show ?thesis using w(1) m(1,2) by blast
qed

theorem write_updates_map_witness:
  "\<exists>d ino d'. fs_map sample_fs d [97] = Some [1, 2, 3] \<and> runs 2000 {} (inode_write_at ino 3 [4, 5]) d 2 d' \<and>
     fs_map sample_fs d' [97] = Some [1, 2, 3, 4, 5] \<and> runs 2000 {} (inode_read_at ino 2 [9, 9, 9, 9]) d' (3, [3, 4, 5, 9]) d'"
proof -
  obtain d where d: "efs_inv 2000 973 sample_fs d" "fs_map sample_fs d [97] = Some [1, 2, 3]" "free_data 973 sample_fs d = 971"
    using sample_file_disk by blast
  have t: "total_blocks (3 + length [4, 5 :: u8]) - total_blocks (length [1, 2, 3 :: u8]) \<le> free_data 973 sample_fs d"
    by (simp add: d(3) total_blocks_def data_blocks_of_def BLOCK_SZ_def)
  have "\<exists>ino d'. runs 2000 {} (inode_find (inode_ref sample_fs 0) [97]) d (Some ino) d \<and>
      runs 2000 {} (inode_write_at ino 3 [4, 5]) d (length [4, 5 :: u8]) d' \<and> efs_inv 2000 973 sample_fs d' \<and>
      fs_map sample_fs d' = (fs_map sample_fs d)([97] \<mapsto> [1, 2, 3, 4, 5]) \<and>
      runs 2000 {} (inode_read_at ino 2 [9, 9, 9, 9]) d' (3, splice 0 (slice 2 3 [1, 2, 3, 4, 5]) [9, 9, 9, 9]) d'"
    by (rule write_updates_map [OF d(1,2) _ _ _ t]) (simp_all add: MAX_FILE_SIZE_def splice_def)
  moreover have "splice 0 (slice 2 3 [1, 2, 3, 4, 5]) [9, 9, 9, 9] = [3, 4, 5, 9 :: u8]" "length [4, 5 :: u8] = 2"
    by (simp_all add: splice_def slice_def)
  ultimately obtain ino d' where "runs 2000 {} (inode_write_at ino 3 [4, 5]) d 2 d'"
      "fs_map sample_fs d' = (fs_map sample_fs d)([97] \<mapsto> [1, 2, 3, 4, 5])" "runs 2000 {} (inode_read_at ino 2 [9, 9, 9, 9]) d' (3, [3, 4, 5, 9]) d'"
    by (simp only:) blast
  then show ?thesis using d(2) by (intro exI [of _ d] exI [of _ ino] exI [of _ d']) simp
qed

text \<open>
  C3: Clearing a file empties it and returns every block it had to the free blocks; no other file
  changes, and the assertion on the number of blocks in \<open>clear\<close> holds.
\<close>

theorem clear_frees_blocks:
  assumes "efs_inv n A fs d" and "fs_map fs d name = Some c"
  shows "\<exists>ino d'. runs n {} (inode_find (inode_ref fs 0) name) d (Some ino) d \<and> runs n {} (inode_clear ino) d () d' \<and>
    efs_inv n A fs d' \<and> fs_map fs d' = (fs_map fs d)(name \<mapsto> []) \<and>
    free_data A fs d' = free_data A fs d + total_blocks (length c)"
proof -
  obtain i where i: "map_of (root_dir fs d) name = Some i" "file_content fs d i = c" using assms(2) by (rule fs_map_Some)
  have inv: "fs_inv n A fs d" by (rule efs_inv_facts(1) [OF assms(1)])
  note u = efs_inv_entry(1) [OF assms(1) i(1)] and f = fs_inv_facts [OF inv]
  obtain d' where w: "runs n {} (inode_clear (inode_ref fs i)) d () d'" "file_updated n A fs i d [] d'"
      "used_data fs d' = used_data fs d - set (inode_blocks fs d i)"
    using runs_inode_clear [OF inv u] by blast
  note m = fs_map_update [OF assms(1) i(1) w(2)]
  have B: "set (inode_blocks fs d i) \<subseteq> used_data fs d" "distinct (inode_blocks fs d i)" "di_size (inode_at fs d i) \<le> MAX_FILE_SIZE"
    using inv u unfolding fs_inv_def by blast+
  have fin: "finite (used_data fs d)" "card (used_data fs d) \<le> A"
    using finite_subset [OF f(4)] card_mono [OF _ f(4)] by (simp_all add: data_area_def)
  have "card (set (inode_blocks fs d i)) = total_blocks (length c)"
    using distinct_card [OF B(2)] length_blocks_of [OF B(3)] i(2) by (auto simp: inode_blocks_def file_content_def)
  then have "card (used_data fs d') = card (used_data fs d) - total_blocks (length c)" "total_blocks (length c) \<le> card (used_data fs d)"
    unfolding w(3) using card_Diff_subset [OF _ B(1)] card_mono [OF fin(1) B(1)] by simp_all
  then have "free_data A fs d' = free_data A fs d + total_blocks (length c)" using fin(2) by (simp add: free_data_def)
  moreover have "runs n {} (inode_find (inode_ref fs 0) name) d (Some (inode_ref fs i)) d"
    using runs_inode_find [OF assms(1), of name] i(1) by simp
  ultimately show ?thesis using w(1) m(1,2) by blast
qed


theorem clear_frees_blocks_witness:
  "\<exists>d ino d'. fs_map sample_fs d [97] = Some [1, 2, 3] \<and> free_data 973 sample_fs d = 971 \<and>
     runs 2000 {} (inode_clear ino) d () d' \<and> fs_map sample_fs d' [97] = Some [] \<and> free_data 973 sample_fs d' = 972"
proof -
  obtain d where d: "efs_inv 2000 973 sample_fs d" "fs_map sample_fs d [97] = Some [1, 2, 3]" "free_data 973 sample_fs d = 971"
    using sample_file_disk by blast
  have t: "total_blocks (length [1, 2, 3 :: u8]) = 1" by (simp add: total_blocks_def data_blocks_of_def BLOCK_SZ_def)
  obtain ino d' where "runs 2000 {} (inode_clear ino) d () d'" "fs_map sample_fs d' = (fs_map sample_fs d)([97] \<mapsto> [])"
      "free_data 973 sample_fs d' = free_data 973 sample_fs d + total_blocks (length [1, 2, 3 :: u8])"
    using clear_frees_blocks [OF d(1,2)] by blast
  then show ?thesis using d(2,3) t by (intro exI [of _ d] exI [of _ ino] exI [of _ d']) simp
qed

lemma at_disk_ok:
  assumes "at_disk n H d s"
  shows "disk_ok d"
proof -
  have ok: "cache_ok s" and v: "view s = d" using assms by (simp_all add: at_disk_def)
  have "length (view s b) = BLOCK_SZ" for b
  proof (cases "map_of (bcm_queue s) b")
    case (Some c)
    then have "entry_ok (store_file s) (b, c)" using ok by (auto simp: cache_ok_def dest: map_of_SomeD)
    then show ?thesis using Some by (simp add: view_def entry_ok_def)
  qed (use ok in \<open>simp add: view_def cache_ok_def\<close>)
  then show ?thesis by (simp add: disk_ok_def v [symmetric])
qed

text \<open>
  C4: Building an image. \<open>easy_fs_pack\<close> formats the device and stores every application of the host
  directory, its extension stripped, under its name. If the names are distinct and fit an entry, the
  contents are not empty and not larger than the largest file, and index and data blocks suffice,
  the packer, started on any state of the cache, returns the list of the applications in their order.
  The image, that is the host file itself as the packer leaves it, has the invariant and holds
  exactly the applications with their contents; nothing is left in the cache alone. A program
  that opens this file with an empty cache gets the file system, and searching an application
  gives an inode whose bytes are the host's.
\<close>

theorem easy_fs_pack_correct:
  assumes n: "32768 \<le> n" "n + 4096 < 2 ^ 32" and at: "at_disk n {} d s" and strip: "strip_all entries = Inr apps"
    and apps: "distinct apps" "\<forall>a \<in> set apps. app_ok host a" "length apps < 4096" "pack_blocks host apps \<le> 31734"
  shows "\<exists>fs s' d'. easy_fs_pack entries host s = Inr (apps, s') \<and> d' = bf_blocks (store_file s') \<and>
    at_disk n {} d' (empty_store (store_file s')) \<and> efs_inv n 31734 fs d' \<and>
    fs_map fs d' = host |` set apps \<and> runs n {} efs_open d' fs d' \<and>
    (\<forall>a \<in> set apps. \<exists>ino. runs n {} (inode_find (root_inode fs) a) d' (Some ino) d' \<and>
       (\<forall>buf. length buf = length (the (host a)) \<longrightarrow> runs n {} (inode_read_at ino 0 buf) d' (length buf, the (host a)) d'))"
proof -
  have d: "disk_ok d" by (rule at_disk_ok [OF at])
  let ?fs = "formatted 32768 1" and ?d = "fresh_disk 32768 1 d"
  have p: "params_ok n 32768 1" and A: "data_size 32768 1 = 31734" using n by (simp_all add: params_ok_def data_total_def data_bm_def)
  note f = fresh_inv [OF p d, unfolded A]
  have root: "root_inode ?fs = inode_ref ?fs 0"
    using inode_ref_pos [OF efs_inv_facts(7) [OF f(1)] root_held(4) [OF f(1)]] by (simp add: root_inode_def)
  have "packed n 31734 ?fs host [] ?d" using f by (simp add: packed_def dir_list_def dir_entries_def)
  moreover have "bitmap_maximum (inode_bitmap ?fs) = 4096" unfolding formatted_fields [OF p] by (simp add: bitmap_maximum_def)
  ultimately obtain d' where pk: "runs n {} (sfold (\<lambda>app _. pack_app host (inode_ref ?fs 0) app) apps ()) ?d () d'"
      "packed n 31734 ?fs host ([] @ apps) d'" "d' 0 = ?d 0"
    using runs_pack_apps [of n 31734 ?fs host "[]" ?d apps] apps by (auto simp: MAX_FILE_SIZE_def)
  have inv: "efs_inv n 31734 ?fs d'" and L: "map fst (root_dir ?fs d') = apps" and h: "\<forall>a \<in> set apps. fs_map ?fs d' a = host a"
    using pk(2) by (simp_all add: packed_def)
  have ls: "runs n {} (inode_ls (inode_ref ?fs 0)) d' apps d'" using runs_inode_ls [OF inv] L by simp
  have c: "runs n {} (efs_create (16 * 2048) 1) d ?fs ?d" using runs_efs_create [OF p d] by (simp only: mult_numeral_1 arith_simps)
  have st: "runs n {} (slift (strip_all entries)) ?d apps ?d" unfolding strip by (rule runs_slift)
  have run: "runs n {} (easy_fs_pack entries host) d apps d'"
    unfolding easy_fs_pack_def Let_def by (rule runs_sbind [OF c]) (unfold root, rule runs_sbind [OF st], rule runs_sbind [OF pk(1) ls])
  have "fs_map ?fs d' a = None" if "a \<notin> set apps" for a
    using that unfolding L [symmetric] fs_map_def by (simp add: map_of_eq_None_iff)
  then have m: "fs_map ?fs d' = host |` set apps" using h by (auto simp: restrict_map_def)
  have "\<exists>ino. runs n {} (inode_find (root_inode ?fs) a) d' (Some ino) d' \<and>
      (\<forall>buf. length buf = length (the (host a)) \<longrightarrow> runs n {} (inode_read_at ino 0 buf) d' (length buf, the (host a)) d')"
    if a: "a \<in> set apps" for a
  proof -
    obtain c where c: "host a = Some c" "length c \<le> MAX_FILE_SIZE" using apps(2) a by (auto simp: app_ok_def split: option.splits)
    have "fs_map ?fs d' a = Some c" using h a c(1) by simp
    from find_and_read [OF inv this c(2)] show ?thesis unfolding root c(1) option.sel .
  qed
  moreover obtain s' where s': "easy_fs_pack entries host s = Inr (apps, s')" "at_disk n {} d' s'"
    using run at by (auto simp: runs_def)
  moreover have "clean s'" using flushes_easy_fs_pack s'(1) by (auto simp: flushes_def)
  note clean_file [OF s'(2) this]
  moreover have "runs n {} efs_open d' ?fs d'" using runs_efs_open [OF p, of d' d] pk(3) f(5) by simp
  ultimately show ?thesis using inv m by (intro exI [of _ ?fs] exI [of _ s'] exI [of _ d']) simp
qed

theorem easy_fs_pack_correct_witness:
  "\<exists>fs s' d'. easy_fs_pack [[97, 46, 114, 115], [98, 46, 99]] [[97] \<mapsto> [1, 2, 3], [98] \<mapsto> [4]]
       (empty_store \<lparr>bf_blocks = zero_disk, bf_len = 32768\<rparr>) = Inr ([[97], [98]], s') \<and>
     d' = bf_blocks (store_file s') \<and> efs_inv 32768 31734 fs d' \<and> fs_map fs d' [97] = Some [1, 2, 3] \<and>
     fs_map fs d' [99] = None \<and> runs 32768 {} efs_open d' fs d'"
proof -
  let ?host = "[[97] \<mapsto> [1, 2, 3], [98] \<mapsto> [4]] :: u8 list \<rightharpoonup> u8 list"
  let ?s = "empty_store \<lparr>bf_blocks = zero_disk, bf_len = 32768\<rparr>"
  have s: "strip_all [[97, 46, 114, 115], [98, 46, 99]] = Inr [[97], [98]]" by code_simp
  have d: "at_disk 32768 {} zero_disk ?s"
    by (simp add: at_disk_def cache_ok_def empty_store_def zero_disk_def view_def fun_eq_iff BLOCK_SZ_def)
  have ok: "\<forall>a \<in> set [[97], [98]]. app_ok ?host a" by (simp add: app_ok_def name_ok_def MAX_FILE_SIZE_def)
  have b: "pack_blocks ?host [[97], [98]] \<le> 31734"
    by (simp add: pack_blocks_def total_blocks_def data_blocks_of_def BLOCK_SZ_def)
  obtain fs s' d' where e: "easy_fs_pack [[97, 46, 114, 115], [98, 46, 99]] ?host ?s = Inr ([[97], [98]], s')"
      "d' = bf_blocks (store_file s')" "efs_inv 32768 31734 fs d'" "fs_map fs d' = ?host |` set [[97], [98]]"
      "runs 32768 {} efs_open d' fs d'"
    using easy_fs_pack_correct [OF _ _ d s _ ok _ b] by auto
  show ?thesis using e(4) by (intro exI [of _ fs] exI [of _ s'] exI [of _ d'] conjI e(1,2,3,5)) (simp_all add: restrict_map_def)
qed


section \<open>When the data area is full\<close>

lemma full_bitmap:
  assumes g: "geometry n A fs" and d: "disk_ok d" "bm_set (data_bitmap fs) d = {}" and m: "m \<le> bitmap_maximum (data_bitmap fs)"
  shows "\<exists>d'. disk_ok d' \<and> bm_set (data_bitmap fs) d' = {..<m}"
  using m
proof (induction m)
  case 0
  then show ?case using d by auto
next
  case (Suc m)
  then obtain e where e: "disk_ok e" "bm_set (data_bitmap fs) e = {..<m}" by auto
  then have "bm_set (data_bitmap fs) (bm_put (data_bitmap fs) True m e) = {..<Suc m}"
    using Suc.prems by (subst bm_set_put_ok) (auto simp: lessThan_Suc)
  then show ?case using disk_ok_bm_put [OF e(1)] by blast
qed

text \<open>
  C40: The data bitmap that \<open>create\<close> lays out has 4096 bits for each of its blocks, also when the data
  area is smaller. With all blocks of the data area in use \<open>alloc_data\<close> does not panic: it returns
  the number of the first block behind the file system.
\<close>

theorem alloc_data_past_area:
  assumes p: "params_ok n T B" and d: "disk_ok d" and full: "bm_set (data_bitmap (formatted T B)) d = {..<data_size T B}"
    and more: "data_size T B < 4096 * data_bm T B"
  shows "\<exists>d'. runs n {} (alloc_data (formatted T B)) d T d'"
proof -
  let ?fs = "formatted T B" and ?k = "data_size T B"
  note g = formatted_geometry [OF p] and b = data_bm_bounds [OF p] and f = formatted_fields [OF p]
  have k: "?k < bitmap_maximum (data_bitmap ?fs)" using more unfolding f by (simp add: bitmap_maximum_def)
  have T: "data_area_start_block ?fs + ?k = T" using b unfolding f by simp
  have lt: "T < 2 ^ 32" using p by (simp add: params_ok_def)
  have r: "runs n {} (bitmap_alloc (data_bitmap ?fs)) d (Some ?k) (bm_put (data_bitmap ?fs) True ?k d)"
    using full by (intro runs_bitmap_alloc_Some [OF held_ok_bm(1) [OF g] d k]) (auto simp: held_ok_def)
  have "(?k mod 2 ^ 32 + data_area_start_block ?fs) mod 2 ^ 32 = T"
  proof -
    have "?k < 2 ^ 32" using T lt by linarith
    then show ?thesis using T lt by (simp only: mod_less add.commute)
  qed
  then have "runs n {} (alloc_data ?fs) d T (bm_put (data_bitmap ?fs) True ?k d)"
    unfolding alloc_data_def runwrap_def
    by (intro runs_sbind [OF r] runs_sbind [where x = ?k and e = "bm_put (data_bitmap ?fs) True ?k d"]) (simp_all only: option.case runs_slift runs_sret)
  then show ?thesis by blast
qed

theorem alloc_data_past_area_witness:
  "\<exists>d d'. disk_ok d \<and> runs 2000 {} (alloc_data sample_fs) d 2000 d'"
proof -
  have e: "disk_ok sample_fs_disk" "bm_set (data_bitmap sample_fs) sample_fs_disk = {}" "geometry 2000 973 sample_fs"
    using sample_fs_inv(1) fresh_inv(3) [OF sample_params(1,2)]
    unfolding sample_fs_def [symmetric] sample_fs_disk_def [symmetric] by (auto simp: efs_inv_def fs_inv_def used_data_def)
  have "973 \<le> bitmap_maximum (data_bitmap sample_fs)" using e(3) by (simp add: geometry_def)
  then obtain d where "disk_ok d" "bm_set (data_bitmap sample_fs) d = {..<973}" using full_bitmap [OF e(3,1,2)] by blast
  then show ?thesis
    using alloc_data_past_area [OF sample_params(1), of d] unfolding sample_params(3) sample_fs_def [symmetric]
    by (auto simp: data_bm_def data_total_def)
qed

end
