(* ===== verification/Spec2Isabelle.thy ===== *)
theory Spec2Isabelle
  imports Scheduling Virtio_Input Sd_Card Fs_Image
begin

text \<open>
  A verification library for ch_os, a small kernel for 64-bit RISC-V written in Rust, and for
  easy-fs, the file system it boots from.

  \<^bold>\<open>The program.\<close> The kernel (\<open>os/src\<close>) manages physical frames and SV39 page tables, gives every
  process an address space of its own, schedules the processes round robin on one processor, and
  serves their system calls. Files come from easy-fs (\<open>easy-fs/src\<close>): a write-back cache of 16 blocks
  over a block device, bitmaps of free inodes and data blocks, inodes with direct, indirect and
  doubly indirect block indexes, one root directory, and an object \<open>Inode\<close> per open file.
  \<open>easy-fs-fuse\<close> packs the applications into an image on the host. The block device of the kernel is a
  virtio disk on QEMU (crate \<open>dependency/virtio-drivers\<close>) or an SD card behind an SPI controller on
  the K210 board.

  \<^bold>\<open>Conventions.\<close> A Rust function is a HOL function of the same name, with a prefix for its type
  where names clash. \<open>'a res\<close> is a panic or a result; a Rust \<open>Result\<close> is a sum inside it. Machine
  integers are words where the code relies on their width, and natural numbers with the remainder
  written out in easy-fs, whose counters are \<open>u32\<close>. State is passed explicitly: \<open>machine\<close> is the
  physical memory with the frame allocator, \<open>store\<close> the device with its cache, \<open>kernel\<close> the tasks
  with the ready queue. An operation of easy-fs has type \<open>'a op\<close>; \<open>runs n H m d r d'\<close> says that \<open>m\<close>,
  started on any state of the cache whose logical disk is \<open>d\<close>, with \<open>n\<close> blocks on the device and the
  blocks of \<open>H\<close> held by callers, returns \<open>r\<close> and leaves the logical disk \<open>d'\<close>. So the theories above the
  cache speak about disks only.

  \<^bold>\<open>Memory.\<close> \<open>Addresses\<close> models \<open>memory/address.rs\<close>, \<open>Frame_Allocator\<close> \<open>frame_allocator.rs\<close>, \<open>Page_Table\<close>
  and \<open>Translation\<close> \<open>page_table.rs\<close>, \<open>Memory_Set\<close> \<open>memory_set.rs\<close>. A new frame is unused and zeroed; a
  frame is released once. The three-level table implements a finite map from page numbers to
  entries. The access to user memory is equal to a translation byte by byte.

  \<^bold>\<open>Processes.\<close> \<open>Pid\<close> models \<open>task/pid.rs\<close>, \<open>Contexts\<close> the saved contexts with \<open>switch.S\<close> and \<open>trap.S\<close>,
  \<open>Os_File\<close> the open files of \<open>os/src/fs\<close>, \<open>Kernel\<close> the rest of \<open>task\<close>, \<open>syscall\<close>, \<open>timer.rs\<close> and the trap
  handler. What the processor does when it takes a trap and at \<open>sret\<close> is part of \<open>Contexts\<close>, with the
  privilege mode, \<open>sepc\<close> and the bits of \<open>sstatus\<close>. A control block is a \<open>RefCell\<close>: exit and wait, which
  borrow the blocks of other tasks while they hold their own, carry the set of borrowed blocks, and
  a second borrow panics. \<open>Kernel_Inv\<close> defines the steps of the kernel and proves that each keeps the invariant of
  the scheduler; \<open>Scheduling\<close> holds what follows for every run: the consistency of queue, tasks and
  process tree, first in first out dispatch, the outcomes of \<open>waitpid\<close> and \<open>exit\<close>.

  \<^bold>\<open>File system.\<close> \<open>Block_Cache\<close> models \<open>block_cache.rs\<close>, \<open>Bitmap\<close> \<open>bitmap.rs\<close>, \<open>Layout\<close> \<open>layout.rs\<close>, \<open>Efs\<close>
  \<open>efs.rs\<close>, \<open>Vfs\<close> \<open>vfs.rs\<close> and the packer. \<open>Layout_Codec\<close> shows that the byte layouts decode to what was
  encoded; those of super block and inode are the \<open>repr(C)\<close> layout of the structures, for which the
  sources have no code. \<open>Persistence\<close> tells operations that only read from those that leave every
  change on the device. \<open>Inode_Tree\<close>, \<open>Inode_Grow\<close> and \<open>Inode_Resize\<close> reduce the three-level block index to one list
  of blocks; \<open>File_Content\<close> reduces a file to one list of bytes. \<open>File_System\<close> has the invariant of the
  whole disk: every allocated block belongs to exactly one file. \<open>Directory\<close> abstracts a disk to a map
  from names to contents, and \<open>Fs_Image\<close> proves that \<open>create\<close>, \<open>write_at\<close>, \<open>clear\<close>, \<open>find\<close> and \<open>ls\<close>
  implement the operations of this map, that inodes are stored apart from each other, that
  formatting gives the empty map, and that the host file which the packer leaves holds the files of
  the host.

  \<^bold>\<open>Drivers.\<close> \<open>Virt_Queue\<close> models the registers and queues of a virtio device: the free descriptors
  form a list, those in flight form chains, and none is in both. \<open>Virtio_Blk\<close> is the block driver with
  the callbacks of the kernel, \<open>Virtio_Input\<close> the input driver, \<open>Sd_Card\<close> the protocol of the card on
  its bus. Devices are parameters; what a theorem needs of one is a named hypothesis
  (\<open>blk_device\<close>, \<open>coming\<close>) that an example device satisfies. The disk of \<open>blk_device\<close> acts only after a
  notification, only on chains whose lengths and access flags are those of a block request, and
  refuses sectors beyond its capacity.

  \<^bold>\<open>Interfaces.\<close> \<open>id_allocator\<close> and \<open>bounded_id_allocator\<close> are the contract of the allocators of frames,
  process identifiers and bitmap bits; \<open>page_map\<close> is the contract of the page table; \<open>block_store\<close> is
  the contract of the cache. Each is interpreted on the model's definitions in the theory that
  defines them.

  \<^bold>\<open>Loops and bounds.\<close> Loops that need not end are partial functions into \<open>option\<close>: reading a whole
  file, the two loops over user memory, the recycling of descriptors, the wait for a virtio device
  and for a busy card. The theorems state that they return, or exactly when. The loop that fills the
  second index level (\<open>fill_indirect2\<close>) counts down the entries still to be filled; a file has at
  most 16540 blocks, \<open>MAX_FILE_SIZE\<close> is the largest size they hold. In \<open>Kernel\<close> a loop over user memory
  that does not return is the panic value \<open>Out_Of_Fuel\<close>. The theorems on queues assume at most 32
  descriptors, the length of the rings; on a larger queue, which \<open>new\<close> accepts, the 33rd \<open>add\<close> panics.

  \<^bold>\<open>Not modelled.\<close> The start of the kernel and its linker scripts; the heap, which a third-party
  crate manages; environment calls to the firmware, whose answers are parameters; formatting and
  log output; locks and the cells other than control blocks, except that a lock held by the same
  control flow is a panic value where the code can reach it. User programs: the kernel is verified for any
  sequence of system calls. The network, console and gpu drivers and most of the \<open>riscv\<close> crate, which
  the kernel does not use. The register sequences for clocks, pins, DMA and the SPI controller of
  the K210 and the generated register accessors.
\<close>

end
